(* ===== verification/Prelude.thy ===== *)
theory Prelude
  imports Main "HOL-Library.Monad_Syntax" "HOL-Library.Sublist"
begin

text \<open>
  The shared vocabulary of the development.

  \<^item> \<^emph>\<open>Panics.\<close> The code states its internal guarantees with \<open>assured\<close> and \<open>verified\<close>
    (crate meticulous), which panic when the guarantee does not hold. An operation that can
    panic returns an \<open>option\<close> here: \<open>None\<close> is the panic. A theorem that such an operation
    does not panic states that the result is \<open>Some\<close>.
  \<^item> \<^emph>\<open>Errors.\<close> A \<open>Result<T, E>\<close> is the sum \<open>'e + 't\<close>, \<open>Inl\<close> the error.
  \<^item> \<^emph>\<open>Integers.\<close> An unsigned integer that the code only combines with checked arithmetic is
    a \<open>nat\<close>, and the checked operation is written with the bound of its width.
  \<^item> \<^emph>\<open>Durations.\<close> A \<open>std::time::Duration\<close> is its whole number of nanoseconds, an
    \<open>Instant\<close> the integer number of nanoseconds from the clock's origin.
\<close>

named_theorems panic_simps
  \<open>unfolding of the checked operations and of the panic monad\<close>

type_synonym 'a panics = "'a option"
type_synonym nanos = nat
type_synonym instant = int

abbreviation panic :: "'a panics" where
  "panic \<equiv> None"

section \<open>Checked unsigned arithmetic\<close>

definition u32_max :: nat where
  "u32_max = 4294967295"

definition u64_max :: nat where
  "u64_max = 18446744073709551615"

definition u128_max :: nat where
  "u128_max = 340282366920938463463374607431768211455"

definition checked_add :: "nat \<Rightarrow> nat \<Rightarrow> nat \<Rightarrow> nat option" where
  "checked_add bound a b = (if a + b \<le> bound then Some (a + b) else None)"

definition checked_mul :: "nat \<Rightarrow> nat \<Rightarrow> nat \<Rightarrow> nat option" where
  "checked_mul bound a b = (if a * b \<le> bound then Some (a * b) else None)"

definition checked_sub :: "nat \<Rightarrow> nat \<Rightarrow> nat option" where
  "checked_sub a b = (if b \<le> a then Some (a - b) else None)"

text \<open>\<open>try_from\<close> into a narrower unsigned type.\<close>

definition try_from :: "nat \<Rightarrow> nat \<Rightarrow> nat option" where
  "try_from bound a = (if a \<le> bound then Some a else None)"

definition div_ceil :: "nat \<Rightarrow> nat \<Rightarrow> nat" where
  "div_ceil a b = (if a mod b = 0 then a div b else a div b + 1)"

lemma checked_add_Some [panic_simps]:
  "checked_add bound a b = Some c \<longleftrightarrow> c = a + b \<and> a + b \<le> bound"
  by (auto simp: checked_add_def)

lemma checked_add_None [panic_simps]: "checked_add bound a b = None \<longleftrightarrow> bound < a + b"
  by (auto simp: checked_add_def)

lemma checked_mul_Some [panic_simps]:
  "checked_mul bound a b = Some c \<longleftrightarrow> c = a * b \<and> a * b \<le> bound"
  by (auto simp: checked_mul_def)

lemma checked_mul_None [panic_simps]: "checked_mul bound a b = None \<longleftrightarrow> bound < a * b"
  by (auto simp: checked_mul_def)

lemma checked_sub_Some [panic_simps]: "checked_sub a b = Some c \<longleftrightarrow> c = a - b \<and> b \<le> a"
  by (auto simp: checked_sub_def)

lemma checked_sub_None [panic_simps]: "checked_sub a b = None \<longleftrightarrow> a < b"
  by (auto simp: checked_sub_def)

lemma try_from_Some [panic_simps]: "try_from bound a = Some b \<longleftrightarrow> b = a \<and> a \<le> bound"
  by (auto simp: try_from_def)

lemma try_from_None [panic_simps]: "try_from bound a = None \<longleftrightarrow> bound < a"
  by (auto simp: try_from_def)

text \<open>The rounded-up quotient is the least multiplier that covers the dividend.\<close>

lemma div_ceil_covers: "0 < b \<Longrightarrow> a \<le> div_ceil a b * b"
proof -
  assume "0 < b"
  then have "a mod b < b" by simp
  moreover have "a = a div b * b + a mod b" by simp
  ultimately have "a \<le> (a div b + 1) * b" by (simp only: distrib_right)
  then show ?thesis by (auto simp: div_ceil_def)
qed

lemma div_ceil_pos: "0 < b \<Longrightarrow> b \<le> a \<Longrightarrow> 0 < div_ceil a b"
  by (simp add: div_ceil_def div_greater_zero_iff)

lemma div_ceil_least: "0 < b \<Longrightarrow> a \<le> m * b \<Longrightarrow> div_ceil a b \<le> m"
proof -
  assume b: "0 < b" and am: "a \<le> m * b"
  have split: "a = a div b * b + a mod b" by simp
  show ?thesis
  proof (cases "a mod b = 0")
    case True
    with split am have "a div b * b \<le> m * b" by linarith
    with b True show ?thesis by (simp add: div_ceil_def)
  next
    case False
    with split am have "a div b * b < m * b" by linarith
    with b False show ?thesis by (simp add: div_ceil_def)
  qed
qed

section \<open>Lists\<close>

text \<open>Indexing a slice panics out of range.\<close>

definition elem_at :: "'a list \<Rightarrow> nat \<Rightarrow> 'a panics" where
  "elem_at xs i = (if i < length xs then Some (xs ! i) else panic)"

text \<open>So does slicing it.\<close>

definition slice_range :: "'a list \<Rightarrow> nat \<Rightarrow> nat \<Rightarrow> 'a list panics" where
  "slice_range xs s e = (if s \<le> e \<and> e \<le> length xs then Some (take (e - s) (drop s xs)) else panic)"

lemma distinct_map_dropWhile: "distinct (map f xs) \<Longrightarrow> distinct (map f (dropWhile P xs))"
  by (induction xs) auto

lemma distinct_map_drop: "distinct (map f xs) \<Longrightarrow> distinct (map f (drop n xs))"
  by (metis distinct_drop drop_map)

lemma distinct_map_filter': "distinct (map f xs) \<Longrightarrow> distinct (map f (filter P xs))"
  by (induction xs) auto

text \<open>
  On a list sorted so that the predicate can only turn false, dropping the prefix that
  satisfies it is filtering the whole list.
\<close>

lemma dropWhile_eq_filter:
  "sorted_wrt (\<lambda>x y. P y \<longrightarrow> P x) xs \<Longrightarrow> dropWhile P xs = filter (\<lambda>x. \<not> P x) xs"
proof (induction xs)
  case Nil
  show ?case by simp
next
  case (Cons x xs)
  show ?case
  proof (cases "P x")
    case True
    with Cons show ?thesis by simp
  next
    case False
    with Cons.prems have "\<forall>y \<in> set xs. \<not> P y" by auto
    with False show ?thesis by simp
  qed
qed

lemma set_subseq: "subseq xs ys \<Longrightarrow> set xs \<subseteq> set ys"
  by (induction rule: list_emb.induct) auto

lemma sorted_wrt_subseq: "subseq xs ys \<Longrightarrow> sorted_wrt P ys \<Longrightarrow> sorted_wrt P xs"
  by (induction rule: list_emb.induct) (auto dest: set_subseq)

lemma takeWhile_eq_filter_sorted:
  "sorted_wrt (\<lambda>x y. P y \<longrightarrow> P x) xs \<Longrightarrow> takeWhile P xs = filter P xs"
  by (rule takeWhile_eq_filter) (auto simp: dropWhile_eq_filter)

end
