(* ===== verification/Timestamp.thy ===== *)
theory Timestamp
  imports Prelude
begin

text \<open>
  The signed Unix-nanosecond timestamp (crates/models/src/timestamp.rs).

  A timestamp is its count of Unix nanoseconds, an \<open>int\<close> that is valid when it fits an
  \<open>i64\<close>. The source widens to \<open>i128\<close> before it adds or subtracts, so the arithmetic is that of
  the integers; what is left to check is the range of every result.
\<close>

type_synonym timestamp = int

definition i64_min :: int where
  "i64_min = - 9223372036854775808"

definition i64_max :: int where
  "i64_max = 9223372036854775807"

definition valid_timestamp :: "timestamp \<Rightarrow> bool" where
  "valid_timestamp t \<longleftrightarrow> i64_min \<le> t \<and> t \<le> i64_max"

datatype timestamp_error = ArithmeticOverflow

text \<open>\<open>unix_millis\<close>: the millisecond that contains the instant, rounded towards the past.\<close>

definition unix_millis :: "timestamp \<Rightarrow> int" where
  "unix_millis t = t div 1000000"

text \<open>\<open>Timestamp::checked_add\<close>; a timestamp outside the \<open>i64\<close> range breaks its guarantee.\<close>

definition ts_checked_add :: "timestamp \<Rightarrow> nanos \<Rightarrow> (timestamp_error + timestamp) panics" where
  "ts_checked_add t d =
     (let available = i64_max - t
      in if available < 0 then panic
         else if available < int d then Some (Inl ArithmeticOverflow)
         else Some (Inr (t + int d)))"

definition ts_checked_sub :: "timestamp \<Rightarrow> nanos \<Rightarrow> (timestamp_error + timestamp) panics" where
  "ts_checked_sub t d =
     (let available = t - i64_min
      in if available < 0 then panic
         else if available < int d then Some (Inl ArithmeticOverflow)
         else Some (Inr (t - int d)))"

definition ts_duration_since :: "timestamp \<Rightarrow> timestamp \<Rightarrow> nanos option panics" where
  "ts_duration_since t earlier =
     (let nanos = t - earlier
      in if nanos < 0 then Some None
         else do { d \<leftarrow> try_from u64_max (nat nanos); Some (Some d) })"

lemmas timestamp_defs = i64_min_def i64_max_def valid_timestamp_def u64_max_def

lemma ts_checked_add_ok:
  "valid_timestamp t \<Longrightarrow>
   ts_checked_add t d = Some (if valid_timestamp (t + int d) then Inr (t + int d)
                              else Inl ArithmeticOverflow)"
  by (auto simp: ts_checked_add_def Let_def timestamp_defs)

lemma ts_checked_sub_ok:
  "valid_timestamp t \<Longrightarrow>
   ts_checked_sub t d = Some (if valid_timestamp (t - int d) then Inr (t - int d)
                              else Inl ArithmeticOverflow)"
  by (auto simp: ts_checked_sub_def Let_def timestamp_defs)

lemma ts_duration_since_ok:
  "valid_timestamp t \<Longrightarrow> valid_timestamp e \<Longrightarrow>
   ts_duration_since t e = Some (if e \<le> t then Some (nat (t - e)) else None)"
  by (auto simp: ts_duration_since_def Let_def try_from_def timestamp_defs)

text \<open>
  Adding a duration to a valid timestamp never panics; it is refused exactly when the sum leaves
  the range, and otherwise subtracting the duration, or measuring from the origin, gives back
  what was put in.
\<close>

lemma ts_add_round_trip:
  assumes "valid_timestamp t" and "ts_checked_add t d = Some (Inr u)"
  shows "valid_timestamp u \<and> ts_checked_sub u d = Some (Inr t) \<and>
    ts_duration_since u t = Some (Some d)"
  using assms
  by (auto simp: ts_checked_add_ok ts_checked_sub_ok ts_duration_since_ok split: if_splits)

end
