(* ===== verification/Branch_Registry.thy ===== *)
theory Branch_Registry
  imports Timestamp
begin

text \<open>
  The registry of concrete branch instances of one owner task
  (crates/branch-instances/src/registry.rs): identity, incarnation assignment, activity order,
  TTL expiry and LRU eviction.

  The \<open>IndexMap\<close> of the source is the list of its keys and values in index order. An index that
  the source obtains from a lookup is modelled as an index, so that the move to the newest end is
  the source's \<open>move_index\<close>.
\<close>

section \<open>Data\<close>

record 'v branch_instance_entry =
  last_ingestion :: timestamp
  incarnation :: nat
  bi_state :: 'v

record ('k, 'v) registry =
  reg_entries :: "('k \<times> 'v branch_instance_entry) list"
  reg_version :: nat

record 'k branch_instance_snapshot_entry =
  snap_key :: 'k
  snap_last_ingestion :: timestamp
  snap_incarnation :: nat

section \<open>The operations of the ordered map\<close>

fun get_index_of :: "('k \<times> 'e) list \<Rightarrow> 'k \<Rightarrow> nat option" where
  "get_index_of [] k = None"
| "get_index_of ((k', e) # es) k =
     (if k' = k then Some 0 else map_option Suc (get_index_of es k))"

definition move_to_last :: "'a list \<Rightarrow> nat \<Rightarrow> 'a list" where
  "move_to_last xs i = take i xs @ drop (Suc i) xs @ [xs ! i]"

text \<open>\<open>IndexMap::insert\<close>: replace in place, or append.\<close>

fun im_insert :: "('k \<times> 'e) list \<Rightarrow> 'k \<Rightarrow> 'e \<Rightarrow> ('k \<times> 'e) list" where
  "im_insert [] k e = [(k, e)]"
| "im_insert ((k', e') # es) k e =
     (if k' = k then (k', e) # es else (k', e') # im_insert es k e)"

text \<open>\<open>IndexMap::shift_remove\<close>: the removed value, and the rest in order.\<close>

definition shift_remove :: "('k \<times> 'e) list \<Rightarrow> 'k \<Rightarrow> 'e option \<times> ('k \<times> 'e) list" where
  "shift_remove es k = (map_of es k, filter (\<lambda>(k', _). k' \<noteq> k) es)"

section \<open>Operations\<close>

definition reg_new :: "('k, 'v) registry" where
  "reg_new = \<lparr>reg_entries = [], reg_version = 0\<rparr>"

definition reg_is_empty :: "('k, 'v) registry \<Rightarrow> bool" where
  "reg_is_empty r = (reg_entries r = [])"

definition states :: "('k, 'v) registry \<Rightarrow> 'v list" where
  "states r = map (bi_state \<circ> snd) (reg_entries r)"

definition next_version :: "('k, 'v) registry \<Rightarrow> nat panics" where
  "next_version r = checked_add u64_max (reg_version r) 1"

definition next_incarnation :: "('k, 'v) registry \<Rightarrow> nat panics" where
  "next_incarnation r = next_version r"

definition bump_version :: "('k, 'v) registry \<Rightarrow> ('k, 'v) registry panics" where
  "bump_version r = do { v \<leftarrow> next_version r; Some (r\<lparr>reg_version := v\<rparr>) }"

definition set_version :: "('k, 'v) registry \<Rightarrow> nat \<Rightarrow> ('k, 'v) registry" where
  "set_version r v = r\<lparr>reg_version := v\<rparr>"

definition snapshot_entries :: "('k, 'v) registry \<Rightarrow> 'k branch_instance_snapshot_entry list" where
  "snapshot_entries r =
     map (\<lambda>(k, e). \<lparr>snap_key = k, snap_last_ingestion = last_ingestion e,
                    snap_incarnation = incarnation e\<rparr>) (reg_entries r)"

definition reg_contains_key :: "('k, 'v) registry \<Rightarrow> 'k \<Rightarrow> bool" where
  "reg_contains_key r k = (get_index_of (reg_entries r) k \<noteq> None)"

definition insert_restored ::
  "('k, 'v) registry \<Rightarrow> 'k \<Rightarrow> timestamp \<Rightarrow> nat \<Rightarrow> 'v \<Rightarrow> 'v \<times> ('k, 'v) registry" where
  "insert_restored r k ingested inc v =
     (v, r\<lparr>reg_entries := im_insert (reg_entries r) k
             \<lparr>last_ingestion = ingested, incarnation = inc, bi_state = v\<rparr>\<rparr>)"

definition insert_changed ::
  "('k, 'v) registry \<Rightarrow> 'k \<Rightarrow> timestamp \<Rightarrow> 'v \<Rightarrow> ('v \<times> ('k, 'v) registry) panics" where
  "insert_changed r k ingested v = do {
     inc \<leftarrow> next_version r;
     let (st, r') = insert_restored r k ingested inc v;
     r'' \<leftarrow> bump_version r';
     Some (st, r'')
   }"

definition touch ::
  "('k, 'v) registry \<Rightarrow> 'k \<Rightarrow> timestamp \<Rightarrow> ('v option \<times> ('k, 'v) registry) panics" where
  "touch r k now =
     (case get_index_of (reg_entries r) k of
        None \<Rightarrow> Some (None, r)
      | Some index \<Rightarrow> do {
          let (k', entry) = reg_entries r ! index;
          let r1 = r\<lparr>reg_entries := (reg_entries r)[index := (k', entry\<lparr>last_ingestion := now\<rparr>)]\<rparr>;
          r2 \<leftarrow> bump_version r1;
          last_index \<leftarrow> checked_sub (length (reg_entries r2)) 1;
          Some (Some (bi_state entry),
                if index \<noteq> last_index
                then r2\<lparr>reg_entries := move_to_last (reg_entries r2) index\<rparr> else r2)
        })"

text \<open>
  \<open>get_or_try_create_with\<close>: the constructor is the caller's closure, given the key and the
  incarnation the branch will get. The flag says whether the branch was created.
\<close>

definition get_or_try_create_with ::
  "('k, 'v) registry \<Rightarrow> 'k \<Rightarrow> timestamp \<Rightarrow> ('k \<Rightarrow> nat \<Rightarrow> 'e + 'v) \<Rightarrow>
   (('e + 'v \<times> bool) \<times> ('k, 'v) registry) panics" where
  "get_or_try_create_with r k now create = do {
     (touched, r') \<leftarrow> touch r k now;
     case touched of
       Some st \<Rightarrow> Some (Inr (st, False), r')
     | None \<Rightarrow> do {
         inc \<leftarrow> next_version r';
         case create k inc of
           Inl e \<Rightarrow> Some (Inl e, r')
         | Inr v \<Rightarrow> do {
             r'' \<leftarrow> bump_version (r'\<lparr>reg_entries := im_insert (reg_entries r') k
                       \<lparr>last_ingestion = now, incarnation = inc, bi_state = v\<rparr>\<rparr>);
             Some (Inr (v, True), r'')
           }
       }
   }"

definition reg_remove ::
  "('k, 'v) registry \<Rightarrow> 'k \<Rightarrow> ('v option \<times> ('k, 'v) registry) panics" where
  "reg_remove r k =
     (let (entry, es) = shift_remove (reg_entries r) k; r' = r\<lparr>reg_entries := es\<rparr>
      in case entry of
           None \<Rightarrow> Some (None, r')
         | Some e \<Rightarrow> do { r'' \<leftarrow> bump_version r'; Some (Some (bi_state e), r'') })"

text \<open>The loop of \<open>expire\<close>: a front entry from the future, or one idle too briefly, ends it.\<close>

fun expire_loop ::
  "('k \<times> 'v branch_instance_entry) list \<Rightarrow> timestamp \<Rightarrow> nanos \<Rightarrow>
   ('k \<times> 'v) list \<times> ('k \<times> 'v branch_instance_entry) list" where
  "expire_loop [] now max_idle = ([], [])"
| "expire_loop ((k, e) # es) now max_idle =
     (if now < last_ingestion e then ([], (k, e) # es)
      else if nat (now - last_ingestion e) < max_idle then ([], (k, e) # es)
      else let (expired, rest) = expire_loop es now max_idle in ((k, bi_state e) # expired, rest))"

definition reg_expire ::
  "('k, 'v) registry \<Rightarrow> timestamp \<Rightarrow> nanos \<Rightarrow> (('k \<times> 'v) list \<times> ('k, 'v) registry) panics" where
  "reg_expire r now max_idle =
     (let (expired, es) = expire_loop (reg_entries r) now max_idle; r' = r\<lparr>reg_entries := es\<rparr>
      in if expired = [] then Some (expired, r')
         else do { r'' \<leftarrow> bump_version r'; Some (expired, r'') })"

fun evict_loop ::
  "('k \<times> 'v branch_instance_entry) list \<Rightarrow> nat \<Rightarrow>
   ('k \<times> 'v) list \<times> ('k \<times> 'v branch_instance_entry) list" where
  "evict_loop [] max_entries = ([], [])"
| "evict_loop ((k, e) # es) max_entries =
     (if max_entries < length ((k, e) # es)
      then let (evicted, rest) = evict_loop es max_entries in ((k, bi_state e) # evicted, rest)
      else ([], (k, e) # es))"

definition evict_lru_to_capacity ::
  "('k, 'v) registry \<Rightarrow> nat \<Rightarrow> (('k \<times> 'v) list \<times> ('k, 'v) registry) panics" where
  "evict_lru_to_capacity r max_entries =
     (let (evicted, es) = evict_loop (reg_entries r) max_entries; r' = r\<lparr>reg_entries := es\<rparr>
      in if evicted = [] then Some (evicted, r')
         else do { r'' \<leftarrow> bump_version r'; Some (evicted, r'') })"

definition reg_drain :: "('k, 'v) registry \<Rightarrow> (('k \<times> 'v) list \<times> ('k, 'v) registry) panics" where
  "reg_drain r =
     (let entries = reg_entries r; r' = r\<lparr>reg_entries := []\<rparr>; out = map (\<lambda>(k, e). (k, bi_state e)) entries
      in if entries = [] then Some (out, r')
         else do { r'' \<leftarrow> bump_version r'; Some (out, r'') })"

section \<open>Lemmas on the ordered map\<close>

named_theorems registry_simps
  \<open>the operations of the registry in terms of the entries and the version\<close>

lemma get_index_of_None: "get_index_of es k = None \<longleftrightarrow> k \<notin> fst ` set es"
  by (induction es k rule: get_index_of.induct) auto

lemma get_index_of_Some:
  "get_index_of es k = Some i \<Longrightarrow> i < length es \<and> fst (es ! i) = k \<and> map_of es k = Some (snd (es ! i))"
  by (induction es k arbitrary: i rule: get_index_of.induct) (auto split: if_splits)

lemma without_index:
  "distinct (map fst es) \<Longrightarrow> get_index_of es k = Some i \<Longrightarrow>
   take i es @ drop (Suc i) es = filter (\<lambda>(k', _). k' \<noteq> k) es"
proof (induction es k arbitrary: i rule: get_index_of.induct)
  case (1 k)
  then show ?case by simp
next
  case (2 k' e es k)
  show ?case
  proof (cases "k' = k")
    case True
    with 2 have "\<forall>(k'', _) \<in> set es. k'' \<noteq> k" by force
    with True 2 show ?thesis by (auto simp: filter_id_conv)
  next
    case False
    with 2 obtain j where "i = Suc j" "get_index_of es k = Some j" by auto
    with False 2 show ?thesis by simp
  qed
qed

lemma filter_absent: "k \<notin> fst ` set es \<Longrightarrow> filter (\<lambda>(k', _). k' \<noteq> k) es = es"
  by (induction es) auto

lemma im_insert_absent: "k \<notin> fst ` set es \<Longrightarrow> im_insert es k e = es @ [(k, e)]"
  by (induction es) auto

lemma fst_im_insert: "fst ` set (im_insert es k e) = insert k (fst ` set es)"
  by (induction es k e rule: im_insert.induct) (simp_all add: insert_commute)

lemma distinct_im_insert: "distinct (map fst es) \<Longrightarrow> distinct (map fst (im_insert es k e))"
  by (induction es k e rule: im_insert.induct) (auto simp: fst_im_insert)

lemma set_im_insert: "set (im_insert es k e) \<subseteq> insert (k, e) (set es)"
  by (induction es k e rule: im_insert.induct) auto

lemma move_updated_to_last:
  assumes "distinct (map fst es)" and "get_index_of es k = Some i"
  shows "move_to_last (es[i := (k, e)]) i = filter (\<lambda>(k', _). k' \<noteq> k) es @ [(k, e)]"
  using assms without_index [OF assms] get_index_of_Some [OF assms(2)]
  by (simp add: move_to_last_def)

lemma bump_version_Some [registry_simps]:
  "bump_version r = Some r' \<longleftrightarrow>
   r' = r\<lparr>reg_version := Suc (reg_version r)\<rparr> \<and> reg_version r < u64_max"
  by (auto simp: bump_version_def next_version_def panic_simps bind_eq_Some_conv)

lemma bump_version_eq [registry_simps]:
  "reg_version r < u64_max \<Longrightarrow> bump_version r = Some (r\<lparr>reg_version := Suc (reg_version r)\<rparr>)"
  by (simp add: bump_version_def next_version_def checked_add_def)

text \<open>A touch refreshes one entry and makes it the newest; the others keep their order.\<close>

lemma touch_present:
  assumes "distinct (map fst (reg_entries r))" and "map_of (reg_entries r) k = Some e"
    and "reg_version r < u64_max"
  shows "touch r k now = Some (Some (bi_state e),
    \<lparr>reg_entries = filter (\<lambda>(k', _). k' \<noteq> k) (reg_entries r) @ [(k, e\<lparr>last_ingestion := now\<rparr>)],
     reg_version = Suc (reg_version r)\<rparr>)"
proof -
  let ?es = "reg_entries r"
  obtain i where i: "get_index_of ?es k = Some i"
    using assms(2) get_index_of_None by (metis map_of_eq_None_iff not_None_eq)
  note at = get_index_of_Some [OF i]
  with assms(2) have entry: "?es ! i = (k, e)" by (metis option.inject prod.collapse)
  let ?e' = "e\<lparr>last_ingestion := now\<rparr>"
  have moved: "move_to_last (?es[i := (k, ?e')]) i = filter (\<lambda>(k', _). k' \<noteq> k) ?es @ [(k, ?e')]"
    using move_updated_to_last [OF assms(1) i] .
  have last: "?es[i := (k, ?e')] = filter (\<lambda>(k', _). k' \<noteq> k) ?es @ [(k, ?e')]" if "i = length ?es - 1"
  proof -
    from that at have "drop (Suc i) ?es = []" by simp
    with without_index [OF assms(1) i] have "take i ?es = filter (\<lambda>(k', _). k' \<noteq> k) ?es" by simp
    with that at show ?thesis by (simp add: upd_conv_take_nth_drop)
  qed
  show ?thesis
    using i entry at assms(3) moved last
    by (cases r) (auto simp: touch_def Let_def registry_simps checked_sub_def)
qed

lemma touch_absent: "map_of (reg_entries r) k = None \<Longrightarrow> touch r k now = Some (None, r)"
  using get_index_of_None [of "reg_entries r" k] by (auto simp: touch_def map_of_eq_None_iff)

lemma expire_loop_eq:
  "expire_loop es now max_idle =
     (let idle = \<lambda>(k, e). last_ingestion e \<le> now \<and> max_idle \<le> nat (now - last_ingestion e)
      in (map (\<lambda>(k, e). (k, bi_state e)) (takeWhile idle es), dropWhile idle es))"
  by (induction es now max_idle rule: expire_loop.induct) (auto simp: Let_def)

lemma evict_loop_eq:
  "evict_loop es n = (map (\<lambda>(k, e). (k, bi_state e)) (take (length es - n) es), drop (length es - n) es)"
  by (induction es n rule: evict_loop.induct) (auto simp: Suc_diff_le Let_def not_less)

lemma next_version_eq [registry_simps]:
  "reg_version r < u64_max \<Longrightarrow> next_version r = Some (Suc (reg_version r))"
  by (simp add: next_version_def checked_add_def)

lemma entries_update [registry_simps]:
  "r\<lparr>reg_entries := es, reg_version := v\<rparr> = \<lparr>reg_entries = es, reg_version = v\<rparr>"
  by (cases r) simp

lemma dropWhile_if_none: "takeWhile P xs = [] \<Longrightarrow> dropWhile P xs = xs"
  by (cases xs) (auto split: if_splits)

abbreviation idle_since :: "timestamp \<Rightarrow> nanos \<Rightarrow> 'k \<times> 'v branch_instance_entry \<Rightarrow> bool" where
  "idle_since now max_idle \<equiv>
     \<lambda>(k, e). last_ingestion e \<le> now \<and> max_idle \<le> nat (now - last_ingestion e)"

lemma reg_expire_spec:
  assumes "reg_version r < u64_max"
  shows "reg_expire r now max_idle =
    Some (map (\<lambda>(k, e). (k, bi_state e)) (takeWhile (idle_since now max_idle) (reg_entries r)),
      if takeWhile (idle_since now max_idle) (reg_entries r) = [] then r
      else \<lparr>reg_entries = dropWhile (idle_since now max_idle) (reg_entries r),
            reg_version = Suc (reg_version r)\<rparr>)"
  using assms by (simp add: reg_expire_def expire_loop_eq registry_simps Let_def dropWhile_if_none)

lemma evict_lru_to_capacity_spec:
  assumes "reg_version r < u64_max"
  shows "evict_lru_to_capacity r n =
    Some (map (\<lambda>(k, e). (k, bi_state e)) (take (length (reg_entries r) - n) (reg_entries r)),
      if length (reg_entries r) \<le> n then r
      else \<lparr>reg_entries = drop (length (reg_entries r) - n) (reg_entries r),
            reg_version = Suc (reg_version r)\<rparr>)"
  using assms by (auto simp: evict_lru_to_capacity_def evict_loop_eq registry_simps Let_def)

lemma reg_drain_spec:
  assumes "reg_version r < u64_max"
  shows "reg_drain r = Some (map (\<lambda>(k, e). (k, bi_state e)) (reg_entries r),
    if reg_entries r = [] then r
    else \<lparr>reg_entries = [], reg_version = Suc (reg_version r)\<rparr>)"
  using assms by (cases r) (auto simp: reg_drain_def registry_simps Let_def)

section \<open>Runs of the registry\<close>

text \<open>
  The operations an owner task performs after its restore. The three operations that take the
  domain clock carry the time they are called at.
\<close>

datatype ('k, 'v, 'e) reg_op =
    Op_touch 'k timestamp
  | Op_create 'k timestamp "'k \<Rightarrow> nat \<Rightarrow> 'e + 'v"
  | Op_insert_changed 'k timestamp 'v
  | Op_remove 'k
  | Op_expire timestamp nanos
  | Op_evict nat
  | Op_drain

fun reg_exec :: "('k, 'v, 'e) reg_op \<Rightarrow> ('k, 'v) registry \<Rightarrow> ('k, 'v) registry panics" where
  "reg_exec (Op_touch k now) r = map_option snd (touch r k now)"
| "reg_exec (Op_create k now create) r = map_option snd (get_or_try_create_with r k now create)"
| "reg_exec (Op_insert_changed k now v) r = map_option snd (insert_changed r k now v)"
| "reg_exec (Op_remove k) r = map_option snd (reg_remove r k)"
| "reg_exec (Op_expire now max_idle) r = map_option snd (reg_expire r now max_idle)"
| "reg_exec (Op_evict n) r = map_option snd (evict_lru_to_capacity r n)"
| "reg_exec Op_drain r = map_option snd (reg_drain r)"

fun reg_run :: "('k, 'v, 'e) reg_op list \<Rightarrow> ('k, 'v) registry \<Rightarrow> ('k, 'v) registry panics" where
  "reg_run [] r = Some r"
| "reg_run (x # xs) r = do { r' \<leftarrow> reg_exec x r; reg_run xs r' }"

text \<open>The keys are distinct, and every incarnation was taken from a version already passed.\<close>

definition reg_inv :: "('k, 'v) registry \<Rightarrow> bool" where
  "reg_inv r = (distinct (map fst (reg_entries r)) \<and>
     (\<forall>(_, e) \<in> set (reg_entries r). incarnation e \<le> reg_version r) \<and> reg_version r \<le> u64_max)"

text \<open>What one operation may do: nothing, or one change under the next version.\<close>

definition reg_advances :: "('k, 'v) registry \<Rightarrow> ('k, 'v) registry \<Rightarrow> bool" where
  "reg_advances r r' = (reg_inv r' \<and> (r' = r \<or> reg_version r' = Suc (reg_version r)) \<and>
     (\<forall>(k, e) \<in> set (reg_entries r').
        (\<exists>e0. (k, e0) \<in> set (reg_entries r) \<and> incarnation e0 = incarnation e) \<or>
        reg_version r < incarnation e))"

lemma reg_advances_refl: "reg_inv r \<Longrightarrow> reg_advances r r"
  by (auto simp: reg_advances_def)

text \<open>The two shapes of a change: a sublist of the entries, and a sublist with one written entry.\<close>

lemma reg_advances_sub:
  assumes "reg_inv r" and "reg_version r < u64_max"
    and "distinct (map fst es)" and "set es \<subseteq> set (reg_entries r)"
  shows "reg_advances r \<lparr>reg_entries = es, reg_version = Suc (reg_version r)\<rparr>"
  using assms by (fastforce simp: reg_advances_def reg_inv_def)

lemma reg_advances_write:
  assumes "reg_inv r" and "reg_version r < u64_max"
    and "distinct (map fst es)" and "set es \<subseteq> insert (k, e) (set (reg_entries r))"
    and "incarnation e = Suc (reg_version r) \<or>
         (\<exists>e0. (k, e0) \<in> set (reg_entries r) \<and> incarnation e0 = incarnation e)"
  shows "reg_advances r \<lparr>reg_entries = es, reg_version = Suc (reg_version r)\<rparr>"
  using assms by (fastforce simp: reg_advances_def reg_inv_def)

lemma touch_advances:
  assumes "reg_inv r" and "reg_version r < u64_max"
  shows "\<exists>st r'. touch r k now = Some (st, r') \<and> reg_advances r r' \<and>
    (st = None \<longrightarrow> r' = r \<and> k \<notin> fst ` set (reg_entries r))"
proof (cases "map_of (reg_entries r) k")
  case None
  then show ?thesis
    using assms by (auto simp: touch_absent reg_advances_refl map_of_eq_None_iff)
next
  case (Some e)
  have keys: "distinct (map fst (reg_entries r))" using assms by (simp add: reg_inv_def)
  have "(k, e) \<in> set (reg_entries r)" using Some by (rule map_of_SomeD)
  then have "reg_advances r
    \<lparr>reg_entries = filter (\<lambda>(k', _). k' \<noteq> k) (reg_entries r) @ [(k, e\<lparr>last_ingestion := now\<rparr>)],
     reg_version = Suc (reg_version r)\<rparr>"
    using keys by (intro reg_advances_write [OF assms]) (auto simp: distinct_map_filter')
  then show ?thesis using touch_present [OF keys Some assms(2)] by simp
qed

lemma insert_advances:
  assumes "reg_inv r" and "reg_version r < u64_max"
  shows "reg_advances r \<lparr>reg_entries = im_insert (reg_entries r) k
      \<lparr>last_ingestion = now, incarnation = Suc (reg_version r), bi_state = v\<rparr>,
    reg_version = Suc (reg_version r)\<rparr>"
  using assms
  by (intro reg_advances_write [OF assms _ set_im_insert]) (simp_all add: reg_inv_def distinct_im_insert)

lemma reg_exec_advances:
  assumes inv: "reg_inv r" and room: "reg_version r < u64_max"
  shows "\<exists>r'. reg_exec op r = Some r' \<and> reg_advances r r'"
proof -
  have keys: "distinct (map fst (reg_entries r))" using inv by (simp add: reg_inv_def)
  note sub = reg_advances_sub [OF inv room] and same = reg_advances_refl [OF inv]
  show ?thesis
  proof (cases op)
    case (Op_touch k now)
    then show ?thesis using touch_advances [OF inv room, of k now] by auto
  next
    case (Op_create k now create)
    obtain st r1 where t: "touch r k now = Some (st, r1)" "reg_advances r r1"
      "st = None \<Longrightarrow> r1 = r" using touch_advances [OF inv room, of k now] by auto
    show ?thesis
    proof (cases st)
      case None
      then show ?thesis
        using Op_create t same insert_advances [OF inv room] room
        by (cases "create k (Suc (reg_version r))")
          (auto simp: get_or_try_create_with_def registry_simps)
    next
      case (Some v)
      then show ?thesis using Op_create t by (simp add: get_or_try_create_with_def)
    qed
  next
    case (Op_insert_changed k now v)
    then show ?thesis using insert_advances [OF inv room] room
      by (simp add: insert_changed_def insert_restored_def registry_simps)
  next
    case (Op_remove k)
    then show ?thesis using same room keys map_of_eq_None_iff [of "reg_entries r" k]
      by (cases "map_of (reg_entries r) k")
        (auto simp: reg_remove_def shift_remove_def registry_simps distinct_map_filter'
          filter_absent intro!: sub)
  next
    case (Op_expire now max_idle)
    then show ?thesis using same room keys
      by (auto simp: reg_expire_spec distinct_map_dropWhile intro!: sub dest: set_dropWhileD)
  next
    case (Op_evict n)
    then show ?thesis using same room keys
      by (auto simp: evict_lru_to_capacity_spec distinct_map_drop intro!: sub dest: in_set_dropD)
  next
    case Op_drain
    then show ?thesis using same room
      by (auto simp: reg_drain_spec intro!: sub)
  qed
qed

text \<open>
  A run takes the versions up one by one. Two registries of one run with the same version are
  the same registry.
\<close>

definition reg_succeeds :: "('k, 'v) registry \<Rightarrow> ('k, 'v) registry \<Rightarrow> bool" where
  "reg_succeeds r r' = (reg_inv r' \<and> reg_version r \<le> reg_version r' \<and>
     (reg_version r' = reg_version r \<longrightarrow> r' = r) \<and>
     (\<forall>(k, e) \<in> set (reg_entries r').
        (\<exists>e0. (k, e0) \<in> set (reg_entries r) \<and> incarnation e0 = incarnation e) \<or>
        reg_version r < incarnation e))"

lemma reg_advances_succeeds:
  assumes "reg_advances r r1" and "reg_succeeds r1 r2"
  shows "reg_succeeds r r2"
proof -
  have up: "r1 = r \<or> reg_version r1 = Suc (reg_version r)" using assms by (simp add: reg_advances_def)
  have "(\<exists>e0. (k, e0) \<in> set (reg_entries r) \<and> incarnation e0 = incarnation e) \<or>
    reg_version r < incarnation e" if "(k, e) \<in> set (reg_entries r2)" for k e
  proof -
    from that assms(2) consider e1 where "(k, e1) \<in> set (reg_entries r1)" "incarnation e1 = incarnation e"
      | "reg_version r1 < incarnation e" by (auto simp: reg_succeeds_def)
    then show ?thesis using assms(1) up by cases (fastforce simp: reg_advances_def)+
  qed
  then show ?thesis using assms up unfolding reg_succeeds_def by auto
qed

lemma reg_run_succeeds:
  assumes "reg_inv r" and "reg_version r + length ops \<le> u64_max"
  shows "\<exists>r'. reg_run ops r = Some r' \<and> reg_succeeds r r' \<and>
    reg_version r' \<le> reg_version r + length ops"
  using assms
proof (induction ops arbitrary: r)
  case Nil
  then show ?case by (auto simp: reg_succeeds_def)
next
  case (Cons x xs)
  then have room: "reg_version r < u64_max" by simp
  obtain r1 where r1: "reg_exec x r = Some r1" "reg_advances r r1"
    using reg_exec_advances [OF Cons.prems(1) room] by blast
  then have inv: "reg_inv r1" and v: "reg_version r1 \<le> Suc (reg_version r)"
    by (auto simp: reg_advances_def)
  then obtain r2 where "reg_run xs r1 = Some r2" "reg_succeeds r1 r2"
    "reg_version r2 \<le> reg_version r1 + length xs" using Cons by fastforce
  then show ?case using r1 v reg_advances_succeeds by fastforce
qed

lemma reg_run_append: "reg_run (xs @ ys) r = do { r' \<leftarrow> reg_run xs r; reg_run ys r' }"
  by (induction xs arbitrary: r) (auto split: bind_splits)

lemma reg_new_inv: "reg_inv reg_new"
  by (simp add: reg_inv_def reg_new_def u64_max_def)

text \<open>
  C13: a branch lifetime is never reused. From a registry that satisfies its invariant, any
  sequence of operations that fits the 64-bit version runs without a panic, keeps the invariant,
  and leaves only branches that were there before with the same incarnation, or whose
  incarnation is above every version the registry had before. A branch removed and created
  again therefore never gets an incarnation it had before.
\<close>

theorem incarnations_never_reused:
  assumes "reg_inv r" and "reg_version r + length ops \<le> u64_max"
  shows "\<exists>r'. reg_run ops r = Some r' \<and> reg_inv r' \<and>
    (\<forall>k e. (k, e) \<in> set (reg_entries r') \<longrightarrow>
       (\<exists>e0. (k, e0) \<in> set (reg_entries r) \<and> incarnation e0 = incarnation e) \<or>
       (\<forall>k0 e0. (k0, e0) \<in> set (reg_entries r) \<longrightarrow> incarnation e0 < incarnation e) \<and>
       reg_version r < incarnation e)"
proof -
  obtain r' where r': "reg_run ops r = Some r'" "reg_succeeds r r'"
    using reg_run_succeeds [OF assms] by blast
  have "incarnation e0 \<le> reg_version r" if "(k0, e0) \<in> set (reg_entries r)" for k0 e0
    using that assms(1) by (auto simp: reg_inv_def)
  with r' show ?thesis by (fastforce simp: reg_succeeds_def)
qed

lemmas reg_eval = reg_new_def touch_def get_or_try_create_with_def insert_changed_def
  insert_restored_def reg_remove_def shift_remove_def reg_expire_def evict_lru_to_capacity_def
  reg_drain_def bump_version_def next_version_def move_to_last_def checked_add_def checked_sub_def
  u64_max_def Let_def

definition reg_sample :: "(nat, nat, unit) reg_op list" where
  "reg_sample = [Op_create 1 10 (\<lambda>k i. Inr i), Op_create 2 20 (\<lambda>k i. Inr i), Op_touch 1 30,
     Op_evict 1, Op_create 2 40 (\<lambda>k i. Inr i)]"

theorem incarnations_never_reused_witness:
  "reg_run reg_sample (reg_new :: (nat, nat) registry) =
     Some \<lparr>reg_entries = [(1, \<lparr>last_ingestion = 30, incarnation = 1, bi_state = 1\<rparr>),
             (2, \<lparr>last_ingestion = 40, incarnation = 5, bi_state = 5\<rparr>)], reg_version = 5\<rparr> \<and>
   (\<exists>r'. reg_run reg_sample (reg_new :: (nat, nat) registry) = Some r' \<and> reg_inv r')"
proof -
  have "reg_version (reg_new :: (nat, nat) registry) + length reg_sample \<le> u64_max"
    by (simp add: reg_new_def reg_sample_def u64_max_def)
  then have "\<exists>r'. reg_run reg_sample (reg_new :: (nat, nat) registry) = Some r' \<and> reg_inv r'"
    using incarnations_never_reused [OF reg_new_inv] by blast
  moreover have "reg_run reg_sample (reg_new :: (nat, nat) registry) =
     Some \<lparr>reg_entries = [(1, \<lparr>last_ingestion = 30, incarnation = 1, bi_state = 1\<rparr>),
             (2, \<lparr>last_ingestion = 40, incarnation = 5, bi_state = 5\<rparr>)], reg_version = 5\<rparr>"
    by (simp add: reg_sample_def reg_eval)
  ultimately show ?thesis by blast
qed

text \<open>
  C29: the version identifies the branch set. When a registry of a run has the version of an
  earlier one, nothing changed in between: the lifecycle snapshot is the same, so a replica that
  holds the snapshot of a version holds the current payload of that version.
\<close>

theorem version_identifies_snapshot:
  assumes "reg_inv r0" and "reg_version r0 + length (xs @ ys) \<le> u64_max"
    and "reg_run xs r0 = Some r" and "reg_run (xs @ ys) r0 = Some r'"
    and "reg_version r' = reg_version r"
  shows "snapshot_entries r' = snapshot_entries r \<and> states r' = states r"
proof -
  have "reg_succeeds r0 r" "reg_version r \<le> reg_version r0 + length xs"
    using reg_run_succeeds [of r0 xs] assms by auto
  then have "reg_inv r" "reg_version r + length ys \<le> u64_max"
    using assms(2) by (auto simp: reg_succeeds_def)
  then have "reg_succeeds r r'"
    using reg_run_succeeds [of r ys] assms(3,4) by (auto simp: reg_run_append)
  with assms(5) show ?thesis by (simp add: reg_succeeds_def)
qed

theorem version_identifies_snapshot_witness:
  "\<exists>r r'. reg_run reg_sample (reg_new :: (nat, nat) registry) = Some r \<and>
     reg_run (reg_sample @ [Op_evict 2, Op_remove 7]) (reg_new :: (nat, nat) registry) = Some r' \<and>
     snapshot_entries r' = snapshot_entries r \<and> states r' = states r"
proof -
  let ?r = "\<lparr>reg_entries = [(1, \<lparr>last_ingestion = 30, incarnation = 1, bi_state = 1\<rparr>),
     (2, \<lparr>last_ingestion = 40, incarnation = 5, bi_state = 5\<rparr>)], reg_version = 5\<rparr> :: (nat, nat) registry"
  have run: "reg_run reg_sample reg_new = Some ?r"
    "reg_run (reg_sample @ [Op_evict 2, Op_remove 7]) reg_new = Some ?r"
    by (simp_all add: reg_sample_def reg_eval)
  have room: "reg_version (reg_new :: (nat, nat) registry) +
      length (reg_sample @ [Op_evict 2, Op_remove 7]) \<le> u64_max"
    by (simp add: reg_new_def reg_sample_def u64_max_def)
  show ?thesis
    using version_identifies_snapshot [OF reg_new_inv room run(1) run(2)] run by blast
qed

section \<open>Activity order\<close>

text \<open>
  The order of the map is the order of activity as long as the domain clock does not go back and
  \<open>insert_changed\<close> is called for an absent branch, as its documentation says.
\<close>

definition activity_ordered :: "('k, 'v) registry \<Rightarrow> timestamp \<Rightarrow> bool" where
  "activity_ordered r t = (sorted_wrt (\<lambda>(_, a) (_, b). last_ingestion a \<le> last_ingestion b) (reg_entries r) \<and>
     (\<forall>(_, e) \<in> set (reg_entries r). last_ingestion e \<le> t))"

fun op_time :: "timestamp \<Rightarrow> ('k, 'v, 'e) reg_op \<Rightarrow> timestamp" where
  "op_time t (Op_touch k now) = now"
| "op_time t (Op_create k now create) = now"
| "op_time t (Op_insert_changed k now v) = now"
| "op_time t (Op_expire now max_idle) = now"
| "op_time t _ = t"

fun inserts_absent :: "('k, 'v) registry \<Rightarrow> ('k, 'v, 'e) reg_op \<Rightarrow> bool" where
  "inserts_absent r (Op_insert_changed k now v) = (\<not> reg_contains_key r k)"
| "inserts_absent r _ = True"

fun clocked_run :: "timestamp \<Rightarrow> ('k, 'v, 'e) reg_op list \<Rightarrow> ('k, 'v) registry \<Rightarrow> bool" where
  "clocked_run t [] r = True"
| "clocked_run t (x # xs) r = (t \<le> op_time t x \<and> inserts_absent r x \<and>
     (case reg_exec x r of None \<Rightarrow> True | Some r' \<Rightarrow> clocked_run (op_time t x) xs r'))"

lemma activity_ordered_sub:
  assumes "activity_ordered r t" and "subseq es (reg_entries r)"
  shows "activity_ordered \<lparr>reg_entries = es, reg_version = v\<rparr> t"
  using assms set_subseq [OF assms(2)] sorted_wrt_subseq [OF assms(2)]
  by (auto simp: activity_ordered_def)

lemma activity_ordered_snoc:
  assumes "activity_ordered r t" and "t \<le> now" and "subseq es (reg_entries r)"
  shows "activity_ordered \<lparr>reg_entries = es @ [(k, e\<lparr>last_ingestion := now\<rparr>)], reg_version = v\<rparr> now"
  using activity_ordered_sub [OF assms(1,3), of v] assms(2)
  by (fastforce simp: activity_ordered_def sorted_wrt_append)

lemma activity_ordered_later: "activity_ordered r t \<Longrightarrow> t \<le> t' \<Longrightarrow> activity_ordered r t'"
  by (fastforce simp: activity_ordered_def)

lemma touch_ordered:
  assumes "reg_inv r" and "reg_version r < u64_max" and "activity_ordered r t" and "t \<le> now"
  shows "\<exists>st r'. touch r k now = Some (st, r') \<and> activity_ordered r' now"
proof (cases "map_of (reg_entries r) k")
  case None
  then show ?thesis using assms activity_ordered_later by (auto simp: touch_absent)
next
  case (Some e)
  then show ?thesis
    using touch_present [OF _ Some assms(2)] assms activity_ordered_snoc [OF assms(3,4)]
    by (simp add: reg_inv_def)
qed

lemma insert_ordered:
  assumes "activity_ordered r t" and "t \<le> now" and "k \<notin> fst ` set (reg_entries r)"
  shows "activity_ordered \<lparr>reg_entries = im_insert (reg_entries r) k
      \<lparr>last_ingestion = now, incarnation = i, bi_state = v\<rparr>, reg_version = w\<rparr> now"
  using activity_ordered_snoc [OF assms(1,2) subseq_order.order_refl, of k
      "\<lparr>last_ingestion = now, incarnation = i, bi_state = v\<rparr>" w] assms(3)
  by (simp add: im_insert_absent)

lemma reg_exec_ordered:
  assumes inv: "reg_inv r" and room: "reg_version r < u64_max" and ord: "activity_ordered r t"
    and t: "t \<le> op_time t x" and ins: "inserts_absent r x"
  shows "\<exists>r'. reg_exec x r = Some r' \<and> activity_ordered r' (op_time t x)"
proof (cases x)
  case (Op_touch k now)
  then show ?thesis using touch_ordered [OF inv room ord, of now k] t by auto
next
  case (Op_create k now create)
  obtain st r1 where a: "touch r k now = Some (st, r1)" "activity_ordered r1 now"
    using touch_ordered [OF inv room ord, of now k] Op_create t by auto
  then have absent: "st = None \<Longrightarrow> r1 = r \<and> k \<notin> fst ` set (reg_entries r)"
    using touch_advances [OF inv room, of k now] by auto
  show ?thesis
  proof (cases st)
    case None
    then show ?thesis
      using Op_create a absent room t insert_ordered [OF ord]
      by (cases "create k (Suc (reg_version r))")
        (auto simp: get_or_try_create_with_def registry_simps)
  qed (use Op_create a in \<open>simp add: get_or_try_create_with_def\<close>)
next
  case (Op_insert_changed k now v)
  then show ?thesis
    using room t ins insert_ordered [OF ord, of now k] get_index_of_None [of "reg_entries r" k]
    by (auto simp: insert_changed_def insert_restored_def registry_simps reg_contains_key_def)
next
  case (Op_remove k)
  then show ?thesis
    using room ord activity_ordered_sub [OF ord, of "filter (\<lambda>(k', _). k' \<noteq> k) (reg_entries r)"]
      map_of_eq_None_iff [of "reg_entries r" k]
    by (cases "map_of (reg_entries r) k")
      (auto simp: reg_remove_def shift_remove_def registry_simps filter_absent)
next
  case (Op_expire now max_idle)
  then show ?thesis
    using activity_ordered_later [OF ord t] room
      activity_ordered_later [OF activity_ordered_sub [OF ord] t]
    by (auto simp: reg_expire_spec suffix_imp_subseq suffix_dropWhile)
next
  case (Op_evict n)
  then show ?thesis using room ord activity_ordered_sub [OF ord]
    by (auto simp: evict_lru_to_capacity_spec suffix_imp_subseq suffix_drop)
next
  case Op_drain
  then show ?thesis using room ord by (auto simp: reg_drain_spec activity_ordered_def)
qed

lemma reg_run_ordered:
  assumes "reg_inv r" and "reg_version r + length ops \<le> u64_max"
    and "activity_ordered r t" and "clocked_run t ops r"
  shows "\<exists>r'. reg_run ops r = Some r' \<and> activity_ordered r' (foldl op_time t ops)"
  using assms
proof (induction ops arbitrary: r t)
  case Nil
  then show ?case by simp
next
  case (Cons x xs)
  then have room: "reg_version r < u64_max" by simp
  obtain r1 where r1: "reg_exec x r = Some r1" "activity_ordered r1 (op_time t x)"
    using reg_exec_ordered [OF Cons.prems(1) room Cons.prems(3)] Cons.prems(4) by auto
  moreover have "reg_advances r r1"
    using reg_exec_advances [OF Cons.prems(1) room, of x] r1 by auto
  ultimately show ?case
    using Cons.IH [of r1 "op_time t x"] Cons.prems by (auto simp: reg_advances_def)
qed

lemma idle_prefix:
  assumes "activity_ordered r t"
  shows "sorted_wrt (\<lambda>x y. idle_since now max_idle y \<longrightarrow> idle_since now max_idle x) (reg_entries r)"
  using assms unfolding activity_ordered_def
  by (auto elim!: sorted_wrt_mono_rel [rotated])

text \<open>
  C28: TTL expiry is exact. After any run of a new registry under a domain clock that does not go
  back, the expiry at a later time removes exactly the branches that were idle for at least the
  maximum, although it only looks at the front of the map, returns them oldest first, and keeps
  every other branch in order.
\<close>

theorem expire_removes_exactly_the_idle:
  assumes "length ops < u64_max" and "clocked_run t0 ops reg_new" and "reg_run ops reg_new = Some r"
  shows "\<exists>expired r'. reg_expire r now max_idle = Some (expired, r') \<and>
    expired = map (\<lambda>(k, e). (k, bi_state e)) (filter (idle_since now max_idle) (reg_entries r)) \<and>
    reg_entries r' = filter (\<lambda>x. \<not> idle_since now max_idle x) (reg_entries r)"
proof -
  have fits: "reg_version (reg_new :: ('a, 'b) registry) + length ops \<le> u64_max"
    and "activity_ordered (reg_new :: ('a, 'b) registry) t0"
    using assms by (auto simp: reg_new_def activity_ordered_def)
  then have "activity_ordered r (foldl op_time t0 ops)"
    using reg_run_ordered [OF reg_new_inv fits] assms by auto
  note prefix = idle_prefix [OF this, of now max_idle]
  have "reg_version r < u64_max"
    using reg_run_succeeds [OF reg_new_inv fits] assms by (auto simp: reg_new_def)
  then show ?thesis
    using takeWhile_eq_filter_sorted [OF prefix] dropWhile_eq_filter [OF prefix]
    by (auto simp: reg_expire_spec filter_empty_conv filter_id_conv)
qed

theorem expire_removes_exactly_the_idle_witness:
  "\<exists>r expired r'. reg_run reg_sample (reg_new :: (nat, nat) registry) = Some r \<and>
     reg_expire r 45 15 = Some (expired, r') \<and> expired = [(1, 1)] \<and> map fst (reg_entries r') = [2]"
proof -
  let ?r = "\<lparr>reg_entries = [(1, \<lparr>last_ingestion = 30, incarnation = 1, bi_state = 1\<rparr>),
     (2, \<lparr>last_ingestion = 40, incarnation = 5, bi_state = 5\<rparr>)], reg_version = 5\<rparr> :: (nat, nat) registry"
  have run: "reg_run reg_sample reg_new = Some ?r" by (simp add: reg_sample_def reg_eval)
  have "length reg_sample < u64_max" by (simp add: reg_sample_def u64_max_def)
  moreover have "clocked_run 0 reg_sample (reg_new :: (nat, nat) registry)"
    by (simp add: reg_sample_def reg_eval)
  ultimately show ?thesis
    using expire_removes_exactly_the_idle [of reg_sample 0 ?r 45 15] run by auto
qed

text \<open>
  C30: eviction keeps the most recently active branches. After any run of a new registry under a
  domain clock that does not go back, reducing it to a capacity keeps the minimum of the capacity
  and its size, the branches it had are exactly those evicted followed by those kept, and no
  evicted branch was active after a kept one.
\<close>

theorem evict_keeps_most_recent:
  assumes "length ops < u64_max" and "clocked_run t0 ops reg_new" and "reg_run ops reg_new = Some r"
  shows "\<exists>victims evicted r'. evict_lru_to_capacity r capacity = Some (evicted, r') \<and>
    evicted = map (\<lambda>(k, e). (k, bi_state e)) victims \<and>
    reg_entries r = victims @ reg_entries r' \<and>
    length (reg_entries r') = min capacity (length (reg_entries r)) \<and>
    (\<forall>(_, v) \<in> set victims. \<forall>(_, e) \<in> set (reg_entries r'). last_ingestion v \<le> last_ingestion e)"
proof -
  have fits: "reg_version (reg_new :: ('a, 'b) registry) + length ops \<le> u64_max"
    and "activity_ordered (reg_new :: ('a, 'b) registry) t0"
    using assms by (auto simp: reg_new_def activity_ordered_def)
  then have "activity_ordered r (foldl op_time t0 ops)"
    using reg_run_ordered [OF reg_new_inv fits] assms by auto
  then have "sorted_wrt (\<lambda>(_, a) (_, b). last_ingestion a \<le> last_ingestion b)
      (take (length (reg_entries r) - capacity) (reg_entries r) @
       drop (length (reg_entries r) - capacity) (reg_entries r))"
    by (simp add: activity_ordered_def)
  then have order: "\<forall>(_, v) \<in> set (take (length (reg_entries r) - capacity) (reg_entries r)).
      \<forall>(_, e) \<in> set (drop (length (reg_entries r) - capacity) (reg_entries r)).
        last_ingestion v \<le> last_ingestion e"
    unfolding sorted_wrt_append by fast
  have "reg_version r < u64_max"
    using reg_run_succeeds [OF reg_new_inv fits] assms by (auto simp: reg_new_def)
  then show ?thesis
    using order
    by (intro exI [of _ "take (length (reg_entries r) - capacity) (reg_entries r)"])
      (simp add: evict_lru_to_capacity_spec)
qed

theorem evict_keeps_most_recent_witness:
  "\<exists>r evicted r'. reg_run reg_sample (reg_new :: (nat, nat) registry) = Some r \<and>
     evict_lru_to_capacity r 1 = Some (evicted, r') \<and> length (reg_entries r') = 1"
proof -
  let ?r = "\<lparr>reg_entries = [(1, \<lparr>last_ingestion = 30, incarnation = 1, bi_state = 1\<rparr>),
     (2, \<lparr>last_ingestion = 40, incarnation = 5, bi_state = 5\<rparr>)], reg_version = 5\<rparr> :: (nat, nat) registry"
  have run: "reg_run reg_sample reg_new = Some ?r" by (simp add: reg_sample_def reg_eval)
  have "length reg_sample < u64_max" by (simp add: reg_sample_def u64_max_def)
  moreover have "clocked_run 0 reg_sample (reg_new :: (nat, nat) registry)"
    by (simp add: reg_sample_def reg_eval)
  ultimately obtain evicted r' where "evict_lru_to_capacity ?r 1 = Some (evicted, r')"
    and "length (reg_entries r') = min 1 (length (reg_entries ?r))"
    using evict_keeps_most_recent [of reg_sample 0 ?r 1] run by blast
  then show ?thesis
    using run by (intro exI [of _ ?r] exI [of _ evicted] exI [of _ r'] conjI) simp_all
qed

end
