(* ===== verification/Branch_Membership.thy ===== *)
theory Branch_Membership
  imports Branch_Registry
begin

text \<open>
  The branch membership an owner task publishes (crates/branch-instances/src/membership.rs).

  The published value is behind an \<open>ArcSwap\<close>. A compare-and-swap compares the identity of the
  shared allocation, so the model keeps a stamp beside the value: every installed value gets a
  stamp no earlier value had. This is what the code relies on, because the guard it loaded keeps
  the compared allocation alive.

  An owner's operation first changes its own state, then publishes. The publication is a loop of a
  load and a compare-and-swap, and owners of one presence run concurrently (a replaced owner may
  still be publishing when its successor claims the presence), so load and swap are separate steps
  of the relation below.
\<close>

section \<open>Data\<close>

type_synonym owner_lifetime = nat

record 'k branch_membership =
  bm_owner :: "owner_lifetime option"
  bm_unbranched :: bool
  bm_branches :: "'k set"

record 'k branch_presence =
  bp_stamp :: nat
  bp_published :: "'k branch_membership"
  bp_next_stamp :: nat

record ('k, 'v) owned_branches =
  ob_instances :: "('k, 'v) registry"
  ob_membership :: "'k branch_membership"

record ('k, 'v) branch_admission =
  ba_branch :: "'v option"
  ba_evicted :: "('k \<times> 'v) list"

section \<open>Membership and presence\<close>

fun owner_after :: "owner_lifetime option \<Rightarrow> owner_lifetime panics" where
  "owner_after None = Some 1"
| "owner_after (Some previous) = checked_add u64_max previous 1"

definition bm_empty :: "owner_lifetime option \<Rightarrow> 'k branch_membership" where
  "bm_empty owner = \<lparr>bm_owner = owner, bm_unbranched = False, bm_branches = {}\<rparr>"

definition bm_is_empty :: "'k branch_membership \<Rightarrow> bool" where
  "bm_is_empty m = (\<not> bm_unbranched m \<and> bm_branches m = {})"

fun bm_contains :: "'k branch_membership \<Rightarrow> 'k option \<Rightarrow> bool" where
  "bm_contains m None = bm_unbranched m"
| "bm_contains m (Some k) = (k \<in> bm_branches m)"

definition branch_count :: "'k branch_membership \<Rightarrow> nat" where
  "branch_count m = card (bm_branches m)"

definition bp_new :: "'k branch_presence" where
  "bp_new = \<lparr>bp_stamp = 0, bp_published = bm_empty None, bp_next_stamp = 1\<rparr>"

definition bp_contains :: "'k branch_presence \<Rightarrow> 'k option \<Rightarrow> bool" where
  "bp_contains p k = bm_contains (bp_published p) k"

text \<open>Installing a value in the \<open>ArcSwap\<close>.\<close>

definition bp_store :: "'k branch_presence \<Rightarrow> 'k branch_membership \<Rightarrow> 'k branch_presence" where
  "bp_store p m = \<lparr>bp_stamp = bp_next_stamp p, bp_published = m, bp_next_stamp = Suc (bp_next_stamp p)\<rparr>"

text \<open>\<open>BranchPresence::claim\<close>; \<open>rcu\<close> replaces the value in one atomic update.\<close>

definition bp_claim :: "'k branch_presence \<Rightarrow> (owner_lifetime \<times> 'k branch_presence) panics" where
  "bp_claim p = do {
     owner \<leftarrow> owner_after (bm_owner (bp_published p));
     Some (owner, bp_store p (bm_empty (Some owner)))
   }"

text \<open>
  \<open>BranchPresence::publish\<close>: the load of one iteration, which returns the identity the swap will
  compare against or ends the loop, and the swap, which ends it when the identity still matched.
\<close>

definition publish_load :: "'k branch_presence \<Rightarrow> 'k branch_membership \<Rightarrow> nat option" where
  "publish_load p m = (if bm_owner (bp_published p) \<noteq> bm_owner m then None else Some (bp_stamp p))"

definition publish_swap ::
  "'k branch_presence \<Rightarrow> 'k branch_membership \<Rightarrow> nat \<Rightarrow> bool \<times> 'k branch_presence" where
  "publish_swap p m current = (if bp_stamp p = current then (True, bp_store p m) else (False, p))"

section \<open>The operations of an owner, up to the publication\<close>

definition ob_claim :: "owner_lifetime \<Rightarrow> ('k, 'v) owned_branches" where
  "ob_claim owner = \<lparr>ob_instances = reg_new, ob_membership = bm_empty (Some owner)\<rparr>"

definition admit_branch ::
  "('k, 'v) owned_branches \<Rightarrow> 'k \<Rightarrow> timestamp \<Rightarrow> ('k \<Rightarrow> nat \<Rightarrow> 'e + 'v) \<Rightarrow>
   (('e + 'v \<times> bool) \<times> ('k, 'v) owned_branches) panics" where
  "admit_branch ob k now create = do {
     (touched, r1) \<leftarrow> touch (ob_instances ob) k now;
     case touched of
       Some st \<Rightarrow> Some (Inr (st, False), ob\<lparr>ob_instances := r1\<rparr>)
     | None \<Rightarrow> do {
         (created, r2) \<leftarrow> get_or_try_create_with r1 k now create;
         case created of
           Inl e \<Rightarrow> Some (Inl e, ob\<lparr>ob_instances := r2\<rparr>)
         | Inr c \<Rightarrow> Some (Inr c, ob\<lparr>ob_instances := r2,
             ob_membership := (ob_membership ob)\<lparr>bm_branches := insert k (bm_branches (ob_membership ob))\<rparr>\<rparr>)
       }
   }"

definition admit_unbranched :: "('k, 'v) owned_branches \<Rightarrow> bool \<times> ('k, 'v) owned_branches" where
  "admit_unbranched ob =
     (if bm_unbranched (ob_membership ob) then (False, ob)
      else (True, ob\<lparr>ob_membership := (ob_membership ob)\<lparr>bm_unbranched := True\<rparr>\<rparr>))"

text \<open>The loops \<open>for (key, _) in &evicted\<close> and \<open>for (key, _) in &expired\<close>.\<close>

definition release_branches :: "('k \<times> 'v) list \<Rightarrow> 'k branch_membership \<Rightarrow> 'k branch_membership" where
  "release_branches released m =
     fold (\<lambda>(k, _) m. m\<lparr>bm_branches := bm_branches m - {k}\<rparr>) released m"

definition release_beyond ::
  "('k, 'v) owned_branches \<Rightarrow> nat option \<Rightarrow> (('k \<times> 'v) list \<times> ('k, 'v) owned_branches) panics" where
  "release_beyond ob capacity =
     (case capacity of
        None \<Rightarrow> Some ([], ob)
      | Some n \<Rightarrow> do {
          (evicted, r) \<leftarrow> evict_lru_to_capacity (ob_instances ob) n;
          Some (evicted, ob\<lparr>ob_instances := r, ob_membership := release_branches evicted (ob_membership ob)\<rparr>)
        })"

text \<open>
  \<open>OwnedBranches::admit\<close>: the result, the owner, and the membership to publish, if any. An error
  of the caller's constructor returns before anything is published.
\<close>

definition admit ::
  "('k, 'v) owned_branches \<Rightarrow> 'k option \<Rightarrow> timestamp \<Rightarrow> nat option \<Rightarrow> ('k \<Rightarrow> nat \<Rightarrow> 'e + 'v) \<Rightarrow>
   (('e + ('k, 'v) branch_admission) \<times> ('k, 'v) owned_branches \<times> 'k branch_membership option) panics" where
  "admit ob key now capacity create = do {
     (admitted, ob1) \<leftarrow>
       (case key of
          Some k \<Rightarrow> do {
            (res, ob1) \<leftarrow> admit_branch ob k now create;
            Some (case res of Inl e \<Rightarrow> Inl e | Inr (st, created) \<Rightarrow> Inr (Some st, created), ob1)
          }
        | None \<Rightarrow> (let (changed, ob1) = admit_unbranched ob in Some (Inr (None, changed), ob1)));
     case admitted of
       Inl e \<Rightarrow> Some (Inl e, ob1, None)
     | Inr (branch, changed) \<Rightarrow> do {
         (evicted, ob2) \<leftarrow> release_beyond ob1 capacity;
         Some (Inr \<lparr>ba_branch = branch, ba_evicted = evicted\<rparr>, ob2,
           if changed \<or> evicted \<noteq> [] then Some (ob_membership ob2) else None)
       }
   }"

definition ob_expire ::
  "('k, 'v) owned_branches \<Rightarrow> timestamp \<Rightarrow> nanos \<Rightarrow>
   (('k \<times> 'v) list \<times> ('k, 'v) owned_branches \<times> 'k branch_membership option) panics" where
  "ob_expire ob now max_idle = do {
     (expired, r) \<leftarrow> reg_expire (ob_instances ob) now max_idle;
     if expired = [] then Some (expired, ob\<lparr>ob_instances := r\<rparr>, None)
     else let ob' = ob\<lparr>ob_instances := r, ob_membership := release_branches expired (ob_membership ob)\<rparr>
          in Some (expired, ob', Some (ob_membership ob'))
   }"

text \<open>\<open>Drop\<close>: what the owner publishes when it is dropped.\<close>

definition ob_drop :: "('k, 'v) owned_branches \<Rightarrow> 'k branch_membership option" where
  "ob_drop ob =
     (if bm_is_empty (ob_membership ob) then None else Some (bm_empty (bm_owner (ob_membership ob))))"

section \<open>An owner's membership is its set of live branches\<close>

definition ob_inv :: "('k, 'v) owned_branches \<Rightarrow> bool" where
  "ob_inv ob = (distinct (map fst (reg_entries (ob_instances ob))) \<and>
     bm_branches (ob_membership ob) = fst ` set (reg_entries (ob_instances ob)))"

text \<open>What the registry's operations do to its keys, whenever they return.\<close>

lemma touch_keys:
  assumes "distinct (map fst (reg_entries r))" and "touch r k now = Some (st, r')"
  shows "distinct (map fst (reg_entries r')) \<and> fst ` set (reg_entries r') = fst ` set (reg_entries r) \<and>
    (st = None \<longrightarrow> r' = r \<and> k \<notin> fst ` set (reg_entries r))"
proof (cases "map_of (reg_entries r) k")
  case None
  then show ?thesis using assms by (auto simp: touch_absent map_of_eq_None_iff)
next
  case (Some e)
  then have present: "(k, e) \<in> set (reg_entries r)" by (rule map_of_SomeD)
  then have "get_index_of (reg_entries r) k \<noteq> None"
    by (metis get_index_of_None fst_conv image_eqI)
  then have "reg_version r < u64_max"
    using assms(2) by (auto simp: touch_def Let_def registry_simps split: prod.splits bind_splits)
  with touch_present [OF assms(1) Some] assms present show ?thesis
    by (force simp: distinct_map_filter')
qed

lemma create_keys:
  assumes "distinct (map fst (reg_entries r))" and "k \<notin> fst ` set (reg_entries r)"
    and "get_or_try_create_with r k now create = Some (res, r')"
  shows "distinct (map fst (reg_entries r')) \<and>
    (case res of Inl _ \<Rightarrow> r' = r
     | Inr (_, created) \<Rightarrow> created \<and> fst ` set (reg_entries r') = insert k (fst ` set (reg_entries r)))"
proof -
  from assms(2) have "touch r k now = Some (None, r)" by (simp add: touch_absent map_of_eq_None_iff)
  with assms show ?thesis
    by (auto simp: get_or_try_create_with_def registry_simps im_insert_absent
        split: bind_splits sum.splits)
qed

lemma split_keys:
  assumes "distinct (map fst es)" and "es = xs @ ys"
  shows "distinct (map fst ys) \<and> fst ` set ys = fst ` set es - fst ` set xs"
  using assms by auto

lemma fst_states: "fst ` (\<lambda>(k, e). (k, bi_state e)) ` A = fst ` A"
  by force

lemma expire_keys:
  assumes "distinct (map fst (reg_entries r))" and "reg_expire r now max_idle = Some (expired, r')"
  shows "distinct (map fst (reg_entries r')) \<and>
    fst ` set (reg_entries r') = fst ` set (reg_entries r) - fst ` set expired"
proof -
  let ?P = "idle_since now max_idle"
  have "reg_entries r' = dropWhile ?P (reg_entries r)"
    "expired = map (\<lambda>(k, e). (k, bi_state e)) (takeWhile ?P (reg_entries r))"
    using assms(2) by (auto simp: reg_expire_def expire_loop_eq Let_def registry_simps split: if_splits bind_splits)
  with split_keys [OF assms(1), of "takeWhile ?P (reg_entries r)"] show ?thesis
    by (simp add: fst_states)
qed

lemma evict_keys:
  assumes "distinct (map fst (reg_entries r))" and "evict_lru_to_capacity r n = Some (evicted, r')"
  shows "distinct (map fst (reg_entries r')) \<and>
    fst ` set (reg_entries r') = fst ` set (reg_entries r) - fst ` set evicted"
proof -
  let ?n = "length (reg_entries r) - n"
  have "reg_entries r' = drop ?n (reg_entries r)"
    "evicted = map (\<lambda>(k, e). (k, bi_state e)) (take ?n (reg_entries r))"
    using assms(2) by (auto simp: evict_lru_to_capacity_def evict_loop_eq Let_def registry_simps split: if_splits bind_splits)
  with split_keys [OF assms(1), of "take ?n (reg_entries r)"] show ?thesis
    by (simp add: fst_states)
qed

lemma release_branches_eq:
  "release_branches released m = m\<lparr>bm_branches := bm_branches m - fst ` set released\<rparr>"
  unfolding release_branches_def
  by (induction released arbitrary: m) (auto simp: Diff_insert2 [symmetric])

lemma claim_inv: "ob_inv (ob_claim l) \<and> ob_membership (ob_claim l) = bm_empty (Some l)"
  by (simp add: ob_inv_def ob_claim_def bm_empty_def reg_new_def)

lemma admit_branch_inv:
  assumes "ob_inv ob" and "admit_branch ob k now create = Some (res, ob')"
  shows "ob_inv ob' \<and> bm_owner (ob_membership ob') = bm_owner (ob_membership ob) \<and>
    (case res of Inl _ \<Rightarrow> ob_membership ob' = ob_membership ob
     | Inr (_, created) \<Rightarrow> \<not> created \<longrightarrow> ob_membership ob' = ob_membership ob)"
proof -
  let ?r = "ob_instances ob"
  from assms(1) have keys: "distinct (map fst (reg_entries ?r))" by (simp add: ob_inv_def)
  obtain st r1 where t: "touch ?r k now = Some (st, r1)"
    using assms(2) by (auto simp: admit_branch_def split: bind_splits)
  note tk = touch_keys [OF keys t]
  show ?thesis
  proof (cases st)
    case (Some v)
    then show ?thesis using assms t tk by (clarsimp simp: admit_branch_def ob_inv_def)
  next
    case None
    then obtain c r2 where c: "get_or_try_create_with ?r k now create = Some (c, r2)"
      using assms(2) t tk by (auto simp: admit_branch_def split: bind_splits)
    show ?thesis
      using assms t tk c None create_keys [OF keys _ c]
      by (cases c) (clarsimp simp: admit_branch_def ob_inv_def)+
  qed
qed

lemma release_beyond_inv:
  assumes "ob_inv ob" and "release_beyond ob capacity = Some (evicted, ob')"
  shows "ob_inv ob' \<and> bm_owner (ob_membership ob') = bm_owner (ob_membership ob) \<and>
    (evicted = [] \<longrightarrow> ob_membership ob' = ob_membership ob)"
proof (cases capacity)
  case None
  with assms show ?thesis by (simp add: release_beyond_def)
next
  case (Some n)
  with assms(2) obtain r where e: "evict_lru_to_capacity (ob_instances ob) n = Some (evicted, r)"
    and ob': "ob' = ob\<lparr>ob_instances := r, ob_membership := release_branches evicted (ob_membership ob)\<rparr>"
    by (auto simp: release_beyond_def split: bind_splits)
  with evict_keys [OF _ e] assms(1) show ?thesis
    by (simp add: ob_inv_def release_branches_eq)
qed

lemma ob_expire_inv:
  assumes "ob_inv ob" and "ob_expire ob now max_idle = Some (expired, ob', publish)"
  shows "ob_inv ob' \<and> bm_owner (ob_membership ob') = bm_owner (ob_membership ob) \<and>
    (case publish of None \<Rightarrow> ob_membership ob' = ob_membership ob | Some m \<Rightarrow> m = ob_membership ob')"
proof -
  from assms(2) obtain r where e: "reg_expire (ob_instances ob) now max_idle = Some (expired, r)"
    by (auto simp: ob_expire_def Let_def split: bind_splits if_splits)
  with expire_keys [OF _ e] assms show ?thesis
    by (clarsimp simp: ob_expire_def ob_inv_def release_branches_eq Let_def split: if_splits)
qed

lemma admit_inv:
  assumes inv: "ob_inv ob" and adm: "admit ob key now capacity create = Some (res, ob', publish)"
  shows "ob_inv ob' \<and> bm_owner (ob_membership ob') = bm_owner (ob_membership ob) \<and>
    (case publish of None \<Rightarrow> ob_membership ob' = ob_membership ob | Some m \<Rightarrow> m = ob_membership ob')"
proof -
  define first where "first =
    (case key of
       Some k \<Rightarrow> do {
         (res, ob1) \<leftarrow> admit_branch ob k now create;
         Some (case res of Inl e \<Rightarrow> Inl e | Inr (st, created) \<Rightarrow> Inr (Some st, created), ob1)
       }
     | None \<Rightarrow> (let (changed, ob1) = admit_unbranched ob in Some (Inr (None, changed), ob1)))"
  obtain admitted ob1 where f: "first = Some (admitted, ob1)"
    using adm unfolding admit_def first_def [symmetric] by (auto split: bind_splits)
  have one: "ob_inv ob1 \<and> bm_owner (ob_membership ob1) = bm_owner (ob_membership ob) \<and>
    (case admitted of Inl _ \<Rightarrow> ob_membership ob1 = ob_membership ob
     | Inr (_, changed) \<Rightarrow> \<not> changed \<longrightarrow> ob_membership ob1 = ob_membership ob)"
  proof (cases key)
    case None
    with f inv show ?thesis
      by (clarsimp simp: first_def admit_unbranched_def ob_inv_def split: if_splits)
  next
    case (Some k)
    then obtain res0 where a: "admit_branch ob k now create = Some (res0, ob1)"
      and "admitted = (case res0 of Inl e \<Rightarrow> Inl e | Inr (st, created) \<Rightarrow> Inr (Some st, created))"
      using f by (auto simp: first_def split: bind_splits)
    with admit_branch_inv [OF inv a] show ?thesis by (auto split: sum.splits)
  qed
  show ?thesis
  proof (cases admitted)
    case (Inl e)
    with adm f one show ?thesis unfolding admit_def first_def [symmetric] by simp
  next
    case (Inr bc)
    then obtain branch changed where bc: "admitted = Inr (branch, changed)" by (cases bc) auto
    obtain evicted where rb: "release_beyond ob1 capacity = Some (evicted, ob')"
      and pub: "publish = (if changed \<or> evicted \<noteq> [] then Some (ob_membership ob') else None)"
      using adm f bc unfolding admit_def first_def [symmetric] by (auto split: bind_splits)
    with release_beyond_inv [OF _ rb] one bc show ?thesis by auto
  qed
qed

lemma ob_drop_publishes:
  "ob_drop ob = Some m \<Longrightarrow> m = bm_empty (bm_owner (ob_membership ob))"
  "ob_drop ob = None \<Longrightarrow> ob_membership ob = bm_empty (bm_owner (ob_membership ob))"
  by (auto simp: ob_drop_def bm_is_empty_def bm_empty_def split: if_splits)

section \<open>Concurrent owners\<close>

text \<open>
  An owner task is ready for its next operation, or inside a publication: at the load of an
  iteration, or at the swap with the identity it loaded. \<open>ot_dropping\<close> says that the publication
  is the one of \<open>Drop\<close>, after which the task is gone.
\<close>

datatype 'k phase =
    Ready
  | At_load "'k branch_membership"
  | At_swap "'k branch_membership" nat

record ('k, 'v) owner_task =
  ot_owner :: "('k, 'v) owned_branches"
  ot_phase :: "'k phase"
  ot_dropping :: bool

record ('k, 'v) presence_system =
  ps_presence :: "'k branch_presence"
  ps_tasks :: "owner_lifetime \<Rightarrow> ('k, 'v) owner_task option"

fun publish_phase :: "'k branch_membership option \<Rightarrow> 'k phase" where
  "publish_phase None = Ready"
| "publish_phase (Some m) = At_load m"

definition finish_publish ::
  "('k, 'v) presence_system \<Rightarrow> owner_lifetime \<Rightarrow> ('k, 'v) owner_task \<Rightarrow> ('k, 'v) presence_system" where
  "finish_publish s l t =
     s\<lparr>ps_tasks := (ps_tasks s)(l := if ot_dropping t then None else Some (t\<lparr>ot_phase := Ready\<rparr>))\<rparr>"

definition ps_init :: "('k, 'v) presence_system" where
  "ps_init = \<lparr>ps_presence = bp_new, ps_tasks = Map.empty\<rparr>"

inductive ps_step :: "('k, 'v) presence_system \<Rightarrow> ('k, 'v) presence_system \<Rightarrow> bool" where
  Claim: "bp_claim (ps_presence s) = Some (l, p) \<Longrightarrow>
    ps_step s (s\<lparr>ps_presence := p, ps_tasks := (ps_tasks s)(l \<mapsto>
      \<lparr>ot_owner = ob_claim l, ot_phase = Ready, ot_dropping = False\<rparr>)\<rparr>)"
| Admit: "ps_tasks s l = Some t \<Longrightarrow> ot_phase t = Ready \<Longrightarrow>
    admit (ot_owner t) key now capacity (create :: 'k \<Rightarrow> nat \<Rightarrow> unit + 'v) = Some (res, ob, publish) \<Longrightarrow>
    ps_step s (s\<lparr>ps_tasks := (ps_tasks s)(l \<mapsto> t\<lparr>ot_owner := ob, ot_phase := publish_phase publish\<rparr>)\<rparr>)"
| Expire: "ps_tasks s l = Some t \<Longrightarrow> ot_phase t = Ready \<Longrightarrow>
    ob_expire (ot_owner t) now max_idle = Some (expired, ob, publish) \<Longrightarrow>
    ps_step s (s\<lparr>ps_tasks := (ps_tasks s)(l \<mapsto> t\<lparr>ot_owner := ob, ot_phase := publish_phase publish\<rparr>)\<rparr>)"
| Drop_silent: "ps_tasks s l = Some t \<Longrightarrow> ot_phase t = Ready \<Longrightarrow> ob_drop (ot_owner t) = None \<Longrightarrow>
    ps_step s (s\<lparr>ps_tasks := (ps_tasks s)(l := None)\<rparr>)"
| Drop: "ps_tasks s l = Some t \<Longrightarrow> ot_phase t = Ready \<Longrightarrow> ob_drop (ot_owner t) = Some m \<Longrightarrow>
    ps_step s (s\<lparr>ps_tasks := (ps_tasks s)(l \<mapsto> t\<lparr>ot_phase := At_load m, ot_dropping := True\<rparr>)\<rparr>)"
| Load_stale: "ps_tasks s l = Some t \<Longrightarrow> ot_phase t = At_load m \<Longrightarrow>
    publish_load (ps_presence s) m = None \<Longrightarrow> ps_step s (finish_publish s l t)"
| Load: "ps_tasks s l = Some t \<Longrightarrow> ot_phase t = At_load m \<Longrightarrow>
    publish_load (ps_presence s) m = Some current \<Longrightarrow>
    ps_step s (s\<lparr>ps_tasks := (ps_tasks s)(l \<mapsto> t\<lparr>ot_phase := At_swap m current\<rparr>)\<rparr>)"
| Swap: "ps_tasks s l = Some t \<Longrightarrow> ot_phase t = At_swap m current \<Longrightarrow>
    publish_swap (ps_presence s) m current = (True, p) \<Longrightarrow>
    ps_step s (finish_publish (s\<lparr>ps_presence := p\<rparr>) l t)"
| Swap_lost: "ps_tasks s l = Some t \<Longrightarrow> ot_phase t = At_swap m current \<Longrightarrow>
    publish_swap (ps_presence s) m current = (False, p) \<Longrightarrow>
    ps_step s (s\<lparr>ps_tasks := (ps_tasks s)(l \<mapsto> t\<lparr>ot_phase := At_load m\<rparr>)\<rparr>)"

inductive ps_reachable :: "('k, 'v) presence_system \<Rightarrow> bool" where
  ps_start: "ps_reachable ps_init"
| ps_more: "ps_reachable s \<Longrightarrow> ps_step s s' \<Longrightarrow> ps_reachable s'"

text \<open>
  The invariant of one task of lifetime \<open>l\<close> under the presence. \<open>current\<close> is the lifetime that
  published last. What is published is the membership of the ready current owner; a task at its
  swap holds the installed identity exactly while its lifetime is the current one.
\<close>

fun phase_inv :: "'k branch_presence \<Rightarrow> owner_lifetime \<Rightarrow> bool \<Rightarrow> 'k branch_membership \<Rightarrow> 'k phase \<Rightarrow> bool" where
  "phase_inv p l dropping m Ready =
     (\<not> dropping \<and> (bm_owner (bp_published p) = Some l \<longrightarrow> bp_published p = m))"
| "phase_inv p l dropping m (At_load m') = (m' = (if dropping then bm_empty (Some l) else m))"
| "phase_inv p l dropping m (At_swap m' st) =
     (m' = (if dropping then bm_empty (Some l) else m) \<and> st < bp_next_stamp p \<and>
      (bp_stamp p = st \<longleftrightarrow> bm_owner (bp_published p) = Some l))"

definition task_inv :: "'k branch_presence \<Rightarrow> owner_lifetime \<Rightarrow> ('k, 'v) owner_task \<Rightarrow> bool" where
  "task_inv p l t = (ob_inv (ot_owner t) \<and> bm_owner (ob_membership (ot_owner t)) = Some l \<and>
     phase_inv p l (ot_dropping t) (ob_membership (ot_owner t)) (ot_phase t) \<and>
     (\<exists>current. bm_owner (bp_published p) = Some current \<and> l \<le> current))"

definition presence_inv :: "('k, 'v) presence_system \<Rightarrow> bool" where
  "presence_inv s = (bp_stamp (ps_presence s) < bp_next_stamp (ps_presence s) \<and>
     (\<forall>l t. ps_tasks s l = Some t \<longrightarrow> task_inv (ps_presence s) l t) \<and>
     (case bm_owner (bp_published (ps_presence s)) of
        None \<Rightarrow> bp_published (ps_presence s) = bm_empty None
      | Some l \<Rightarrow> ps_tasks s l = None \<longrightarrow> bp_published (ps_presence s) = bm_empty (Some l)))"

lemma presence_inv_local:
  assumes "presence_inv s" and "ps_tasks s l = Some t" and "task_inv (ps_presence s) l t'"
  shows "presence_inv (s\<lparr>ps_tasks := (ps_tasks s)(l \<mapsto> t')\<rparr>)"
  using assms by (auto simp: presence_inv_def split: option.splits)

lemma presence_inv_remove:
  assumes "presence_inv s"
    and "bm_owner (bp_published (ps_presence s)) = Some l \<Longrightarrow> bp_published (ps_presence s) = bm_empty (Some l)"
  shows "presence_inv (s\<lparr>ps_tasks := (ps_tasks s)(l := None)\<rparr>)"
  using assms by (auto simp: presence_inv_def split: option.splits)

text \<open>Installing a value leaves every task of another lifetime as it should be.\<close>

lemma task_inv_store:
  assumes "task_inv p l' t" and "l' \<noteq> l" and "bm_owner m = Some l"
    and "\<And>current. bm_owner (bp_published p) = Some current \<Longrightarrow> current \<le> l"
  shows "task_inv (bp_store p m) l' t"
proof -
  obtain current where c: "bm_owner (bp_published p) = Some current" "l' \<le> current"
    using assms(1) by (auto simp: task_inv_def)
  then have "l' \<le> l" using assms(4) by force
  then show ?thesis
    using assms by (cases "ot_phase t") (auto simp: task_inv_def bp_store_def)
qed

lemma presence_inv_claim:
  assumes inv: "presence_inv s" and claim: "bp_claim (ps_presence s) = Some (l, p)"
  shows "presence_inv (s\<lparr>ps_presence := p, ps_tasks := (ps_tasks s)(l \<mapsto>
    \<lparr>ot_owner = ob_claim l, ot_phase = Ready, ot_dropping = False\<rparr>)\<rparr>)"
proof -
  let ?p = "ps_presence s"
  have p: "p = bp_store ?p (bm_empty (Some l))" and l: "owner_after (bm_owner (bp_published ?p)) = Some l"
    using claim by (auto simp: bp_claim_def split: bind_splits)
  have le: "current < l" if "bm_owner (bp_published ?p) = Some current" for current
    using l that by (simp add: panic_simps)
  have "task_inv p l' t" if "ps_tasks s l' = Some t" "l' \<noteq> l" for l' t
    using inv that le less_imp_le unfolding p
    by (intro task_inv_store [where l = l]) (auto simp: presence_inv_def bm_empty_def)
  moreover have "task_inv p l \<lparr>ot_owner = ob_claim l, ot_phase = Ready, ot_dropping = False\<rparr>"
    by (simp add: task_inv_def p bp_store_def bm_empty_def claim_inv)
  ultimately show ?thesis
    by (simp add: presence_inv_def p bp_store_def bm_empty_def)
qed

lemma presence_inv_op:
  assumes inv: "presence_inv s" and t: "ps_tasks s l = Some t" "ot_phase t = Ready"
    and "ob_inv ob" and "bm_owner (ob_membership ob) = bm_owner (ob_membership (ot_owner t))"
    and "case publish of None \<Rightarrow> ob_membership ob = ob_membership (ot_owner t)
         | Some m \<Rightarrow> m = ob_membership ob"
  shows "presence_inv (s\<lparr>ps_tasks := (ps_tasks s)(l \<mapsto> t\<lparr>ot_owner := ob, ot_phase := publish_phase publish\<rparr>)\<rparr>)"
proof (rule presence_inv_local [OF inv t(1)])
  have "task_inv (ps_presence s) l t" using inv t by (simp add: presence_inv_def)
  with assms(2-) show "task_inv (ps_presence s) l (t\<lparr>ot_owner := ob, ot_phase := publish_phase publish\<rparr>)"
    by (cases publish) (auto simp: task_inv_def)
qed

lemma presence_inv_swap:
  assumes inv: "presence_inv s" and t: "ps_tasks s l = Some t" "ot_phase t = At_swap m current"
    and won: "publish_swap (ps_presence s) m current = (True, p)"
  shows "presence_inv (finish_publish (s\<lparr>ps_presence := p\<rparr>) l t)"
proof -
  let ?p = "ps_presence s"
  have p: "p = bp_store ?p m" and st: "bp_stamp ?p = current"
    using won by (auto simp: publish_swap_def split: if_splits)
  have ti: "task_inv ?p l t" using inv t by (simp add: presence_inv_def)
  then have m: "m = (if ot_dropping t then bm_empty (Some l) else ob_membership (ot_owner t))"
    and pub: "bm_owner (bp_published ?p) = Some l" using t st by (auto simp: task_inv_def)
  then have ml: "bm_owner m = Some l" using ti by (simp add: task_inv_def bm_empty_def)
  have others: "task_inv p l' t'" if "ps_tasks s l' = Some t'" "l' \<noteq> l" for l' t'
    using inv that pub unfolding p
    by (intro task_inv_store [OF _ _ ml]) (auto simp: presence_inv_def)
  have "task_inv p l (t\<lparr>ot_phase := Ready\<rparr>)" if "\<not> ot_dropping t"
    using that ti m ml by (simp add: task_inv_def p bp_store_def)
  with others show ?thesis
    using m ml by (auto simp: presence_inv_def finish_publish_def p bp_store_def)
qed

lemma presence_inv_step: "ps_step s s' \<Longrightarrow> presence_inv s \<Longrightarrow> presence_inv s'"
proof (induction rule: ps_step.induct)
  case (Claim s l p)
  then show ?case by (intro presence_inv_claim)
next
  case (Admit s l t key now capacity create res ob publish)
  then have "ob_inv (ot_owner t)" by (simp add: presence_inv_def task_inv_def)
  then show ?case using Admit admit_inv by (intro presence_inv_op) blast+
next
  case (Expire s l t now max_idle expired ob publish)
  then have "ob_inv (ot_owner t)" by (simp add: presence_inv_def task_inv_def)
  then show ?case using Expire ob_expire_inv by (intro presence_inv_op) blast+
next
  case (Drop_silent s l t)
  then have "task_inv (ps_presence s) l t" by (simp add: presence_inv_def)
  then show ?case
    using Drop_silent ob_drop_publishes(2) [of "ot_owner t"] by (intro presence_inv_remove) (auto simp: task_inv_def)
next
  case (Drop s l t m)
  then have "task_inv (ps_presence s) l t" by (simp add: presence_inv_def)
  then show ?case
    using Drop ob_drop_publishes(1) [of "ot_owner t" m] by (intro presence_inv_local) (auto simp: task_inv_def)
next
  case (Load_stale s l t m)
  then have "task_inv (ps_presence s) l t" by (simp add: presence_inv_def)
  then have "bm_owner m = Some l" and "task_inv (ps_presence s) l t"
    using Load_stale by (auto simp: task_inv_def bm_empty_def)
  then show ?case
    using Load_stale presence_inv_remove [of s l] presence_inv_local [of s l t "t\<lparr>ot_phase := Ready\<rparr>"]
    by (auto simp: finish_publish_def publish_load_def task_inv_def split: if_splits)
next
  case (Load s l t m current)
  then have "task_inv (ps_presence s) l t" "bp_stamp (ps_presence s) < bp_next_stamp (ps_presence s)"
    by (auto simp: presence_inv_def)
  then show ?case
    using Load by (intro presence_inv_local)
      (auto simp: task_inv_def publish_load_def bm_empty_def split: if_splits)
next
  case (Swap s l t m current p)
  then show ?case by (intro presence_inv_swap)
next
  case (Swap_lost s l t m current p)
  then have "task_inv (ps_presence s) l t" by (simp add: presence_inv_def)
  then show ?case using Swap_lost by (intro presence_inv_local) (auto simp: task_inv_def)
qed

lemma presence_inv_reachable: "ps_reachable s \<Longrightarrow> presence_inv s"
proof (induction rule: ps_reachable.induct)
  case ps_start
  show ?case by (simp add: presence_inv_def ps_init_def bp_new_def bm_empty_def)
qed (rule presence_inv_step)

section \<open>What observers see\<close>

definition current_lifetime :: "('k, 'v) presence_system \<Rightarrow> owner_lifetime" where
  "current_lifetime s = (case bm_owner (bp_published (ps_presence s)) of None \<Rightarrow> 0 | Some l \<Rightarrow> l)"

lemma claim_next_lifetime:
  "bp_claim (ps_presence s) = Some (l, p) \<Longrightarrow>
   l = Suc (current_lifetime s) \<and> bp_published p = bm_empty (Some l)"
  by (auto simp: bp_claim_def bp_store_def current_lifetime_def panic_simps
      split: bind_splits option.splits)

lemma swap_by_current:
  assumes "presence_inv s" and "ps_tasks s l = Some t" and "ot_phase t = At_swap m current"
    and "publish_swap (ps_presence s) m current = (True, p)"
  shows "bm_owner (bp_published (ps_presence s)) = Some l \<and> bp_published p = m \<and> bm_owner m = Some l \<and>
    m = (if ot_dropping t then bm_empty (Some l) else ob_membership (ot_owner t))"
proof -
  have "task_inv (ps_presence s) l t" using assms by (simp add: presence_inv_def)
  then show ?thesis
    using assms(3,4) by (auto simp: task_inv_def publish_swap_def bp_store_def bm_empty_def split: if_splits)
qed

lemma lifetime_step:
  assumes "ps_step s s'" and "presence_inv s"
  shows "current_lifetime s \<le> current_lifetime s'"
  using assms
proof (induction rule: ps_step.induct)
  case (Claim s l p)
  then show ?case using claim_next_lifetime [OF Claim(1)] by (simp add: current_lifetime_def bm_empty_def)
next
  case (Swap s l t m current p)
  then have "bm_owner (bp_published (ps_presence s)) = Some l" "bp_published p = m" "bm_owner m = Some l"
    using swap_by_current by blast+
  then show ?case by (simp add: current_lifetime_def finish_publish_def)
qed (simp_all add: current_lifetime_def finish_publish_def)

lemma lifetime_steps:
  assumes "ps_step\<^sup>*\<^sup>* s s'" and "presence_inv s"
  shows "presence_inv s' \<and> current_lifetime s \<le> current_lifetime s'"
  using assms
proof (induction rule: rtranclp_induct)
  case (step y z)
  then show ?case using presence_inv_step lifetime_step order_trans by metis
qed simp

text \<open>
  C5: the published membership is the set of live branches. Whenever the owner that claimed the
  presence last is between two operations, what observers read is exactly its membership: they
  see a concrete branch if and only if the owner's registry holds it, and unbranched work if and
  only if the owner admitted it, whatever earlier owners of the presence are still doing.
\<close>

theorem published_is_live_branches:
  assumes "ps_reachable s" and "ps_tasks s l = Some t" and "ot_phase t = Ready"
    and "bm_owner (bp_published (ps_presence s)) = Some l"
  shows "bp_contains (ps_presence s) (Some k) = reg_contains_key (ob_instances (ot_owner t)) k \<and>
    bp_contains (ps_presence s) None = bm_unbranched (ob_membership (ot_owner t)) \<and>
    branch_count (bp_published (ps_presence s)) = length (reg_entries (ob_instances (ot_owner t)))"
proof -
  have "task_inv (ps_presence s) l t"
    using presence_inv_reachable [OF assms(1)] assms(2) by (simp add: presence_inv_def)
  then have inv: "ob_inv (ot_owner t)" and pub: "bp_published (ps_presence s) = ob_membership (ot_owner t)"
    using assms by (auto simp: task_inv_def)
  have "length (reg_entries (ob_instances (ot_owner t))) = card (fst ` set (reg_entries (ob_instances (ot_owner t))))"
    using inv distinct_card [of "map fst (reg_entries (ob_instances (ot_owner t)))"] by (simp add: ob_inv_def)
  with inv pub get_index_of_None [of "reg_entries (ob_instances (ot_owner t))" k] show ?thesis
    by (simp add: bp_contains_def reg_contains_key_def branch_count_def ob_inv_def)
qed

text \<open>
  C21: a replaced owner never publishes over its successor. A step that changes the presence is
  the claim of the next lifetime, which publishes an empty membership, or the swap of the owner
  whose lifetime is the current one, which publishes its own membership, or the empty one when it
  is being dropped.
\<close>

theorem only_current_owner_publishes:
  assumes "ps_reachable s" and "ps_step s s'" and "ps_presence s' \<noteq> ps_presence s"
  shows "bp_published (ps_presence s') = bm_empty (Some (Suc (current_lifetime s))) \<or>
    (\<exists>t. bm_owner (bp_published (ps_presence s)) = Some (current_lifetime s) \<and>
       ps_tasks s (current_lifetime s) = Some t \<and>
       bp_published (ps_presence s') =
         (if ot_dropping t then bm_empty (Some (current_lifetime s)) else ob_membership (ot_owner t)))"
  using assms(2,3) presence_inv_reachable [OF assms(1)]
proof (induction rule: ps_step.induct)
  case (Claim s l p)
  then show ?case using claim_next_lifetime [OF Claim(1)] by simp
next
  case (Swap s l t m current p)
  then show ?case using swap_by_current [of s l t m current p]
    by (simp add: current_lifetime_def finish_publish_def)
qed (simp_all add: finish_publish_def)

text \<open>
  C31: the publication loop gives up after a lost swap. When the compare-and-swap of an owner
  fails, a later owner has claimed the presence, and in every state from there on the next load
  of the loop ends it.
\<close>

theorem lost_swap_ends_publication:
  assumes "ps_reachable s" and "ps_tasks s l = Some t" and "ot_phase t = At_swap m current"
    and "publish_swap (ps_presence s) m current = (False, p)" and "ps_step\<^sup>*\<^sup>* s s'"
  shows "l < current_lifetime s \<and> publish_load (ps_presence s') m = None"
proof -
  note inv = presence_inv_reachable [OF assms(1)]
  then have ti: "task_inv (ps_presence s) l t" using assms(2) by (simp add: presence_inv_def)
  then have m: "bm_owner m = Some l" using assms(3) by (auto simp: task_inv_def bm_empty_def)
  have "bp_stamp (ps_presence s) \<noteq> current" using assms(4) by (auto simp: publish_swap_def)
  with ti assms(3) have "l < current_lifetime s"
    by (auto simp: task_inv_def current_lifetime_def)
  moreover from this have "l < current_lifetime s'" using lifetime_steps [OF assms(5) inv] by simp
  ultimately show ?thesis
    using m by (auto simp: publish_load_def current_lifetime_def split: option.splits)
qed

text \<open>
  C32: a dropped owner releases its presence. When the task of the current lifetime is gone, the
  presence reports no branch and no unbranched work.
\<close>

theorem dropped_owner_releases:
  assumes "ps_reachable s" and "ps_tasks s (current_lifetime s) = None"
  shows "bm_is_empty (bp_published (ps_presence s)) \<and> \<not> bp_contains (ps_presence s) key"
  using presence_inv_reachable [OF assms(1)] assms(2)
  by (cases key)
    (auto simp: presence_inv_def current_lifetime_def bm_is_empty_def bm_empty_def bp_contains_def
      split: option.splits)

section \<open>A run with two owners\<close>

text \<open>
  An owner claims the presence, admits branch 7 and loads the presence; then either it publishes,
  or a second owner claims the presence first.
\<close>

definition ex_m :: "nat branch_membership" where
  "ex_m = \<lparr>bm_owner = Some 1, bm_unbranched = False, bm_branches = {7}\<rparr>"

definition ex_ob :: "(nat, nat) owned_branches" where
  "ex_ob = \<lparr>ob_instances = \<lparr>reg_entries = [(7, \<lparr>last_ingestion = 10, incarnation = 1, bi_state = 0\<rparr>)],
      reg_version = 1\<rparr>, ob_membership = ex_m\<rparr>"

definition ex_task :: "nat phase \<Rightarrow> (nat, nat) owner_task" where
  "ex_task ph = \<lparr>ot_owner = ex_ob, ot_phase = ph, ot_dropping = False\<rparr>"

definition ex_new_task :: "nat \<Rightarrow> (nat, nat) owner_task" where
  "ex_new_task l = \<lparr>ot_owner = ob_claim l, ot_phase = Ready, ot_dropping = False\<rparr>"

definition ex_state ::
  "nat \<Rightarrow> nat branch_membership \<Rightarrow> (nat \<Rightarrow> (nat, nat) owner_task option) \<Rightarrow> (nat, nat) presence_system" where
  "ex_state st m tasks =
     \<lparr>ps_presence = \<lparr>bp_stamp = st, bp_published = m, bp_next_stamp = Suc st\<rparr>, ps_tasks = tasks\<rparr>"

lemmas ex_defs = ex_state_def ex_task_def ex_new_task_def ps_init_def bp_new_def bp_claim_def
  bp_store_def panic_simps bm_empty_def checked_add_def u64_max_def

lemma ex_claim1: "ps_step ps_init (ex_state 1 (bm_empty (Some 1)) [1 \<mapsto> ex_new_task 1])"
  using ps_step.Claim [of "ps_init :: (nat, nat) presence_system" 1] by (simp add: ex_defs)

lemma ex_admit:
  "ps_step (ex_state 1 (bm_empty (Some 1)) [1 \<mapsto> ex_new_task 1])
     (ex_state 1 (bm_empty (Some 1)) [1 \<mapsto> ex_task (At_load ex_m)])"
proof -
  have "admit (ob_claim 1) (Some 7) 10 None (\<lambda>_ _. Inr 0 :: unit + nat) =
    Some (Inr \<lparr>ba_branch = Some 0, ba_evicted = []\<rparr>, ex_ob, Some ex_m)"
    by (simp add: admit_def admit_branch_def ob_claim_def release_beyond_def ex_ob_def ex_m_def
        reg_eval bm_empty_def)
  then show ?thesis
    using ps_step.Admit [of "ex_state 1 (bm_empty (Some 1)) [1 \<mapsto> ex_new_task 1]" 1 "ex_new_task 1"
        "Some 7" 10 None "\<lambda>_ _. Inr 0" _ ex_ob "Some ex_m"]
    by (simp add: ex_state_def ex_task_def ex_new_task_def)
qed

lemma ex_load:
  "ps_step (ex_state 1 (bm_empty (Some 1)) [1 \<mapsto> ex_task (At_load ex_m)])
     (ex_state 1 (bm_empty (Some 1)) [1 \<mapsto> ex_task (At_swap ex_m 1)])"
  using ps_step.Load [of "ex_state 1 (bm_empty (Some 1)) [1 \<mapsto> ex_task (At_load ex_m)]" 1
      "ex_task (At_load ex_m)" ex_m 1]
  by (simp add: ex_state_def ex_task_def publish_load_def ex_m_def bm_empty_def)

lemma ex_swap:
  "ps_step (ex_state 1 (bm_empty (Some 1)) [1 \<mapsto> ex_task (At_swap ex_m 1)])
     (ex_state 2 ex_m [1 \<mapsto> ex_task Ready])"
  using ps_step.Swap [of "ex_state 1 (bm_empty (Some 1)) [1 \<mapsto> ex_task (At_swap ex_m 1)]" 1
      "ex_task (At_swap ex_m 1)" ex_m 1]
  by (simp add: ex_state_def ex_task_def publish_swap_def bp_store_def finish_publish_def numeral_2_eq_2)

lemma ex_claim2:
  "ps_step (ex_state 1 (bm_empty (Some 1)) [1 \<mapsto> ex_task (At_swap ex_m 1)])
     (ex_state 2 (bm_empty (Some 2)) [1 \<mapsto> ex_task (At_swap ex_m 1), 2 \<mapsto> ex_new_task 2])"
  using ps_step.Claim [of "ex_state 1 (bm_empty (Some 1)) [1 \<mapsto> ex_task (At_swap ex_m 1)]" 2]
  by (simp add: ex_defs numeral_2_eq_2)

lemmas ex_reachable = ps_more [OF ps_more [OF ps_more [OF ps_start ex_claim1] ex_admit] ex_load]

theorem published_is_live_branches_witness:
  "bp_contains (ps_presence (ex_state 2 ex_m [1 \<mapsto> ex_task Ready])) (Some 7)"
  using published_is_live_branches [OF ps_more [OF ex_reachable ex_swap], of 1 "ex_task Ready" 7]
  by (simp add: ex_state_def ex_task_def ex_m_def ex_ob_def reg_contains_key_def)

theorem only_current_owner_publishes_witness:
  "bp_published (ps_presence (ex_state 2 ex_m [1 \<mapsto> ex_task Ready])) = ob_membership ex_ob"
  using only_current_owner_publishes [OF ex_reachable ex_swap]
  by (simp add: ex_state_def ex_task_def current_lifetime_def bm_empty_def ex_m_def ex_ob_def)

theorem lost_swap_ends_publication_witness:
  "publish_load (ps_presence (ex_state 2 (bm_empty (Some 2))
     [1 \<mapsto> ex_task (At_swap ex_m 1), 2 \<mapsto> ex_new_task 2])) ex_m = None"
  using lost_swap_ends_publication [OF ps_more [OF ex_reachable ex_claim2], of 1 "ex_task (At_swap ex_m 1)" ex_m 1,
      OF _ _ _ rtranclp.rtrancl_refl]
  by (simp add: ex_state_def ex_task_def publish_swap_def)

definition ex_dropping :: "nat phase \<Rightarrow> (nat, nat) presence_system" where
  "ex_dropping ph = ex_state 2 ex_m [1 \<mapsto> (ex_task ph)\<lparr>ot_dropping := True\<rparr>]"

lemma ex_drop: "ps_step (ex_state 2 ex_m [1 \<mapsto> ex_task Ready]) (ex_dropping (At_load (bm_empty (Some 1))))"
  using ps_step.Drop [of "ex_state 2 ex_m [1 \<mapsto> ex_task Ready]" 1 "ex_task Ready" "bm_empty (Some 1)"]
  by (simp add: ex_state_def ex_task_def ex_dropping_def ob_drop_def ex_ob_def ex_m_def bm_is_empty_def)

lemma ex_drop_load:
  "ps_step (ex_dropping (At_load (bm_empty (Some 1)))) (ex_dropping (At_swap (bm_empty (Some 1)) 2))"
  using ps_step.Load [of "ex_dropping (At_load (bm_empty (Some 1)))" 1
      "(ex_task (At_load (bm_empty (Some 1))))\<lparr>ot_dropping := True\<rparr>" "bm_empty (Some 1)" 2]
  by (simp add: ex_dropping_def ex_state_def ex_task_def publish_load_def ex_m_def bm_empty_def)

lemma ex_drop_swap:
  "ps_step (ex_dropping (At_swap (bm_empty (Some 1)) 2)) (ex_state 3 (bm_empty (Some 1)) Map.empty)"
  using ps_step.Swap [of "ex_dropping (At_swap (bm_empty (Some 1)) 2)" 1
      "(ex_task (At_swap (bm_empty (Some 1)) 2))\<lparr>ot_dropping := True\<rparr>" "bm_empty (Some 1)" 2]
  by (simp add: ex_dropping_def ex_state_def ex_task_def publish_swap_def bp_store_def finish_publish_def)

lemmas ex_dropped =
  ps_more [OF ps_more [OF ps_more [OF ps_more [OF ex_reachable ex_swap] ex_drop] ex_drop_load] ex_drop_swap]

theorem dropped_owner_releases_witness:
  "\<not> bp_contains (ps_presence (ex_state 3 (bm_empty (Some 1)) Map.empty)) (Some 7)"
  using dropped_owner_releases [OF ex_dropped, of "Some 7"] by (simp add: ex_state_def)

end
