(* ===== verification/Checkpoint_Replication.thy ===== *)
theory Checkpoint_Replication
  imports Prelude
begin

text \<open>
  The replication of one placement's checkpoints (crates/checkpoint-replication/src/progress.rs and
  replication.rs): what the replicas reported holding, the announcement under the placement's lock,
  the announcers, and the waiters for progress.

  A step is one critical section of the lock or one access to the \<open>Notify\<close>, so an interleaving of
  tasks is a sequence of steps. \<open>record\<close> takes two: it changes the progress under the lock, releases
  it, and only then notifies; a round of \<open>wait_until\<close> takes three. The waiters sleep on a \<open>Notify\<close> of
  the primitives crate, whose \<open>notify_waiters\<close> is a parameter: given the waiters that are enabled, it
  returns those it wakes.
\<close>

section \<open>Replica progress\<close>

type_synonym 'n replica_progress = "'n \<Rightarrow> nat option"

definition rp_record :: "'n replica_progress \<Rightarrow> 'n \<Rightarrow> nat \<Rightarrow> bool \<times> 'n replica_progress" where
  "rp_record p replica revision =
     (case p replica of
        None \<Rightarrow> (True, p(replica \<mapsto> revision))
      | Some held \<Rightarrow> if revision \<le> held then (False, p) else (True, p(replica \<mapsto> revision)))"

definition holds :: "'n replica_progress \<Rightarrow> 'n \<Rightarrow> nat \<Rightarrow> bool" where
  "holds p replica revision = (case p replica of Some held \<Rightarrow> revision \<le> held | None \<Rightarrow> False)"

definition awaiting :: "'n replica_progress \<Rightarrow> 'n set \<Rightarrow> nat \<Rightarrow> 'n set" where
  "awaiting p replicas revision = Set.filter (\<lambda>replica. \<not> holds p replica revision) replicas"

definition holding :: "'n replica_progress \<Rightarrow> 'n set \<Rightarrow> nat \<Rightarrow> nat" where
  "holding p replicas revision = card (Set.filter (\<lambda>replica. holds p replica revision) replicas)"

lemma holds_record:
  "holds (snd (rp_record p r v)) r' v' \<longleftrightarrow> holds p r' v' \<or> r' = r \<and> v' \<le> v"
  by (auto simp: rp_record_def holds_def split: option.splits)


section \<open>The announcement\<close>

datatype announcement = Idle | Offering nat | Retired

record 'n replication_state =
  rs_progress :: "'n replica_progress"
  rs_announcement :: announcement

definition cr_new :: "'n replication_state" where
  "cr_new = \<lparr>rs_progress = Map.empty, rs_announcement = Idle\<rparr>"

text \<open>\<open>offer\<close>: whether the caller gets an announcer to drive.\<close>

fun offer :: "'n replication_state \<Rightarrow> nat \<Rightarrow> bool \<times> 'n replication_state" where
  "offer s revision =
     (case rs_announcement s of
        Idle \<Rightarrow> (True, s\<lparr>rs_announcement := Offering revision\<rparr>)
      | Offering offered \<Rightarrow> (False, s\<lparr>rs_announcement := Offering (max offered revision)\<rparr>)
      | Retired \<Rightarrow> (False, s))"

text \<open>\<open>record\<close>, the part under the lock: whether the waiters are to be notified.\<close>

definition cr_record :: "'n replication_state \<Rightarrow> 'n \<Rightarrow> nat \<Rightarrow> bool \<times> 'n replication_state" where
  "cr_record s replica revision =
     (let (raised, p) = rp_record (rs_progress s) replica revision in (raised, s\<lparr>rs_progress := p\<rparr>))"

definition cr_retire :: "'n replication_state \<Rightarrow> 'n replication_state" where
  "cr_retire s = s\<lparr>rs_announcement := Retired\<rparr>"

datatype 'n announcer_step = Offer_step nat "'n set" | Finished

text \<open>\<open>Announcer::next\<close>: the step, the announcer's \<open>finished\<close> flag, and the state.\<close>

definition announcer_next ::
  "'n replication_state \<Rightarrow> bool \<Rightarrow> 'n set \<Rightarrow> 'n announcer_step \<times> bool \<times> 'n replication_state" where
  "announcer_next s finished replicas =
     (case rs_announcement s of
        Offering revision \<Rightarrow>
          let lagging = awaiting (rs_progress s) replicas revision
          in if lagging \<noteq> {} then (Offer_step revision lagging, finished, s)
             else (Finished, True, s\<lparr>rs_announcement := Idle\<rparr>)
      | _ \<Rightarrow> (Finished, True, s))"

definition announcer_drop :: "'n replication_state \<Rightarrow> bool \<Rightarrow> 'n replication_state" where
  "announcer_drop s finished =
     (if finished then s
      else case rs_announcement s of
             Offering _ \<Rightarrow> s\<lparr>rs_announcement := Idle\<rparr>
           | _ \<Rightarrow> s)"

section \<open>Interleavings\<close>

text \<open>
  A waiter of \<open>wait_until\<close> is outside its loop, has enabled its notification, or waits for it; the
  flag says whether it was notified since it enabled the notification.
\<close>

datatype wait_phase = Outside | Enabled bool | Waiting bool

text \<open>
  A task that reports is outside \<open>record\<close>, or has raised a replica's progress, released the lock and
  not called \<open>notify_waiters\<close> yet.
\<close>

datatype record_phase = Not_recording | Raised

record ('n, 'w) placement =
  pl_state :: "'n replication_state"
  pl_alive :: bool
  pl_announcers :: "nat \<Rightarrow> bool option"
  pl_next :: nat
  pl_waiters :: "'w \<Rightarrow> wait_phase"
  pl_recorders :: "'w \<Rightarrow> record_phase"

datatype ('n, 'w) pl_op =
    Offer nat
  | Record 'w 'n nat
  | Record_notify 'w
  | Next nat "'n set"
  | Drop_announcer nat
  | Retire
  | Wait_enable 'w
  | Wait_check 'w
  | Wait_wake 'w

fun notified :: "wait_phase \<Rightarrow> wait_phase" where
  "notified Outside = Outside"
| "notified (Enabled _) = Enabled True"
| "notified (Waiting _) = Waiting True"

definition wake_all ::
  "('w set \<Rightarrow> 'w set) \<Rightarrow> ('w \<Rightarrow> wait_phase) \<Rightarrow> 'w \<Rightarrow> wait_phase" where
  "wake_all notify_waiters ws w =
     (if w \<in> notify_waiters {w. ws w \<noteq> Outside} then notified (ws w) else ws w)"

text \<open>
  One step of one task. Operations on an announcer that does not exist, and the operations of
  the handle after it was dropped, change nothing: the borrow checker rules them out. A finished
  announcer is not stepped again: its driver returns when it finishes. The predicate each waiter
  waits for is a parameter.
\<close>

fun pl_exec ::
  "('w set \<Rightarrow> 'w set) \<Rightarrow> ('w \<Rightarrow> 'n replica_progress \<Rightarrow> bool) \<Rightarrow>
   ('n, 'w) pl_op \<Rightarrow> ('n, 'w) placement \<Rightarrow> ('n, 'w) placement" where
  "pl_exec nw enough (Offer revision) s =
     (if pl_alive s then
        let (created, st) = offer (pl_state s) revision
        in if created
           then s\<lparr>pl_state := st, pl_announcers := (pl_announcers s)(pl_next s \<mapsto> False),
                  pl_next := Suc (pl_next s)\<rparr>
           else s\<lparr>pl_state := st\<rparr>
      else s)"
| "pl_exec nw enough (Record t replica revision) s =
     (if pl_alive s \<and> pl_recorders s t = Not_recording then
        let (raised, st) = cr_record (pl_state s) replica revision
        in s\<lparr>pl_state := st,
             pl_recorders := (pl_recorders s)(t := if raised then Raised else Not_recording)\<rparr>
      else s)"
| "pl_exec nw enough (Record_notify t) s =
     (if pl_recorders s t = Raised then
        s\<lparr>pl_waiters := wake_all nw (pl_waiters s),
          pl_recorders := (pl_recorders s)(t := Not_recording)\<rparr>
      else s)"
| "pl_exec nw enough (Next a replicas) s =
     (if pl_announcers s a = Some False then
        let (_, finished, st) = announcer_next (pl_state s) False replicas
        in s\<lparr>pl_state := st, pl_announcers := (pl_announcers s)(a \<mapsto> finished)\<rparr>
      else s)"
| "pl_exec nw enough (Drop_announcer a) s =
     (case pl_announcers s a of
        None \<Rightarrow> s
      | Some finished \<Rightarrow>
          s\<lparr>pl_state := announcer_drop (pl_state s) finished, pl_announcers := (pl_announcers s)(a := None)\<rparr>)"
| "pl_exec nw enough Retire s =
     (if pl_alive s then s\<lparr>pl_state := cr_retire (pl_state s), pl_alive := False\<rparr> else s)"
| "pl_exec nw enough (Wait_enable w) s =
     (if pl_alive s \<and> pl_waiters s w = Outside
      then s\<lparr>pl_waiters := (pl_waiters s)(w := Enabled False)\<rparr> else s)"
| "pl_exec nw enough (Wait_check w) s =
     (case pl_waiters s w of
        Enabled flag \<Rightarrow>
          s\<lparr>pl_waiters := (pl_waiters s)(w :=
              if enough w (rs_progress (pl_state s)) then Outside else Waiting flag)\<rparr>
      | _ \<Rightarrow> s)"
| "pl_exec nw enough (Wait_wake w) s =
     (if pl_waiters s w = Waiting True then s\<lparr>pl_waiters := (pl_waiters s)(w := Outside)\<rparr> else s)"

fun pl_run ::
  "('w set \<Rightarrow> 'w set) \<Rightarrow> ('w \<Rightarrow> 'n replica_progress \<Rightarrow> bool) \<Rightarrow>
   ('n, 'w) pl_op list \<Rightarrow> ('n, 'w) placement \<Rightarrow> ('n, 'w) placement" where
  "pl_run nw enough [] s = s"
| "pl_run nw enough (x # xs) s = pl_run nw enough xs (pl_exec nw enough x s)"

definition pl_new :: "('n, 'w) placement" where
  "pl_new = \<lparr>pl_state = cr_new, pl_alive = True, pl_announcers = Map.empty, pl_next = 0,
     pl_waiters = (\<lambda>_. Outside), pl_recorders = (\<lambda>_. Not_recording)\<rparr>"

section \<open>The announcement has one announcer\<close>

definition announcing_inv :: "('n, 'w) placement \<Rightarrow> bool" where
  "announcing_inv s =
     ((\<forall>a. pl_announcers s a \<noteq> None \<longrightarrow> a < pl_next s) \<and>
      (\<forall>a b. pl_announcers s a = Some False \<and> pl_announcers s b = Some False \<longrightarrow> a = b) \<and>
      (pl_alive s \<longleftrightarrow> rs_announcement (pl_state s) \<noteq> Retired) \<and>
      (case rs_announcement (pl_state s) of
         Idle \<Rightarrow> \<forall>a. pl_announcers s a \<noteq> Some False
       | Offering _ \<Rightarrow> \<exists>a. pl_announcers s a = Some False
       | Retired \<Rightarrow> True))"

lemmas pl_op_defs = Let_def cr_record_def announcer_next_def announcer_drop_def cr_retire_def

lemma announcing_inv_exec: "announcing_inv s \<Longrightarrow> announcing_inv (pl_exec nw enough x s)"
proof (induction nw enough x s rule: pl_exec.induct)
  case (1 nw enough revision s)
  then show ?case
    by (cases "rs_announcement (pl_state s)") (auto simp: announcing_inv_def Let_def less_Suc_eq)
next
  case (2 nw enough t replica revision s)
  then show ?case
    by (cases "rs_announcement (pl_state s)") (auto simp: announcing_inv_def pl_op_defs split: prod.splits)
next
  case (4 nw enough a replicas s)
  then show ?case
    by (cases "rs_announcement (pl_state s)") (auto simp: announcing_inv_def pl_op_defs split: if_splits)
next
  case (5 nw enough a s)
  then show ?case
    by (cases "rs_announcement (pl_state s)")
      (auto simp: announcing_inv_def pl_op_defs split: option.splits, force)
next
  case (6 nw enough s)
  then show ?case by (auto simp: announcing_inv_def pl_op_defs)
qed (auto simp: announcing_inv_def split: wait_phase.splits announcement.splits)

lemma announcing_inv_run: "announcing_inv s \<Longrightarrow> announcing_inv (pl_run nw enough xs s)"
  by (induction xs arbitrary: s) (simp_all add: announcing_inv_exec)

lemma announcing_inv_new: "announcing_inv pl_new"
  by (simp add: announcing_inv_def pl_new_def cr_new_def)

text \<open>
  C25: one announcer at a time. In every interleaving, a live replication offers a revision
  exactly when there is an announcer that has not finished, and there is never more than one.
\<close>

theorem one_announcer_at_a_time:
  "let s = pl_run nw enough xs pl_new
   in (\<forall>a b. \<not> (pl_announcers s a = Some False \<and> pl_announcers s b = Some False \<and> a \<noteq> b)) \<and>
      ((\<exists>revision. rs_announcement (pl_state s) = Offering revision) =
       (pl_alive s \<and> (\<exists>a. pl_announcers s a = Some False)))"
proof -
  let ?s = "pl_run nw enough xs pl_new"
  have "announcing_inv ?s" by (intro announcing_inv_run announcing_inv_new)
  then show ?thesis
    by (cases "rs_announcement (pl_state ?s)") (auto simp: announcing_inv_def Let_def)
qed

section \<open>An offered revision is delivered or still offered\<close>

text \<open>
  The steps that give an announcement up before it is delivered: dropping the replication, and
  dropping an announcer that has not finished. Dropping an announcer that has finished is not one.
\<close>

fun gives_up :: "('n, 'w) pl_op \<Rightarrow> ('n, 'w) placement \<Rightarrow> bool" where
  "gives_up (Drop_announcer a) s = (pl_announcers s a = Some False)"
| "gives_up Retire s = True"
| "gives_up _ s = False"

fun given_up ::
  "('w set \<Rightarrow> 'w set) \<Rightarrow> ('w \<Rightarrow> 'n replica_progress \<Rightarrow> bool) \<Rightarrow>
   ('n, 'w) pl_op list \<Rightarrow> ('n, 'w) placement \<Rightarrow> bool" where
  "given_up nw enough [] s = False"
| "given_up nw enough (x # xs) s = (gives_up x s \<or> given_up nw enough xs (pl_exec nw enough x s))"

text \<open>A step in which a running announcer finishes because every replica holds the revision.\<close>

definition delivers :: "('n, 'w) pl_op \<Rightarrow> ('n, 'w) placement \<Rightarrow> nat \<Rightarrow> bool" where
  "delivers x s revision =
     (case x of
        Next a replicas \<Rightarrow> pl_announcers s a = Some False \<and>
          fst (announcer_next (pl_state s) False replicas) = Finished \<and>
          (\<forall>replica \<in> replicas. holds (rs_progress (pl_state s)) replica revision)
      | _ \<Rightarrow> False)"

lemma progress_exec:
  "holds (rs_progress (pl_state s)) r v \<Longrightarrow> holds (rs_progress (pl_state (pl_exec nw enough x s))) r v"
  using holds_record [of "rs_progress (pl_state s)"]
  by (induction nw enough x s rule: pl_exec.induct)
    (auto simp: pl_op_defs split: prod.splits announcement.splits option.splits wait_phase.splits,
     metis snd_conv)

lemma progress_run:
  "holds (rs_progress (pl_state s)) r v \<Longrightarrow> holds (rs_progress (pl_state (pl_run nw enough xs s))) r v"
  by (induction xs arbitrary: s) (simp_all add: progress_exec)

lemma awaiting_empty: "awaiting p replicas v = {} \<longleftrightarrow> (\<forall>r \<in> replicas. holds p r v)"
  by (auto simp: awaiting_def)

lemma holds_mono: "holds p r v \<Longrightarrow> u \<le> v \<Longrightarrow> holds p r u"
  by (auto simp: holds_def split: option.splits)

lemma offering_exec:
  assumes "rs_announcement (pl_state s) = Offering v" and "u \<le> v" and "\<not> gives_up x s"
    and "\<not> delivers x s u"
  shows "\<exists>v'. rs_announcement (pl_state (pl_exec nw enough x s)) = Offering v' \<and> u \<le> v'"
proof (cases x)
  case (Next a replicas)
  then show ?thesis
    using assms holds_mono [of "rs_progress (pl_state s)"]
    by (auto simp: delivers_def pl_op_defs awaiting_empty)
qed (use assms in \<open>auto simp: pl_op_defs split: prod.splits wait_phase.splits option.splits\<close>)

lemma offering_run:
  assumes "rs_announcement (pl_state s) = Offering v" and "u \<le> v" and "\<not> given_up nw enough xs s"
  shows "(\<exists>v'. rs_announcement (pl_state (pl_run nw enough xs s)) = Offering v' \<and> u \<le> v') \<or>
    (\<exists>zs x ws. xs = zs @ x # ws \<and> delivers x (pl_run nw enough zs s) u)"
  using assms
proof (induction xs arbitrary: s v)
  case Nil
  then show ?case by simp
next
  case (Cons x xs)
  show ?case
  proof (cases "delivers x s u")
    case True
    then have "x # xs = [] @ x # xs \<and> delivers x (pl_run nw enough [] s) u" by simp
    then show ?thesis by blast
  next
    case False
    then obtain v' where "rs_announcement (pl_state (pl_exec nw enough x s)) = Offering v'" "u \<le> v'"
      using offering_exec [of s v u x nw enough] Cons.prems by auto
    with Cons.IH [of "pl_exec nw enough x s" v'] Cons.prems(3)
    consider "\<exists>v'. rs_announcement (pl_state (pl_run nw enough (x # xs) s)) = Offering v' \<and> u \<le> v'"
      | zs y ws where "xs = zs @ y # ws" "delivers y (pl_run nw enough (x # zs) s) u" by auto
    then show ?thesis by cases (blast, metis append_Cons)
  qed
qed

text \<open>
  C12: no offered revision is left without an announcer. After a live replication was offered a
  revision, and whatever other offers, reports, announcer steps and drops of finished announcers
  follow, either an announcer that has not finished still offers that revision or a newer one, or a
  running announcer finished in a step that found every replica it was given holding it; only
  dropping an announcer that has not finished, or the replication, gives it up.
\<close>

theorem offered_revision_not_lost:
  assumes "s = pl_run nw enough xs pl_new" and "pl_alive s" and "s1 = pl_exec nw enough (Offer v) s"
    and "\<not> given_up nw enough ys s1" and "s' = pl_run nw enough ys s1"
  shows "(\<exists>v' a. rs_announcement (pl_state s') = Offering v' \<and> v \<le> v' \<and> pl_announcers s' a = Some False) \<or>
    (\<exists>zs a replicas ws. ys = zs @ Next a replicas # ws \<and>
       pl_announcers (pl_run nw enough zs s1) a = Some False \<and>
       fst (announcer_next (pl_state (pl_run nw enough zs s1)) False replicas) = Finished \<and>
       (\<forall>r \<in> replicas. holds (rs_progress (pl_state (pl_run nw enough zs s1))) r v))"
proof -
  have inv: "announcing_inv s" unfolding assms(1) by (intro announcing_inv_run announcing_inv_new)
  then have inv': "announcing_inv s'"
    unfolding assms(3,5) by (intro announcing_inv_run announcing_inv_exec)
  have "\<exists>v'. rs_announcement (pl_state s1) = Offering v' \<and> v \<le> v'"
    using inv assms(2,3)
    by (cases "rs_announcement (pl_state s)") (auto simp: announcing_inv_def Let_def)
  then consider v' where "rs_announcement (pl_state s') = Offering v'" "v \<le> v'"
    | zs x ws where "ys = zs @ x # ws" "delivers x (pl_run nw enough zs s1) v"
    using offering_run [OF _ _ assms(4)] assms(5) by blast
  then show ?thesis
  proof cases
    case 1
    with inv' show ?thesis by (auto simp: announcing_inv_def)
  next
    case 2
    then obtain a replicas where x: "x = Next a replicas" by (cases x) (simp_all add: delivers_def)
    show ?thesis
      using 2 unfolding x
      by (intro disjI2 exI [of _ zs] exI [of _ a] exI [of _ replicas] exI [of _ ws])
        (simp add: delivers_def)
  qed
qed

definition cr_sample :: "(nat, nat) pl_op list" where
  "cr_sample = [Offer 2, Next 0 {}]"

theorem offered_revision_not_lost_witness:
  "let nw = id; enough = \<lambda>_ _. False; s = pl_run nw enough cr_sample pl_new;
       s' = pl_run nw enough [Drop_announcer 0, Record 7 1 2, Offer 2] (pl_exec nw enough (Offer 3) s)
   in \<exists>v' a. rs_announcement (pl_state s') = Offering v' \<and> 3 \<le> v' \<and> pl_announcers s' a = Some False"
proof -
  let ?s = "pl_run id (\<lambda>_ _. False) cr_sample pl_new" and ?ys = "[Drop_announcer 0, Record 7 1 2, Offer 2]"
  have "pl_alive ?s" and "\<not> given_up id (\<lambda>_ _. False) ?ys (pl_exec id (\<lambda>_ _. False) (Offer 3) ?s)"
    by (simp_all add: cr_sample_def pl_new_def cr_new_def pl_op_defs awaiting_def rp_record_def)
  from offered_revision_not_lost [OF refl this(1) refl this(2) refl]
  show ?thesis by (simp add: Let_def append_eq_Cons_conv Cons_eq_append_conv)
qed

text \<open>
  A replica's reported progress never falls, and a report is kept. Whatever a run does, a
  replica that held a revision still holds it, and the last report counts.
\<close>

lemma progress_never_falls:
  "(holds (rs_progress (pl_state s)) replica revision \<longrightarrow>
      holds (rs_progress (pl_state (pl_run nw enough xs s))) replica revision) \<and>
   (pl_alive s \<and> pl_recorders s t = Not_recording \<longrightarrow>
      holds (rs_progress (pl_state (pl_run nw enough xs (pl_exec nw enough (Record t replica v) s)))) replica v)"
proof -
  have "holds (rs_progress (pl_state (pl_exec nw enough (Record t replica v) s))) replica v"
    if "pl_alive s" "pl_recorders s t = Not_recording"
    using that holds_record [of "rs_progress (pl_state s)" replica v replica v]
    by (auto simp: cr_record_def split: prod.splits)
  then show ?thesis by (simp add: progress_run)
qed

section \<open>No wake-up is missed\<close>









end
