(* ===== verification/Division.thy ===== *)
theory Division
  imports Prelude "HOL-Library.Signed_Division"
begin

unbundle bit_operations_syntax

text \<open>
  Integer divisors prepared once for a run (crates/simd-kernels/src/division.rs): exact unsigned
  division by a shift or by a reciprocal with one correction, and the truncating and Euclidean
  signed divisions built on it.

  A \<open>u64\<close> is a \<open>nat\<close> and every operation that the source checks, or that panics on overflow in a
  checked build, is a checked operation here, so the theorems include that none overflows in
  either build. An \<open>i64\<close> is an \<open>int\<close>; the two's complement negation and cast of the source are
  written out.
\<close>

section \<open>Unsigned divisors\<close>

datatype reciprocal = Shift nat | Multiply nat

record unsigned_divisor =
  ud_divisor :: nat
  ud_reciprocal :: reciprocal

fun trailing_zeros :: "nat \<Rightarrow> nat" where
  "trailing_zeros n = (if n = 0 then 64 else if odd n then 0 else Suc (trailing_zeros (n div 2)))"

declare trailing_zeros.simps [simp del]

definition is_power_of_two :: "nat \<Rightarrow> bool" where
  "is_power_of_two n = (n = 2 ^ trailing_zeros n)"

definition ud_new :: "nat \<Rightarrow> unsigned_divisor option panics" where
  "ud_new divisor =
     (if divisor = 0 then Some None
      else if is_power_of_two divisor
      then Some (Some \<lparr>ud_divisor = divisor, ud_reciprocal = Shift (trailing_zeros divisor)\<rparr>)
      else do {
        multiplier \<leftarrow> try_from u64_max (2 ^ 64 div divisor);
        Some (Some \<lparr>ud_divisor = divisor, ud_reciprocal = Multiply multiplier\<rparr>)
      })"

definition quotient_remainder :: "unsigned_divisor \<Rightarrow> nat \<Rightarrow> (nat \<times> nat) panics" where
  "quotient_remainder ud n =
     (case ud_reciprocal ud of
        Shift shift \<Rightarrow> Some (drop_bit shift n, n AND (ud_divisor ud - 1))
      | Multiply multiplier \<Rightarrow> do {
          let product = n * multiplier;
          quotient \<leftarrow> try_from u64_max (drop_bit 64 product);
          multiple \<leftarrow> checked_mul u64_max quotient (ud_divisor ud);
          remainder \<leftarrow> checked_sub n multiple;
          let correction = (if ud_divisor ud \<le> remainder then 1 else 0);
          quotient' \<leftarrow> checked_add u64_max quotient correction;
          remainder' \<leftarrow> checked_sub remainder (correction * ud_divisor ud);
          Some (quotient', remainder')
        })"

definition ud_quotient :: "unsigned_divisor \<Rightarrow> nat \<Rightarrow> nat panics" where
  "ud_quotient ud n = map_option fst (quotient_remainder ud n)"

definition ud_remainder :: "unsigned_divisor \<Rightarrow> nat \<Rightarrow> nat panics" where
  "ud_remainder ud n = map_option snd (quotient_remainder ud n)"

lemma trailing_zeros_power: "trailing_zeros (2 ^ k) = k"
  by (induction k) (simp_all add: trailing_zeros.simps)

lemma is_power_of_two_iff: "is_power_of_two n \<longleftrightarrow> (\<exists>k. n = 2 ^ k)"
  by (auto simp: is_power_of_two_def trailing_zeros_power)

text \<open>
  The reciprocal estimate: with \<open>m = floor(2^w / d)\<close> the high half of \<open>n * m\<close> is the quotient or one
  below it.
\<close>

lemma reciprocal_estimate:
  fixes d n w :: nat
  assumes d: "0 < d" and n: "n < 2 ^ w"
  defines "m \<equiv> 2 ^ w div d"
  defines "q \<equiv> n * m div 2 ^ w"
  shows "q * d \<le> n" and "n - q * d < 2 * d"
proof -
  let ?W = "2 ^ w :: nat"
  have lower: "m * d \<le> ?W" unfolding m_def by simp
  have "?W mod d < d" using d by simp
  moreover have "?W = m * d + ?W mod d" unfolding m_def by (rule div_mult_mod_eq [symmetric])
  ultimately have upper: "?W \<le> (m + 1) * d" by (simp only: distrib_right)
  have qW: "q * ?W \<le> n * m" unfolding q_def by simp
  have "n * m = q * ?W + n * m mod ?W" unfolding q_def by (rule div_mult_mod_eq [symmetric])
  moreover have "n * m mod ?W < ?W" by simp
  ultimately have Wq: "n * m < (q + 1) * ?W" by (simp only: distrib_right)
  have "q * d * ?W = q * ?W * d" by simp
  also have "\<dots> \<le> n * m * d" using qW by (rule mult_le_mono1)
  also have "\<dots> = n * (m * d)" by simp
  also have "\<dots> \<le> n * ?W" using lower by (rule mult_le_mono2)
  finally show le: "q * d \<le> n" by simp
  have "n * ?W \<le> n * ((m + 1) * d)" using upper by (rule mult_le_mono2)
  also have "\<dots> = n * m * d + n * d" by (simp add: algebra_simps)
  also have "\<dots> < (q + 1) * ?W * d + ?W * d"
    using Wq n d by (intro add_strict_mono) simp_all
  also have "\<dots> = (q * d + 2 * d) * ?W" by (simp add: algebra_simps)
  finally have "n < q * d + 2 * d" by simp
  with le show "n - q * d < 2 * d" by simp
qed

lemma div_mod_by_estimate:
  fixes q d n :: nat
  assumes "q * d \<le> n" and "n - q * d < 2 * d"
  shows "n div d = (if d \<le> n - q * d then q + 1 else q)"
    and "n mod d = (if d \<le> n - q * d then n - q * d - d else n - q * d)"
proof -
  define r where "r = n - q * d"
  have n: "n = r + q * d" and r: "r < 2 * d" and d: "0 < d" using assms by (auto simp: r_def)
  have "n div d = q + r div d" "n mod d = r mod d" unfolding n using d by simp_all
  moreover have "r div d = (if d \<le> r then 1 else 0)" "r mod d = (if d \<le> r then r - d else r)"
    using r d by (auto simp: le_div_geq le_mod_geq)
  ultimately show "n div d = (if d \<le> n - q * d then q + 1 else q)"
    "n mod d = (if d \<le> n - q * d then n - q * d - d else n - q * d)"
    unfolding r_def by simp_all
qed

lemma quotient_remainder_exact:
  assumes "ud_new d = Some (Some ud)" and n: "n \<le> u64_max"
  shows "quotient_remainder ud n = Some (n div d, n mod d)" and "ud_divisor ud = d" and "0 < d"
proof -
  show d: "0 < d" and ud: "ud_divisor ud = d"
    using assms(1) by (auto simp: ud_new_def split: if_splits bind_splits)
  show "quotient_remainder ud n = Some (n div d, n mod d)"
  proof (cases "is_power_of_two d")
    case True
    then obtain k where k: "d = 2 ^ k" by (auto simp: is_power_of_two_iff)
    have "n AND (2 ^ k - 1) = n mod 2 ^ k"
      using take_bit_eq_mask [of k n] by (simp add: take_bit_eq_mod mask_eq_exp_minus_1)
    with assms(1) d True k show ?thesis
      by (auto simp: ud_new_def quotient_remainder_def trailing_zeros_power drop_bit_eq_div)
  next
    case False
    let ?m = "2 ^ 64 div d" and ?q = "n * (2 ^ 64 div d) div 2 ^ 64"
    have rec: "ud_reciprocal ud = Multiply ?m"
      using assms(1) d False by (auto simp: ud_new_def panic_simps split: bind_splits)
    have "n < 2 ^ 64" using n by (simp add: u64_max_def)
    note est = reciprocal_estimate [OF d this]
    have "?q \<le> ?q * d" using d by simp
    also have "?q * d \<le> n" by (rule est)
    finally have "?q \<le> n" .
    moreover have "?q + 1 \<le> n" if "d \<le> n - ?q * d"
    proof -
      have "?q + 1 \<le> ?q * d + d" using \<open>?q \<le> ?q * d\<close> d by linarith
      also have "\<dots> \<le> n" using that est(1) d by linarith
      finally show ?thesis .
    qed
    ultimately show ?thesis
      using est n div_mod_by_estimate [OF est]
      by (auto simp: quotient_remainder_def rec ud drop_bit_eq_div try_from_def checked_mul_def
          checked_sub_def checked_add_def Let_def)
  qed
qed

lemma ud_new_succeeds:
  assumes "0 < d"
  shows "\<exists>ud. ud_new d = Some (Some ud)"
proof (cases "is_power_of_two d")
  case False
  then have "d \<noteq> 1" using is_power_of_two_iff [of 1] by (metis power_0)
  then have "2 ^ 64 div d \<le> 2 ^ 64 div (2 :: nat)" using assms by (intro div_le_mono2) auto
  then show ?thesis using assms False by (auto simp: ud_new_def try_from_def u64_max_def)
qed (use assms in \<open>simp add: ud_new_def\<close>)

section \<open>Signed divisors\<close>

definition fits_i64 :: "int \<Rightarrow> bool" where
  "fits_i64 v \<longleftrightarrow> - (2 ^ 63) \<le> v \<and> v < 2 ^ 63"

record signed_divisor =
  sd_magnitude :: unsigned_divisor
  sd_negative :: bool

definition unsigned_abs :: "int \<Rightarrow> nat" where
  "unsigned_abs v = nat \<bar>v\<bar>"

definition sd_new :: "int \<Rightarrow> signed_divisor option panics" where
  "sd_new divisor = do {
     magnitude \<leftarrow> ud_new (unsigned_abs divisor);
     Some (map_option (\<lambda>ud. \<lparr>sd_magnitude = ud, sd_negative = divisor < 0\<rparr>) magnitude)
   }"

definition overflows :: "signed_divisor \<Rightarrow> int \<Rightarrow> bool" where
  "overflows sd v = (v = - (2 ^ 63) \<and> sd_negative sd \<and> ud_divisor (sd_magnitude sd) = 1)"

definition overflowing_neg :: "nat \<Rightarrow> nat" where
  "overflowing_neg n = (2 ^ 64 - n) mod 2 ^ 64"

definition cast_signed :: "nat \<Rightarrow> int" where
  "cast_signed n = (if n < 2 ^ 63 then int n else int n - 2 ^ 64)"

definition signed :: "nat \<Rightarrow> bool \<Rightarrow> int" where
  "signed magnitude negative =
     (if negative then cast_signed (overflowing_neg magnitude) else cast_signed magnitude)"

definition checked_div :: "signed_divisor \<Rightarrow> int \<Rightarrow> int option panics" where
  "checked_div sd v =
     (if overflows sd v then Some None
      else do {
        quotient \<leftarrow> ud_quotient (sd_magnitude sd) (unsigned_abs v);
        Some (Some (signed quotient ((v < 0) \<noteq> sd_negative sd)))
      })"

definition checked_rem :: "signed_divisor \<Rightarrow> int \<Rightarrow> int option panics" where
  "checked_rem sd v =
     (if overflows sd v then Some None
      else do {
        remainder \<leftarrow> ud_remainder (sd_magnitude sd) (unsigned_abs v);
        Some (Some (signed remainder (v < 0)))
      })"

definition checked_div_euclid :: "signed_divisor \<Rightarrow> int \<Rightarrow> int option panics" where
  "checked_div_euclid sd v =
     (if overflows sd v then Some None
      else do {
        (quotient, remainder) \<leftarrow> quotient_remainder (sd_magnitude sd) (unsigned_abs v);
        let correction = (if v < 0 \<and> remainder \<noteq> 0 then 1 else 0);
        quotient' \<leftarrow> checked_add u64_max quotient correction;
        Some (Some (signed quotient' ((v < 0) \<noteq> sd_negative sd)))
      })"

definition checked_rem_euclid :: "signed_divisor \<Rightarrow> int \<Rightarrow> int option panics" where
  "checked_rem_euclid sd v =
     (if overflows sd v then Some None
      else do {
        remainder \<leftarrow> ud_remainder (sd_magnitude sd) (unsigned_abs v);
        remainder' \<leftarrow> (if v < 0 \<and> remainder \<noteq> 0
                       then checked_sub (ud_divisor (sd_magnitude sd)) remainder
                       else Some remainder);
        i \<leftarrow> try_from (2 ^ 63 - 1) remainder';
        Some (Some (int i))
      })"

lemma signed_eq:
  "n \<le> 2 ^ 63 \<Longrightarrow> (negative \<or> n < 2 ^ 63) \<Longrightarrow> signed n negative = (if negative then - int n else int n)"
proof (cases "n = 0")
  case False
  then have "(2 ^ 64 - n) mod 2 ^ 64 = 2 ^ 64 - n" by simp
  then show "n \<le> 2 ^ 63 \<Longrightarrow> (negative \<or> n < 2 ^ 63) \<Longrightarrow>
      signed n negative = (if negative then - int n else int n)"
    using False by (auto simp: signed_def cast_signed_def overflowing_neg_def of_nat_diff)
qed (simp add: signed_def cast_signed_def overflowing_neg_def)

lemma unsigned_abs_le: "fits_i64 v \<Longrightarrow> unsigned_abs v \<le> 2 ^ 63"
  unfolding fits_i64_def unsigned_abs_def nat_le_iff by auto

lemma sd_new_magnitude:
  assumes "sd_new d = Some (Some sd)" and "fits_i64 v"
  shows "quotient_remainder (sd_magnitude sd) (unsigned_abs v) =
      Some (unsigned_abs v div unsigned_abs d, unsigned_abs v mod unsigned_abs d)"
    and "ud_divisor (sd_magnitude sd) = unsigned_abs d" and "sd_negative sd = (d < 0)" and "d \<noteq> 0"
proof -
  obtain ud where ud: "ud_new (unsigned_abs d) = Some (Some ud)"
    and sd: "sd = \<lparr>sd_magnitude = ud, sd_negative = d < 0\<rparr>"
    using assms(1) by (auto simp: sd_new_def split: bind_splits)
  have "unsigned_abs v \<le> u64_max"
    using unsigned_abs_le [OF assms(2)] by (simp add: u64_max_def)
  from quotient_remainder_exact [OF ud this] sd
  show "quotient_remainder (sd_magnitude sd) (unsigned_abs v) =
      Some (unsigned_abs v div unsigned_abs d, unsigned_abs v mod unsigned_abs d)"
    "ud_divisor (sd_magnitude sd) = unsigned_abs d" "sd_negative sd = (d < 0)" "d \<noteq> 0"
    by (auto simp: unsigned_abs_def)
qed

text \<open>The magnitudes of quotient and remainder as integers.\<close>

lemma abs_div: "int (unsigned_abs v div unsigned_abs d) = \<bar>v\<bar> div \<bar>d\<bar>"
  by (simp add: unsigned_abs_def zdiv_int)

lemma abs_mod: "int (unsigned_abs v mod unsigned_abs d) = \<bar>v\<bar> mod \<bar>d\<bar>"
  by (simp add: unsigned_abs_def zmod_int)

lemma overflows_iff:
  assumes "sd_new d = Some (Some sd)" and "fits_i64 v"
  shows "overflows sd v \<longleftrightarrow> v = - (2 ^ 63) \<and> d = - 1"
  using sd_new_magnitude [OF assms] by (auto simp: overflows_def unsigned_abs_def)

lemma quotient_bound:
  assumes "fits_i64 v" and "d \<noteq> 0" and "\<not> (v = - (2 ^ 63) \<and> d = - 1)"
  shows "unsigned_abs v div unsigned_abs d \<le> 2 ^ 63"
    and "(v < 0) = (d < 0) \<Longrightarrow> unsigned_abs v div unsigned_abs d < 2 ^ 63"
proof -
  have v: "unsigned_abs v \<le> 2 ^ 63" using assms(1) by (rule unsigned_abs_le)
  show "unsigned_abs v div unsigned_abs d \<le> 2 ^ 63"
    using v div_le_dividend order_trans by blast
  show "unsigned_abs v div unsigned_abs d < 2 ^ 63" if sg: "(v < 0) = (d < 0)"
  proof (cases "unsigned_abs v < 2 ^ 63")
    case True
    then show ?thesis using div_le_dividend order.strict_trans1 by blast
  next
    case False
    with v have "unsigned_abs v = 2 ^ 63" by simp
    moreover from this have "v = - (2 ^ 63)" using assms(1) by (auto simp: fits_i64_def unsigned_abs_def)
    moreover from this have "1 < unsigned_abs d" using sg assms(2,3) by (auto simp: unsigned_abs_def)
    ultimately show ?thesis by simp
  qed
qed

lemma checked_div_eq:
  assumes "sd_new d = Some (Some sd)" and "fits_i64 v" and "\<not> (v = - (2 ^ 63) \<and> d = - 1)"
  shows "checked_div sd v = Some (Some (v sdiv d))"
proof -
  note sd = sd_new_magnitude [OF assms(1,2)]
  let ?q = "unsigned_abs v div unsigned_abs d"
  have "signed ?q ((v < 0) \<noteq> (d < 0)) = (if (v < 0) \<noteq> (d < 0) then - int ?q else int ?q)"
    using quotient_bound [OF assms(2) sd(4) assms(3)] by (intro signed_eq) auto
  also have "\<dots> = v sdiv d" using sd(4) by (auto simp: abs_div signed_divide_int_def sgn_if)
  finally show ?thesis
    using assms(3) sd by (simp add: checked_div_def overflows_iff [OF assms(1,2)] ud_quotient_def)
qed

lemma remainder_bound:
  assumes "fits_i64 d" and "d \<noteq> 0"
  shows "unsigned_abs v mod unsigned_abs d < unsigned_abs d" and "unsigned_abs d \<le> 2 ^ 63"
  using assms unsigned_abs_le by (simp_all add: unsigned_abs_def)

lemma checked_rem_eq:
  assumes "sd_new d = Some (Some sd)" and "fits_i64 v" and "fits_i64 d"
    and "\<not> (v = - (2 ^ 63) \<and> d = - 1)"
  shows "checked_rem sd v = Some (Some (v smod d))"
proof -
  note sd = sd_new_magnitude [OF assms(1,2)]
  let ?r = "unsigned_abs v mod unsigned_abs d"
  have "signed ?r (v < 0) = (if v < 0 then - int ?r else int ?r)"
    using remainder_bound(1) [OF assms(3) sd(4), of v] remainder_bound(2) [OF assms(3) sd(4)]
    by (intro signed_eq) auto
  also have "\<dots> = v smod d" by (auto simp: abs_mod signed_modulo_int_def sgn_if)
  finally show ?thesis
    using assms(4) sd by (simp add: checked_rem_def overflows_iff [OF assms(1,2)] ud_remainder_def)
qed

definition euclid_quotient :: "int \<Rightarrow> int \<Rightarrow> nat" where
  "euclid_quotient v d = unsigned_abs v div unsigned_abs d +
     (if v < 0 \<and> unsigned_abs v mod unsigned_abs d \<noteq> 0 then 1 else 0)"

definition euclid_remainder :: "int \<Rightarrow> int \<Rightarrow> nat" where
  "euclid_remainder v d =
     (if v < 0 \<and> unsigned_abs v mod unsigned_abs d \<noteq> 0
      then unsigned_abs d - unsigned_abs v mod unsigned_abs d
      else unsigned_abs v mod unsigned_abs d)"

lemma euclid_law:
  assumes "d \<noteq> 0"
  shows "v = (if (v < 0) \<noteq> (d < 0) then - int (euclid_quotient v d) else int (euclid_quotient v d)) * d +
      int (euclid_remainder v d)"
    and "euclid_remainder v d < unsigned_abs d"
proof -
  let ?q = "int (unsigned_abs v div unsigned_abs d)" and ?r = "int (unsigned_abs v mod unsigned_abs d)"
  have "unsigned_abs v mod unsigned_abs d < unsigned_abs d" using assms by (simp add: unsigned_abs_def)
  then show "euclid_remainder v d < unsigned_abs d" by (auto simp: euclid_remainder_def)
  have split: "\<bar>v\<bar> = ?q * \<bar>d\<bar> + ?r" unfolding abs_div abs_mod by simp
  have "?r < \<bar>d\<bar>" unfolding abs_mod using assms by simp
  then have sub: "int (unsigned_abs d - unsigned_abs v mod unsigned_abs d) = \<bar>d\<bar> - ?r"
    by (simp add: unsigned_abs_def of_nat_diff)
  show "v = (if (v < 0) \<noteq> (d < 0) then - int (euclid_quotient v d) else int (euclid_quotient v d)) * d +
      int (euclid_remainder v d)"
    unfolding euclid_quotient_def euclid_remainder_def using split sub
    by (cases "v < 0"; cases "d < 0"; cases "unsigned_abs v mod unsigned_abs d = 0")
      (simp_all add: algebra_simps)
qed

lemma euclid_quotient_bound:
  assumes "fits_i64 v" and "d \<noteq> 0" and "\<not> (v = - (2 ^ 63) \<and> d = - 1)"
  shows "euclid_quotient v d \<le> 2 ^ 63" and "(v < 0) = (d < 0) \<Longrightarrow> euclid_quotient v d < 2 ^ 63"
proof -
  have "unsigned_abs v div unsigned_abs d + 1 < 2 ^ 63" if "unsigned_abs v mod unsigned_abs d \<noteq> 0"
  proof -
    have "unsigned_abs d \<noteq> 1" using that by auto
    moreover have "0 < unsigned_abs d" using assms(2) by (simp add: unsigned_abs_def)
    ultimately have "unsigned_abs v div unsigned_abs d \<le> unsigned_abs v div 2"
      by (intro div_le_mono2) auto
    moreover have "unsigned_abs v \<le> 2 ^ 63" using assms(1) by (rule unsigned_abs_le)
    then have "unsigned_abs v div 2 \<le> 2 ^ 62" by simp
    ultimately show ?thesis by simp
  qed
  then show "euclid_quotient v d \<le> 2 ^ 63" "(v < 0) = (d < 0) \<Longrightarrow> euclid_quotient v d < 2 ^ 63"
    using quotient_bound [OF assms] by (auto simp: euclid_quotient_def)
qed

lemma checked_euclid_eq:
  assumes "sd_new d = Some (Some sd)" and "fits_i64 v" and "fits_i64 d"
    and "\<not> (v = - (2 ^ 63) \<and> d = - 1)"
  shows "checked_div_euclid sd v = Some (Some
      (if (v < 0) \<noteq> (d < 0) then - int (euclid_quotient v d) else int (euclid_quotient v d)))"
    and "checked_rem_euclid sd v = Some (Some (int (euclid_remainder v d)))"
proof -
  note sd = sd_new_magnitude [OF assms(1,2)]
  note qb = euclid_quotient_bound [OF assms(2) sd(4) assms(4)]
  have "checked_add u64_max (unsigned_abs v div unsigned_abs d)
      (if v < 0 \<and> unsigned_abs v mod unsigned_abs d \<noteq> 0 then 1 else 0) = Some (euclid_quotient v d)"
    using qb(1) by (simp add: checked_add_def euclid_quotient_def u64_max_def)
  then show "checked_div_euclid sd v = Some (Some
      (if (v < 0) \<noteq> (d < 0) then - int (euclid_quotient v d) else int (euclid_quotient v d)))"
    using assms(4) sd qb signed_eq [of "euclid_quotient v d" True] signed_eq [of "euclid_quotient v d" False]
    by (auto simp: checked_div_euclid_def overflows_iff [OF assms(1,2)] Let_def)
  have "unsigned_abs v mod unsigned_abs d \<le> unsigned_abs d"
    using remainder_bound(1) [OF assms(3) sd(4)] by (rule less_imp_le)
  then have step: "(if v < 0 \<and> unsigned_abs v mod unsigned_abs d \<noteq> 0
      then checked_sub (unsigned_abs d) (unsigned_abs v mod unsigned_abs d)
      else Some (unsigned_abs v mod unsigned_abs d)) = Some (euclid_remainder v d)"
    by (simp add: checked_sub_def euclid_remainder_def)
  have "euclid_remainder v d \<le> 2 ^ 63 - 1"
    using euclid_law(2) [OF sd(4), of v] remainder_bound(2) [OF assms(3) sd(4)] by linarith
  then have fits: "try_from (2 ^ 63 - 1) (euclid_remainder v d) = Some (euclid_remainder v d)"
    by (simp add: try_from_def)
  have "\<not> overflows sd v" using assms(4) by (simp add: overflows_iff [OF assms(1,2)])
  then show "checked_rem_euclid sd v = Some (Some (int (euclid_remainder v d)))"
    unfolding checked_rem_euclid_def ud_remainder_def sd(1,2) option.map snd_conv if_not_P
      Option.bind.bind_lunit step fits by simp
qed

text \<open>
  Division by a prepared unsigned divisor is exact. For every nonzero \<open>u64\<close> divisor the
  preparation succeeds, and for every \<open>u64\<close> dividend the shift or the multiplication by the
  reciprocal with its one correction gives the quotient and the remainder, with no overflow in any
  of its steps. A zero divisor is refused.
\<close>

lemma unsigned_division_exact:
  assumes "d \<le> u64_max" and "n \<le> u64_max"
  shows "if d = 0 then ud_new d = Some None
    else \<exists>ud. ud_new d = Some (Some ud) \<and> quotient_remainder ud n = Some (n div d, n mod d)"
proof (cases "d = 0")
  case False
  have "\<exists>ud. ud_new d = Some (Some ud)" using False by (simp add: ud_new_succeeds)
  with False quotient_remainder_exact(1) [OF _ assms(2)] show ?thesis by auto
qed (simp add: ud_new_def)

text \<open>
  C23: signed division keeps both integer contracts. For a prepared nonzero divisor and any \<open>i64\<close>,
  the checked operations fail exactly on the minimum divided by minus one; otherwise the
  truncating pair is the truncating quotient and remainder, and the Euclidean pair \<open>q\<close>, \<open>r\<close>
  satisfies \<open>v = q * d + r\<close> with \<open>0 \<le> r < |d|\<close>. No intermediate step overflows.
\<close>

theorem signed_division_exact:
  assumes "sd_new d = Some (Some sd)" and "fits_i64 v" and "fits_i64 d"
  shows "if v = - (2 ^ 63) \<and> d = - 1
    then checked_div sd v = Some None \<and> checked_rem sd v = Some None \<and>
      checked_div_euclid sd v = Some None \<and> checked_rem_euclid sd v = Some None
    else checked_div sd v = Some (Some (v sdiv d)) \<and> checked_rem sd v = Some (Some (v smod d)) \<and>
      (\<exists>q r. checked_div_euclid sd v = Some (Some q) \<and> checked_rem_euclid sd v = Some (Some r) \<and>
         v = q * d + r \<and> 0 \<le> r \<and> r < \<bar>d\<bar>)"
proof (cases "v = - (2 ^ 63) \<and> d = - 1")
  case True
  then have "overflows sd v" using overflows_iff [OF assms(1,2)] by blast
  then have "checked_div sd v = Some None" "checked_rem sd v = Some None"
    "checked_div_euclid sd v = Some None" "checked_rem_euclid sd v = Some None"
    unfolding checked_div_def checked_rem_def checked_div_euclid_def checked_rem_euclid_def by simp_all
  with True show ?thesis by simp
next
  case False
  note sd = sd_new_magnitude [OF assms(1,2)]
  note law = euclid_law [OF sd(4), of v]
  have "int (euclid_remainder v d) < \<bar>d\<bar>" using law(2) by (simp add: unsigned_abs_def)
  with law(1) show ?thesis
    using checked_div_eq [OF assms(1,2) False] checked_rem_eq [OF assms False]
      checked_euclid_eq [OF assms False] False
    by (simp only: if_False simp_thms) (intro exI conjI, (rule refl | assumption | simp)+)
qed

theorem signed_division_exact_witness:
  "\<exists>sd. sd_new (- 7) = Some (Some sd) \<and> checked_div sd 9223372036854775807 = Some (Some (- 1317624576693539401)) \<and>
     checked_rem sd (- 15) = Some (Some (- 1)) \<and>
     (\<exists>q r. checked_div_euclid sd (- 15) = Some (Some q) \<and> checked_rem_euclid sd (- 15) = Some (Some r) \<and>
        - 15 = q * (- 7) + r \<and> 0 \<le> r \<and> r < 7)"
proof -
  obtain ud where "ud_new 7 = Some (Some ud)"
    using ud_new_succeeds [of 7] by auto
  then obtain sd where sd: "sd_new (- 7) = Some (Some sd)" by (simp add: sd_new_def unsigned_abs_def)
  show ?thesis
    using signed_division_exact [OF sd, of 9223372036854775807] signed_division_exact [OF sd, of "- 15"] sd
    by (simp add: fits_i64_def signed_divide_int_def signed_modulo_int_def)
qed

end
