(* ===== verification/Domain_Clock.thy ===== *)
theory Domain_Clock
  imports Timestamp
begin

text \<open>
  The domain clock and its admission window (crates/models/src/domain_clock.rs and
  domain_clock/admission.rs).

  A paced domain maps wall time to logical time. At rate one the mapping is exact integer
  arithmetic. At any other rate the source multiplies or divides by an \<open>f64\<close> and converts back
  with a range check; the two conversions are parameters of the model, functions from nanoseconds
  to nanoseconds that may refuse, and no theorem below assumes anything of them.
\<close>

section \<open>Data\<close>

datatype domain_clock_error =
    InvalidPeriod
  | InvalidSkew
  | InvalidTickId
  | TickIdOverflow
  | DurationOverflow
  | TimestampOverflow

datatype 'o domain_clock_authority =
    Unassigned nat
  | Assigned nat 'o

text \<open>A rate: the unit rate, or the two conversions of another rate.\<close>

datatype time_rate =
    Rate_one
  | Rate_scaled "nanos \<Rightarrow> nanos option" "nanos \<Rightarrow> nanos option"

record domain_clock_state =
  wall_started_at :: timestamp
  logical_start :: timestamp
  time_rate :: time_rate

record domain_clock_boundary =
  tick_id :: nat
  logical_timestamp :: timestamp

record domain_clock_advancement =
  boundary :: domain_clock_boundary
  next_tick_id :: nat

section \<open>Clock authority, periods and skews\<close>

fun authority_revision :: "'o domain_clock_authority \<Rightarrow> nat" where
  "authority_revision (Unassigned r) = r"
| "authority_revision (Assigned r owner) = r"

fun authority_owner :: "'o domain_clock_authority \<Rightarrow> 'o option" where
  "authority_owner (Unassigned r) = None"
| "authority_owner (Assigned r owner) = Some owner"

definition checked_reassign :: "'o domain_clock_authority \<Rightarrow> 'o option \<Rightarrow> 'o domain_clock_authority option" where
  "checked_reassign a owner = do {
     revision \<leftarrow> checked_add u64_max (authority_revision a) 1;
     Some (case owner of Some owner \<Rightarrow> Assigned revision owner | None \<Rightarrow> Unassigned revision)
   }"

definition period_try_from :: "nanos \<Rightarrow> domain_clock_error + nat" where
  "period_try_from d =
     (case try_from u64_max d of
        None \<Rightarrow> Inl InvalidPeriod
      | Some n \<Rightarrow> if n = 0 then Inl InvalidPeriod else Inr n)"

definition skew_try_from :: "nanos \<Rightarrow> domain_clock_error + nat" where
  "skew_try_from d = (case try_from u64_max d of None \<Rightarrow> Inl InvalidSkew | Some n \<Rightarrow> Inr n)"

section \<open>Projection and ticks\<close>

text \<open>An operation of the clock may panic, or return an error.\<close>

type_synonym 'a clocked = "(domain_clock_error + 'a) panics"

definition clock_err :: "domain_clock_error \<Rightarrow> 'a clocked" where
  "clock_err e = Some (Inl e)"

definition and_then :: "('e + 'a) panics \<Rightarrow> ('a \<Rightarrow> (domain_clock_error + 'b) panics) \<Rightarrow> ('e \<Rightarrow> domain_clock_error) \<Rightarrow> 'b clocked" where
  "and_then r f context =
     (case r of None \<Rightarrow> None | Some (Inl e) \<Rightarrow> Some (Inl (context e)) | Some (Inr a) \<Rightarrow> f a)"

definition logical_time_at :: "domain_clock_state \<Rightarrow> timestamp \<Rightarrow> timestamp clocked" where
  "logical_time_at s wall_time = do {
     since \<leftarrow> ts_duration_since wall_time (wall_started_at s);
     let elapsed = (case since of Some d \<Rightarrow> d | None \<Rightarrow> 0);
     case (case time_rate s of
             Rate_one \<Rightarrow> try_from u64_max elapsed
           | Rate_scaled project _ \<Rightarrow> project elapsed) of
       None \<Rightarrow> clock_err DurationOverflow
     | Some logical_nanos \<Rightarrow>
         and_then (ts_checked_add (logical_start s) logical_nanos) (\<lambda>t. Some (Inr t)) (\<lambda>_. TimestampOverflow)
   }"

definition wall_duration_for_logical_delta :: "domain_clock_state \<Rightarrow> nanos \<Rightarrow> nanos clocked" where
  "wall_duration_for_logical_delta s delta =
     (if delta = 0 then Some (Inr 0)
      else case time_rate s of
        Rate_one \<Rightarrow> Some (Inr delta)
      | Rate_scaled _ stretch \<Rightarrow>
          (case stretch delta of
             None \<Rightarrow> clock_err DurationOverflow
           | Some wall_nanos \<Rightarrow> Some (Inr (max wall_nanos 1))))"

definition wall_duration_until :: "domain_clock_state \<Rightarrow> timestamp \<Rightarrow> timestamp \<Rightarrow> nanos clocked" where
  "wall_duration_until s current target = do {
     since \<leftarrow> ts_duration_since target current;
     case since of
       None \<Rightarrow> Some (Inr 0)
     | Some delta \<Rightarrow> wall_duration_for_logical_delta s delta
   }"

definition tick_boundary :: "domain_clock_state \<Rightarrow> nat \<Rightarrow> nat \<Rightarrow> domain_clock_boundary clocked" where
  "tick_boundary s period tick =
     (case checked_sub tick 1 of
        None \<Rightarrow> clock_err InvalidTickId
      | Some zero_based \<Rightarrow>
          (case checked_mul u64_max zero_based period of
             None \<Rightarrow> clock_err DurationOverflow
           | Some offset \<Rightarrow>
               and_then (ts_checked_add (logical_start s) offset)
                 (\<lambda>t. Some (Inr \<lparr>tick_id = tick, logical_timestamp = t\<rparr>)) (\<lambda>_. TimestampOverflow)))"

definition due_advancement ::
  "domain_clock_state \<Rightarrow> nat \<Rightarrow> nat \<Rightarrow> timestamp \<Rightarrow> domain_clock_advancement option clocked" where
  "due_advancement s period next_tick wall_time =
     (if next_tick = 0 then clock_err InvalidTickId
      else and_then (logical_time_at s wall_time) (\<lambda>reached. do {
        since \<leftarrow> ts_duration_since reached (logical_start s);
        elapsed \<leftarrow> since;
        case try_from u64_max (elapsed div period) of
          None \<Rightarrow> clock_err TickIdOverflow
        | Some zero_based \<Rightarrow>
            (case checked_add u64_max zero_based 1 of
               None \<Rightarrow> clock_err TickIdOverflow
             | Some tick \<Rightarrow>
                 if tick < next_tick then Some (Inr None)
                 else and_then (tick_boundary s period tick) (\<lambda>b.
                   case checked_add u64_max tick 1 of
                     None \<Rightarrow> clock_err TickIdOverflow
                   | Some next_tick' \<Rightarrow> Some (Inr (Some \<lparr>boundary = b, next_tick_id = next_tick'\<rparr>))) id)
      }) id)"

section \<open>The admission window\<close>

record domain_admission_window =
  daw_first :: timestamp
  daw_last :: timestamp
  daw_period :: nat
  daw_skew :: nat

definition RETAINED_POSITION_COUNT :: nat where
  "RETAINED_POSITION_COUNT = 256"

definition RETAINED_PRECEDING_POSITION_COUNT :: nat where
  "RETAINED_PRECEDING_POSITION_COUNT = RETAINED_POSITION_COUNT - 1"

text \<open>The closure \<open>center\<close> of \<open>reached\<close>: every failure of it is a broken guarantee.\<close>

definition center_at :: "timestamp \<Rightarrow> nat \<Rightarrow> nat \<Rightarrow> timestamp panics" where
  "center_at origin period position = do {
     offset \<leftarrow> checked_mul u128_max position period;
     offset' \<leftarrow> try_from u64_max offset;
     res \<leftarrow> ts_checked_add origin offset';
     case res of Inl e \<Rightarrow> panic | Inr t \<Rightarrow> Some t
   }"

definition reached ::
  "timestamp \<Rightarrow> timestamp \<Rightarrow> nat \<Rightarrow> nat \<Rightarrow> domain_admission_window option panics" where
  "reached origin now period skew = do {
     since \<leftarrow> ts_duration_since now origin;
     case since of
       None \<Rightarrow> Some None
     | Some elapsed \<Rightarrow> do {
         let frontier = elapsed div period;
         first_position \<leftarrow>
           (if frontier < RETAINED_POSITION_COUNT then Some 0
            else checked_sub frontier RETAINED_PRECEDING_POSITION_COUNT);
         first \<leftarrow> center_at origin period first_position;
         final \<leftarrow> center_at origin period frontier;
         Some (Some \<lparr>daw_first = first, daw_last = final, daw_period = period, daw_skew = skew\<rparr>)
       }
   }"

definition daw_contains :: "domain_admission_window \<Rightarrow> timestamp \<Rightarrow> bool panics" where
  "daw_contains w event =
     (if event < daw_first w then do {
        since \<leftarrow> ts_duration_since (daw_first w) event;
        d \<leftarrow> since;
        Some (d \<le> daw_skew w)
      }
      else if daw_last w < event then do {
        since \<leftarrow> ts_duration_since event (daw_last w);
        d \<leftarrow> since;
        Some (d \<le> daw_skew w)
      }
      else do {
        since \<leftarrow> ts_duration_since event (daw_first w);
        elapsed \<leftarrow> since;
        let remainder = elapsed mod daw_period w;
        distance_to_next \<leftarrow> checked_sub (daw_period w) remainder;
        Some (remainder \<le> daw_skew w \<or> distance_to_next \<le> daw_skew w)
      })"

section \<open>Ticks\<close>

definition clock_inv :: "domain_clock_state \<Rightarrow> bool" where
  "clock_inv s = (valid_timestamp (wall_started_at s) \<and> valid_timestamp (logical_start s))"

lemma logical_time_after_start:
  assumes "clock_inv s" and "valid_timestamp wall" and "logical_time_at s wall = Some (Inr t)"
  shows "valid_timestamp t \<and> logical_start s \<le> t"
  using assms
  by (auto simp: logical_time_at_def clock_inv_def ts_duration_since_ok ts_checked_add_ok and_then_def
      clock_err_def split: time_rate.splits option.splits if_splits)

lemma tick_boundary_ok:
  assumes "clock_inv s" and "0 < tick" and "valid_timestamp t"
    and "logical_start s + int ((tick - 1) * period) \<le> t"
  shows "tick_boundary s period tick =
    Some (Inr \<lparr>tick_id = tick, logical_timestamp = logical_start s + int ((tick - 1) * period)\<rparr>)"
proof -
  define offset where "offset = (tick - 1) * period"
  have valid: "valid_timestamp (logical_start s + int offset)"
    using assms(1,3,4) unfolding offset_def [symmetric] by (auto simp: clock_inv_def timestamp_defs)
  then have "offset \<le> u64_max" using assms(1) by (auto simp: clock_inv_def timestamp_defs)
  then have "checked_mul u64_max (tick - 1) period = Some offset"
    unfolding checked_mul_def offset_def by (rule if_P)
  moreover have "checked_sub tick 1 = Some (tick - 1)" using assms(2) by (simp add: checked_sub_def)
  moreover have "ts_checked_add (logical_start s) offset = Some (Inr (logical_start s + int offset))"
    using valid assms(1) by (simp add: clock_inv_def ts_checked_add_ok)
  ultimately show ?thesis unfolding offset_def [symmetric] by (simp add: tick_boundary_def and_then_def)
qed

text \<open>The tick that a logical instant has reached.\<close>

definition reached_tick :: "domain_clock_state \<Rightarrow> nat \<Rightarrow> timestamp \<Rightarrow> nat" where
  "reached_tick s period t = nat (t - logical_start s) div period + 1"

lemma due_advancement_eq:
  assumes inv: "clock_inv s" and wall: "valid_timestamp wall"
    and at: "logical_time_at s wall = Some (Inr t)" and "0 < period" and "0 < next_tick"
    and room: "reached_tick s period t < u64_max"
  defines "tick \<equiv> reached_tick s period t"
  shows "due_advancement s period next_tick wall = Some (Inr
    (if tick < next_tick then None
     else Some \<lparr>boundary = \<lparr>tick_id = tick, logical_timestamp = logical_start s + int ((tick - 1) * period)\<rparr>,
                next_tick_id = tick + 1\<rparr>))"
proof -
  have t: "valid_timestamp t" "logical_start s \<le> t" using logical_time_after_start [OF inv wall at] by auto
  then have since: "ts_duration_since t (logical_start s) = Some (Some (nat (t - logical_start s)))"
    using inv by (simp add: clock_inv_def ts_duration_since_ok)
  have "(tick - 1) * period \<le> nat (t - logical_start s)"
    unfolding tick_def reached_tick_def by simp
  then have "logical_start s + int ((tick - 1) * period) \<le> t" using t(2) by linarith
  moreover have "0 < tick" by (simp add: tick_def reached_tick_def)
  ultimately have tb: "tick_boundary s period tick =
    Some (Inr \<lparr>tick_id = tick, logical_timestamp = logical_start s + int ((tick - 1) * period)\<rparr>)"
    using tick_boundary_ok [OF inv _ t(1)] by blast
  have z: "try_from u64_max (nat (t - logical_start s) div period) = Some (tick - 1)"
    "checked_add u64_max (tick - 1) 1 = Some tick" "checked_add u64_max tick 1 = Some (tick + 1)"
    using room unfolding tick_def reached_tick_def by (simp_all add: try_from_def checked_add_def)
  show ?thesis
    using assms(5) unfolding due_advancement_def and_then_def [of "logical_time_at s wall"] at
    by (simp add: since z z [unfolded One_nat_def] tb and_then_def)
qed

text \<open>
  C26: the due tick is the latest reached one. When the wall time projects to a logical instant
  whose tick fits its range, the clock advances exactly when the tick of that instant is at or
  after the next expected one, and then to the last boundary that is not after the instant:
  earlier missed periods are coalesced, no boundary is in the future, and feeding the returned
  next tick back never yields the same tick again.
\<close>

theorem due_advancement_is_latest_reached:
  assumes "clock_inv s" and "valid_timestamp wall" and "logical_time_at s wall = Some (Inr t)"
    and "0 < period" and "0 < next_tick" and "reached_tick s period t < u64_max"
  shows "\<exists>due. due_advancement s period next_tick wall = Some (Inr due) \<and>
    (case due of
       None \<Rightarrow> t < logical_start s + int ((next_tick - 1) * period)
     | Some a \<Rightarrow>
         next_tick \<le> tick_id (boundary a) \<and> next_tick_id a = tick_id (boundary a) + 1 \<and>
         logical_timestamp (boundary a) = logical_start s + int ((tick_id (boundary a) - 1) * period) \<and>
         logical_timestamp (boundary a) \<le> t \<and> t < logical_timestamp (boundary a) + int period)"
proof -
  let ?e = "nat (t - logical_start s)"
  have t: "logical_start s \<le> t" using logical_time_after_start [OF assms(1-3)] by simp
  have e: "?e div period * period \<le> ?e" "?e < (?e div period + 1) * period"
    using assms(4) dividend_less_times_div [of period ?e] by (simp_all add: mult.commute)
  have early: "t < logical_start s + int ((next_tick - 1) * period)" if "?e div period + 1 < next_tick"
  proof -
    have "(?e div period + 1) * period \<le> (next_tick - 1) * period" using that by (intro mult_le_mono1) simp
    then have "?e < (next_tick - 1) * period" using e(2) by (rule order.strict_trans2 [rotated])
    then show ?thesis using t by linarith
  qed
  have "logical_start s + int (?e div period * period) \<le> t" using e(1) t by linarith
  moreover have "t < logical_start s + int (?e div period * period) + int period"
  proof -
    have "?e < ?e div period * period + period" using e(2) by (simp add: add.commute)
    then show ?thesis using t by linarith
  qed
  ultimately show ?thesis
    using due_advancement_eq [OF assms] early by (auto simp: reached_tick_def)
qed

definition sample_clock :: domain_clock_state where
  "sample_clock = \<lparr>wall_started_at = 1000, logical_start = 500, time_rate = Rate_one\<rparr>"

theorem due_advancement_is_latest_reached_witness:
  "\<exists>a. due_advancement sample_clock 10 2 1047 = Some (Inr (Some a)) \<and> 2 \<le> tick_id (boundary a) \<and>
     logical_timestamp (boundary a) \<le> 547 \<and> 547 < logical_timestamp (boundary a) + 10"
proof -
  have at: "logical_time_at sample_clock 1047 = Some (Inr 547)"
    by (simp add: logical_time_at_def sample_clock_def ts_duration_since_ok ts_checked_add_ok
        and_then_def timestamp_defs try_from_def)
  have "clock_inv sample_clock" "valid_timestamp 1047" "reached_tick sample_clock 10 547 < u64_max"
    by (simp_all add: clock_inv_def sample_clock_def timestamp_defs reached_tick_def)
  from due_advancement_is_latest_reached [OF this(1,2) at _ _ this(3), of 2]
  show ?thesis by (auto simp: sample_clock_def split: option.splits)
qed

section \<open>Admission\<close>

text \<open>The distance to the nearest of equally spaced centers, before, after and between them.\<close>

lemma near_center_between:
  fixes F P S e :: int and n :: nat
  assumes P: "0 < P" and e: "F \<le> e" "e \<le> F + int n * P" and S: "0 \<le> S"
  shows "(\<exists>j \<le> n. \<bar>e - (F + int j * P)\<bar> \<le> S) \<longleftrightarrow> (e - F) mod P \<le> S \<or> P - (e - F) mod P \<le> S"
proof -
  define r where "r = (e - F) mod P"
  define j where "j = nat ((e - F) div P)"
  have r: "0 \<le> r" "r < P" using P by (auto simp: r_def)
  have "0 \<le> (e - F) div P" using P e by (simp add: pos_imp_zdiv_nonneg_iff)
  then have split: "e = F + int j * P + r" by (simp add: j_def r_def)
  then have jn: "j \<le> n" and jn': "0 < r \<Longrightarrow> j + 1 \<le> n"
  proof -
    have "int j * P \<le> int n * P" using split e r by linarith
    then show "j \<le> n" using P by simp
    assume "0 < r"
    then have "int j * P < int n * P" using split e r by linarith
    then show "j + 1 \<le> n" using P by simp
  qed
  show ?thesis unfolding r_def [symmetric]
  proof
    assume "\<exists>j \<le> n. \<bar>e - (F + int j * P)\<bar> \<le> S"
    then obtain i where i: "\<bar>e - (F + int i * P)\<bar> \<le> S" by blast
    show "r \<le> S \<or> P - r \<le> S"
    proof (cases "i \<le> j")
      case True
      then have "int i * P \<le> int j * P" using P by simp
      then show ?thesis using i split by linarith
    next
      case False
      then have "(int j + 1) * P \<le> int i * P" using P by (intro mult_right_mono) auto
      then show ?thesis using i split by (simp add: algebra_simps) linarith
    qed
  next
    assume near: "r \<le> S \<or> P - r \<le> S"
    show "\<exists>j \<le> n. \<bar>e - (F + int j * P)\<bar> \<le> S"
    proof (cases "r \<le> S")
      case True
      then show ?thesis using jn split r by (intro exI [of _ j]) simp
    next
      case False
      then have "0 < r" using S by simp
      moreover have "\<bar>e - (F + int (j + 1) * P)\<bar> \<le> S"
        using False near split r by (simp add: algebra_simps)
      ultimately show ?thesis using jn' by blast
    qed
  qed
qed

lemma near_center_before:
  fixes F P S e :: int and n :: nat
  assumes "0 < P" and "e < F"
  shows "(\<exists>j \<le> n. \<bar>e - (F + int j * P)\<bar> \<le> S) \<longleftrightarrow> F - e \<le> S"
proof
  assume "\<exists>j \<le> n. \<bar>e - (F + int j * P)\<bar> \<le> S"
  then obtain j where "\<bar>e - (F + int j * P)\<bar> \<le> S" by blast
  moreover have "0 \<le> int j * P" using assms by simp
  ultimately show "F - e \<le> S" by linarith
qed (use assms in \<open>intro exI [of _ 0], simp\<close>)

lemma near_center_after:
  fixes F P S e :: int and n :: nat
  assumes "0 < P" and "F + int n * P < e"
  shows "(\<exists>j \<le> n. \<bar>e - (F + int j * P)\<bar> \<le> S) \<longleftrightarrow> e - (F + int n * P) \<le> S"
proof
  assume "\<exists>j \<le> n. \<bar>e - (F + int j * P)\<bar> \<le> S"
  then obtain j where "j \<le> n" "\<bar>e - (F + int j * P)\<bar> \<le> S" by blast
  moreover from this have "int j * P \<le> int n * P" using assms by simp
  ultimately show "e - (F + int n * P) \<le> S" by linarith
qed (use assms in \<open>intro exI [of _ n], simp\<close>)

text \<open>A window with its invariant: the last center is a whole number of periods after the first.\<close>

definition daw_inv :: "domain_admission_window \<Rightarrow> nat \<Rightarrow> bool" where
  "daw_inv w n = (valid_timestamp (daw_first w) \<and> valid_timestamp (daw_last w) \<and> 0 < daw_period w \<and>
     daw_last w = daw_first w + int n * int (daw_period w))"

lemma daw_contains_spec:
  assumes inv: "daw_inv w n" and e: "valid_timestamp event"
  shows "daw_contains w event =
    Some (\<exists>j \<le> n. \<bar>event - (daw_first w + int j * int (daw_period w))\<bar> \<le> int (daw_skew w))"
proof -
  let ?F = "daw_first w" and ?L = "daw_last w" and ?P = "int (daw_period w)" and ?S = "int (daw_skew w)"
  have w: "valid_timestamp ?F" "valid_timestamp ?L" "0 < ?P" "?L = ?F + int n * ?P"
    using inv by (auto simp: daw_inv_def)
  consider "event < ?F" | "?L < event" "\<not> event < ?F" | "?F \<le> event" "event \<le> ?L" by linarith
  then show ?thesis
  proof cases
    case 1
    then show ?thesis
      using near_center_before [OF w(3) 1, of n ?S] e w by (simp add: daw_contains_def ts_duration_since_ok nat_le_iff)
  next
    case 2
    then show ?thesis
      using near_center_after [of ?P ?F n event ?S] e w
      by (simp add: daw_contains_def ts_duration_since_ok nat_le_iff)
  next
    case 3
    let ?r = "nat (event - ?F) mod daw_period w"
    have r: "int ?r = (event - ?F) mod ?P" using 3 by (simp add: zmod_int)
    have "?r < daw_period w" using w(3) by simp
    then have "checked_sub (daw_period w) ?r = Some (daw_period w - ?r)" "int (daw_period w - ?r) = ?P - int ?r"
      by (simp_all add: checked_sub_def of_nat_diff)
    then show ?thesis
      using near_center_between [of ?P ?F event n ?S] 3 e w
      by (simp add: daw_contains_def ts_duration_since_ok Let_def r [symmetric] flip: of_nat_diff)
  qed
qed

lemma center_at_ok:
  assumes "valid_timestamp origin" and "valid_timestamp now" and "origin + int (position * period) \<le> now"
  shows "center_at origin period position = Some (origin + int (position * period)) \<and>
    valid_timestamp (origin + int (position * period))"
proof -
  define offset where "offset = position * period"
  have valid: "valid_timestamp (origin + int offset)"
    using assms unfolding offset_def [symmetric] by (auto simp: timestamp_defs)
  then have "offset \<le> u64_max" using assms(1) by (auto simp: timestamp_defs)
  moreover from this have "checked_mul u128_max position period = Some offset"
    unfolding checked_mul_def offset_def by (intro if_P) (simp add: u64_max_def u128_max_def)
  ultimately show ?thesis
    using valid assms(1) unfolding center_at_def offset_def [symmetric]
    by (simp add: try_from_def ts_checked_add_ok)
qed

lemma reached_ok:
  assumes "valid_timestamp origin" and "valid_timestamp now" and "0 < period" and "origin \<le> now"
  defines "frontier \<equiv> nat (now - origin) div period"
  defines "first_position \<equiv> frontier - RETAINED_PRECEDING_POSITION_COUNT"
  shows "\<exists>w. reached origin now period skew = Some (Some w) \<and> daw_inv w (frontier - first_position) \<and>
    daw_first w = origin + int (first_position * period) \<and> daw_period w = period \<and> daw_skew w = skew"
proof -
  have "frontier * period \<le> nat (now - origin)" unfolding frontier_def by simp
  then have final: "origin + int (frontier * period) \<le> now" using assms(4) by linarith
  have le: "first_position \<le> frontier" unfolding first_position_def by simp
  then have "first_position * period \<le> frontier * period" by simp
  then have first: "origin + int (first_position * period) \<le> now" using final by linarith
  have pos: "(if frontier < RETAINED_POSITION_COUNT then Some 0
    else checked_sub frontier RETAINED_PRECEDING_POSITION_COUNT) = Some first_position"
    by (simp add: first_position_def checked_sub_def RETAINED_POSITION_COUNT_def
        RETAINED_PRECEDING_POSITION_COUNT_def)
  have since: "ts_duration_since now origin = Some (Some (nat (now - origin)))"
    using assms(1,2,4) by (simp add: ts_duration_since_ok)
  note centers = center_at_ok [OF assms(1,2) first] center_at_ok [OF assms(1,2) final]
  let ?w = "\<lparr>daw_first = origin + int (first_position * period),
    daw_last = origin + int (frontier * period), daw_period = period, daw_skew = skew\<rparr>"
  have "reached origin now period skew = Some (Some ?w)"
    unfolding reached_def since Let_def option.case Option.bind.bind_lunit frontier_def [symmetric] pos
    using centers by (simp del: of_nat_mult)
  moreover have "int (frontier * period) = int (first_position * period) + int (frontier - first_position) * int period"
    using le by (simp add: of_nat_diff algebra_simps)
  ultimately show ?thesis
    using assms(3) centers by (intro exI [of _ ?w]) (simp add: daw_inv_def del: of_nat_mult)
qed

text \<open>
  C22: the admission window admits exactly the events near a retained tick. Before the domain's
  origin there is no window. From the origin on, an event is admitted if and only if it lies within
  the skew of one of the newest 256 tick positions that the clock has reached, although the window
  only stores its two end centers; no step of the arithmetic leaves its range.
\<close>

theorem admission_window_exact:
  assumes "valid_timestamp origin" and "valid_timestamp now" and "valid_timestamp event" and "0 < period"
  shows "if now < origin then reached origin now period skew = Some None
    else \<exists>w. reached origin now period skew = Some (Some w) \<and>
      daw_contains w event = Some (\<exists>position.
        origin + int (position * period) \<le> now \<and>
        now < origin + int ((position + RETAINED_POSITION_COUNT) * period) \<and>
        \<bar>event - (origin + int (position * period))\<bar> \<le> int skew)"
proof (cases "now < origin")
  case True
  then show ?thesis using assms by (simp add: reached_def ts_duration_since_ok)
next
  case False
  define f where "f = nat (now - origin) div period"
  define p0 where "p0 = f - RETAINED_PRECEDING_POSITION_COUNT"
  obtain w where w: "reached origin now period skew = Some (Some w)" "daw_inv w (f - p0)"
    "daw_first w = origin + int (p0 * period)" "daw_period w = period" "daw_skew w = skew"
    using reached_ok [OF assms(1,2,4), of skew] False unfolding f_def p0_def by auto
  have le: "origin + int (k * period) \<le> now \<longleftrightarrow> k \<le> f" for k
  proof -
    have "origin + int (k * period) \<le> now \<longleftrightarrow> k * period \<le> nat (now - origin)" using False by linarith
    also have "\<dots> \<longleftrightarrow> k \<le> f" using assms(4) by (simp add: f_def less_eq_div_iff_mult_less_eq)
    finally show ?thesis .
  qed
  then have gt: "now < origin + int (k * period) \<longleftrightarrow> f < k" for k using not_le by metis
  have retained: "p0 \<le> k \<longleftrightarrow> f < k + RETAINED_POSITION_COUNT" for k
    by (auto simp: p0_def RETAINED_POSITION_COUNT_def RETAINED_PRECEDING_POSITION_COUNT_def)
  have "(\<exists>j \<le> f - p0. \<bar>event - (daw_first w + int j * int period)\<bar> \<le> int skew) \<longleftrightarrow>
    (\<exists>k. k \<le> f \<and> p0 \<le> k \<and> \<bar>event - (origin + int (k * period))\<bar> \<le> int skew)"
  proof (intro iffI; elim exE conjE)
    fix j assume "j \<le> f - p0" "\<bar>event - (daw_first w + int j * int period)\<bar> \<le> int skew"
    then show "\<exists>k. k \<le> f \<and> p0 \<le> k \<and> \<bar>event - (origin + int (k * period))\<bar> \<le> int skew"
      using w(3) by (intro exI [of _ "p0 + j"]) (auto simp: algebra_simps p0_def)
  next
    fix k assume k: "k \<le> f" "p0 \<le> k" "\<bar>event - (origin + int (k * period))\<bar> \<le> int skew"
    then show "\<exists>j \<le> f - p0. \<bar>event - (daw_first w + int j * int period)\<bar> \<le> int skew"
      using w(3) by (intro exI [of _ "k - p0"]) (auto simp: algebra_simps of_nat_diff)
  qed
  with daw_contains_spec [OF w(2) assms(3)] w False show ?thesis
    unfolding le gt retained [symmetric] by auto
qed

theorem admission_window_exact_witness:
  "\<exists>w. reached 100 6000 10 3 = Some (Some w) \<and> daw_contains w 5997 = Some True"
proof -
  have v: "valid_timestamp 100" "valid_timestamp 6000" "valid_timestamp 5997" by (simp_all add: timestamp_defs)
  have "\<exists>position. 100 + int (position * 10) \<le> 6000 \<and>
        6000 < 100 + int ((position + RETAINED_POSITION_COUNT) * 10) \<and>
        \<bar>5997 - (100 + int (position * 10))\<bar> \<le> int 3"
    by (intro exI [of _ 590]) (simp add: RETAINED_POSITION_COUNT_def)
  with admission_window_exact [OF v, of 10 3] show ?thesis by simp
qed

end
