(* ===== verification/Admission_Kernel.thy ===== *)
theory Admission_Kernel
  imports Division Domain_Clock "HOL-Library.Word"
begin

unbundle bit_operations_syntax

text \<open>
  The column kernel of paced-domain admission (crates/simd-kernels/src/admission.rs) and its caller
  \<open>DomainAdmissionWindow::admit_column\<close> (crates/models/src/domain_clock/admission.rs).

  A register of lanes is a list of 64-bit words of the register's width, an operation on registers
  acts on every lane, and a comparison gives a mask with one bit per lane. The arithmetic of a lane
  wraps, as the source relies on. The width, which depends on the instruction set that is
  dispatched to, is a parameter.
\<close>

section \<open>Data\<close>

datatype period_reduction =
    NoGaps
  | PowerOfTwo "64 word"
  | Reciprocal "64 word"

record admission_kernel =
  ak_first :: "64 word"
  ak_last :: "64 word"
  ak_skew :: "64 word"
  ak_period :: "64 word"
  ak_reduction :: period_reduction

definition ak_new :: "64 word \<Rightarrow> 64 word \<Rightarrow> 64 word \<Rightarrow> 64 word \<Rightarrow> admission_kernel panics" where
  "ak_new first final period skew = do {
     reduction \<leftarrow>
       (if period = 1 \<or> div_ceil (unat period) 2 \<le> unat skew then Some NoGaps
        else if is_power_of_two (unat period) then Some (PowerOfTwo (period - 1))
        else do {
          multiplier \<leftarrow> try_from u64_max (2 ^ 64 div unat period);
          Some (Reciprocal (word_of_nat multiplier))
        });
     Some \<lparr>ak_first = first, ak_last = final, ak_skew = skew, ak_period = period, ak_reduction = reduction\<rparr>
   }"

section \<open>Lanes\<close>

definition to_bitmask :: "bool list \<Rightarrow> 64 word" where
  "to_bitmask bs = horner_sum of_bool 2 bs"

definition product_high :: "64 word \<Rightarrow> 64 word \<Rightarrow> 64 word" where
  "product_high left right =
     (let low_mask = 0xFFFFFFFF;
          left_low = left AND low_mask;
          right_low = right AND low_mask;
          left_high = drop_bit 32 left;
          right_high = drop_bit 32 right;
          low = left_low * right_low;
          cross_left = left_high * right_low;
          cross_right = left_low * right_high;
          high = left_high * right_high;
          middle = drop_bit 32 low + (cross_left AND low_mask) + (cross_right AND low_mask)
      in high + drop_bit 32 cross_left + drop_bit 32 cross_right + drop_bit 32 middle)"

definition admitted_remainders :: "admission_kernel \<Rightarrow> 64 word list \<Rightarrow> 64 word" where
  "admitted_remainders k remainder =
     to_bitmask (map (\<lambda>r. r \<le> ak_skew k) remainder) OR
     to_bitmask (map (\<lambda>r. ak_period k - r \<le> ak_skew k) remainder)"

text \<open>The mask of admitted lanes that \<open>admit_chunk\<close> computes.\<close>

definition chunk_mask :: "admission_kernel \<Rightarrow> 64 word list \<Rightarrow> 64 word" where
  "chunk_mask k lanes =
     (let before = to_bitmask (map (\<lambda>x. x <s ak_first k) lanes);
          after = to_bitmask (map (\<lambda>x. ak_last k <s x) lanes);
          distance_before = map (\<lambda>x. ak_first k - x) lanes;
          distance_after = map (\<lambda>x. x - ak_last k) lanes;
          admitted = (before AND to_bitmask (map (\<lambda>d. d \<le> ak_skew k) distance_before)) OR
                     (after AND to_bitmask (map (\<lambda>d. d \<le> ak_skew k) distance_after));
          interior = NOT (before OR after);
          elapsed = map (\<lambda>x. x - ak_first k) lanes
      in case ak_reduction k of
           NoGaps \<Rightarrow> admitted OR interior
         | PowerOfTwo period_mask \<Rightarrow>
             admitted OR (admitted_remainders k (map (\<lambda>e. e AND period_mask) elapsed) AND interior)
         | Reciprocal multiplier \<Rightarrow>
             let quotient = map (\<lambda>e. product_high e multiplier) elapsed;
                 provisional = map2 (\<lambda>e q. e - q * ak_period k) elapsed quotient;
                 remainder = map (\<lambda>p. if ak_period k \<le> p then p - ak_period k else p) provisional
             in admitted OR (admitted_remainders k remainder AND interior))"

fun set_rows :: "64 word \<Rightarrow> nat \<Rightarrow> nat list \<Rightarrow> 8 word list \<Rightarrow> 8 word list" where
  "set_rows admitted offset [] bits = bits"
| "set_rows admitted offset (lane # lanes) bits =
     set_rows admitted offset lanes
       (if admitted AND push_bit lane 1 \<noteq> 0
        then let row = offset + lane
             in bits[row div 8 := bits ! (row div 8) OR push_bit (row mod 8) 1]
        else bits)"

definition admit_chunk ::
  "admission_kernel \<Rightarrow> 64 word list \<Rightarrow> nat \<Rightarrow> nat \<Rightarrow> 8 word list \<Rightarrow> 8 word list" where
  "admit_chunk k lanes count offset bits = set_rows (chunk_mask k lanes) offset [0..<count] bits"

text \<open>The loop over the full chunks, then the tail padded with the first center.\<close>

function admit_chunks ::
  "nat \<Rightarrow> admission_kernel \<Rightarrow> 64 word list \<Rightarrow> nat \<Rightarrow> 8 word list \<Rightarrow> 8 word list" where
  "admit_chunks width k timestamps offset bits =
     (if width = 0 \<or> length timestamps < width then
        if timestamps = [] then bits
        else admit_chunk k (timestamps @ replicate (width - length timestamps) (ak_first k))
               (length timestamps) offset bits
      else admit_chunks width k (drop width timestamps) (offset + width)
             (admit_chunk k (take width timestamps) width offset bits))"
  by pat_completeness auto
termination by (relation "measure (\<lambda>(_, _, ts, _, _). length ts)") auto

definition ak_admit :: "nat \<Rightarrow> admission_kernel \<Rightarrow> 64 word list \<Rightarrow> 8 word list" where
  "ak_admit width k timestamps =
     admit_chunks width k timestamps 0 (replicate (div_ceil (length timestamps) 8) 0)"

text \<open>
  \<open>admit_column\<close>: the values of the column are signed 64-bit integers, an absent null buffer
  admits every row, and the packed bits are read least significant bit first.
\<close>

definition admit_column ::
  "nat \<Rightarrow> domain_admission_window \<Rightarrow> timestamp list \<Rightarrow> bool list option \<Rightarrow> bool list panics" where
  "admit_column width w events nulls = do {
     kernel \<leftarrow> ak_new (word_of_int (daw_first w)) (word_of_int (daw_last w))
       (word_of_nat (daw_period w)) (word_of_nat (daw_skew w));
     let bits = ak_admit width kernel (map word_of_int events);
     let admitted = map (\<lambda>i. bit (bits ! (i div 8)) (i mod 8)) [0..<length events];
     Some (case nulls of Some valid \<Rightarrow> map2 (\<and>) admitted valid | None \<Rightarrow> admitted)
   }"

declare admit_chunks.simps [simp del]

section \<open>The high half of a product\<close>

lemma carry_split:
  fixes cl cr lw B :: nat
  shows "(cl + cr) * B + lw =
    (cl div B + cr div B) * (B * B) + ((lw div B + cl mod B + cr mod B) * B + lw mod B)"
proof -
  have "(c1 * B + c0 + (d1 * B + d0)) * B + (l1 * B + l0) =
    (c1 + d1) * (B * B) + ((l1 + c0 + d0) * B + l0)" for c1 c0 d1 d0 l1 l0 :: nat
    by (simp add: algebra_simps)
  from this [of "cl div B" "cl mod B" "cr div B" "cr mod B" "lw div B" "lw mod B"]
  show ?thesis by (simp only: div_mult_mod_eq)
qed

lemma product_high_nat:
  fixes a b B :: nat
  assumes "0 < B"
  defines "al \<equiv> a mod B" and "ah \<equiv> a div B" and "bl \<equiv> b mod B" and "bh \<equiv> b div B"
  shows "ah * bh + ah * bl div B + al * bh div B +
    (al * bl div B + ah * bl mod B + al * bh mod B) div B = a * b div (B * B)"
proof -
  define mid where "mid = al * bl div B + ah * bl mod B + al * bh mod B"
  define X where "X = ah * bh + ah * bl div B + al * bh div B"
  have a: "a = ah * B + al" and b: "b = bh * B + bl" by (simp_all add: al_def ah_def bl_def bh_def)
  have "a * b = ah * bh * (B * B) + ((ah * bl + al * bh) * B + al * bl)"
    unfolding a b by (simp add: algebra_simps)
  also have "\<dots> = X * (B * B) + (mid * B + al * bl mod B)"
    unfolding X_def mid_def carry_split [of "ah * bl" "al * bh" B "al * bl"]
    by (simp only: distrib_right add.assoc)
  finally have "a * b = X * (B * B) + (mid * B + al * bl mod B)" .
  moreover have "(mid * B + al * bl mod B) div (B * B) = mid div B"
    using assms(1) by (simp add: div_mult2_eq)
  ultimately have "a * b div (B * B) = X + mid div B" using assms(1) by simp
  then show ?thesis by (simp add: X_def mid_def)
qed

lemma unat_and_low: "unat (x AND 0xFFFFFFFF) = unat x mod 2 ^ 32" for x :: "64 word"
proof -
  have "x AND 0xFFFFFFFF = take_bit 32 x" by (simp add: take_bit_eq_mask mask_eq_exp_minus_1)
  then have "unat (x AND 0xFFFFFFFF) = take_bit 32 (unat x)" by (simp only: unsigned_take_bit_eq)
  then show ?thesis by (simp only: take_bit_eq_mod)
qed

lemma unat_high: "unat (drop_bit 32 x) = unat x div 2 ^ 32" for x :: "64 word"
  unfolding unat_drop_bit_eq by (simp only: drop_bit_eq_div)

lemma unat_mult_halves:
  fixes x y :: "64 word"
  assumes "unat x < 2 ^ 32" and "unat y < 2 ^ 32"
  shows "unat (x * y) = unat x * unat y"
proof -
  have "unat x * unat y < 2 ^ 32 * 2 ^ 32" using assms by (intro mult_strict_mono) simp_all
  then show ?thesis using unat_mult_lem [of x y] by simp
qed

lemma unat_add_exact:
  fixes x y :: "64 word"
  shows "unat x + unat y < 2 ^ 64 \<Longrightarrow> unat (x + y) = unat x + unat y"
  using unat_add_lem [of x y] by simp

lemma unat_less_64: "unat w < 2 ^ 32 * 2 ^ 32" for w :: "64 word"
proof -
  have "unat w < 2 ^ LENGTH(64)" by (rule unsigned_less)
  then show ?thesis by simp
qed

lemma unat_product_high: "unat (product_high x y) = unat x * unat y div 2 ^ 64"
proof -
  let ?B = "2 ^ 32 :: nat"
  let ?a = "unat x" and ?b = "unat y"
  have bounds: "?a < ?B * ?B" "?b < ?B * ?B" by (rule unat_less_64)+
  then have halves: "?a div ?B < ?B" "?b div ?B < ?B" "?a mod ?B < ?B" "?b mod ?B < ?B"
    by (simp_all add: less_mult_imp_div_less)
  define ll lh rl rh where "ll = x AND 0xFFFFFFFF" and "lh = drop_bit 32 x"
    and "rl = y AND 0xFFFFFFFF" and "rh = drop_bit 32 y"
  have u: "unat ll = ?a mod ?B" "unat lh = ?a div ?B" "unat rl = ?b mod ?B" "unat rh = ?b div ?B"
    by (simp_all only: ll_def lh_def rl_def rh_def unat_and_low unat_high)
  have m: "unat (ll * rl) = unat ll * unat rl" "unat (lh * rl) = unat lh * unat rl"
    "unat (ll * rh) = unat ll * unat rh" "unat (lh * rh) = unat lh * unat rh"
    by (intro unat_mult_halves; simp only: u halves)+
  define mid where "mid = drop_bit 32 (ll * rl) + (lh * rl AND 0xFFFFFFFF) + (ll * rh AND 0xFFFFFFFF)"
  have small: "unat (drop_bit 32 w) < ?B" "unat (w AND 0xFFFFFFFF) < ?B" for w :: "64 word"
    using unat_less_64 [of w] by (simp_all only: unat_high unat_and_low less_mult_imp_div_less) simp_all
  have mid: "unat mid = unat ll * unat rl div ?B + unat lh * unat rl mod ?B + unat ll * unat rh mod ?B"
    unfolding mid_def using small [of "ll * rl"] small [of "lh * rl"] small [of "ll * rh"]
    by (simp add: unat_add_exact unat_high unat_and_low m)
  have total: "unat lh * unat rh + unat lh * unat rl div ?B + unat ll * unat rh div ?B + unat mid div ?B
      = ?a * ?b div 2 ^ 64"
    using product_high_nat [of ?B ?a ?b] unfolding mid u by simp
  have "?a * ?b div 2 ^ 64 < 2 ^ 64"
    using mult_strict_mono [OF bounds] bounds by (simp add: less_mult_imp_div_less)
  then have "unat (lh * rh + drop_bit 32 (lh * rl) + drop_bit 32 (ll * rh) + drop_bit 32 mid) =
      unat lh * unat rh + unat lh * unat rl div ?B + unat ll * unat rh div ?B + unat mid div ?B"
    using total by (simp add: unat_add_exact unat_high m)
  then show ?thesis
    using total by (simp add: product_high_def Let_def ll_def lh_def rl_def rh_def mid_def)
qed

section \<open>One lane\<close>

definition near_center :: "admission_kernel \<Rightarrow> 64 word \<Rightarrow> bool" where
  "near_center k r \<longleftrightarrow> r \<le> ak_skew k \<or> ak_period k - r \<le> ak_skew k"

definition lane_remainder :: "admission_kernel \<Rightarrow> 64 word \<Rightarrow> 64 word" where
  "lane_remainder k e =
     (case ak_reduction k of
        NoGaps \<Rightarrow> 0
      | PowerOfTwo m \<Rightarrow> e AND m
      | Reciprocal m \<Rightarrow>
          let p = e - product_high e m * ak_period k in if ak_period k \<le> p then p - ak_period k else p)"

definition lane_admitted :: "admission_kernel \<Rightarrow> 64 word \<Rightarrow> bool" where
  "lane_admitted k x \<longleftrightarrow>
     (if x <s ak_first k then ak_first k - x \<le> ak_skew k
      else if ak_last k <s x then x - ak_last k \<le> ak_skew k
      else ak_reduction k = NoGaps \<or> near_center k (lane_remainder k (x - ak_first k)))"

lemma bit_to_bitmask: "bit (to_bitmask bs) i \<longleftrightarrow> i < 64 \<and> i < length bs \<and> bs ! i"
  by (auto simp: to_bitmask_def bit_horner_sum_bit_word_iff)

lemma bit_chunk_mask:
  assumes "i < length lanes" and "i < 64" and "ak_first k <=s ak_last k"
  shows "bit (chunk_mask k lanes) i \<longleftrightarrow> lane_admitted k (lanes ! i)"
proof -
  have excl: "\<not> (lanes ! i <s ak_first k \<and> ak_last k <s lanes ! i)"
    using assms(3) by (auto simp: word_sless_alt word_sle_eq)
  show ?thesis
    using assms(1,2) excl
    by (cases "ak_reduction k")
      (auto simp: chunk_mask_def Let_def bit_or_iff bit_and_iff bit_not_iff bit_to_bitmask
        lane_admitted_def admitted_remainders_def near_center_def lane_remainder_def)
qed

lemma sint_timestamp: "valid_timestamp t \<Longrightarrow> sint (word_of_int t :: 64 word) = t"
  by (simp add: timestamp_defs signed_take_bit_int_eq_self sint_sbintrunc')

lemma unat_signed_diff:
  fixes a b :: "64 word"
  assumes "sint a \<le> sint b"
  shows "int (unat (b - a)) = sint b - sint a"
proof -
  have "b - a = word_of_int (sint b - sint a)" by simp
  moreover have "sint b - sint a < 2 ^ 64"
    using sint_less [of b] sint_greater_eq [of a] by simp
  ultimately have "uint (b - a) = sint b - sint a"
    using assms by (simp only: uint_word_of_int) simp
  then show ?thesis by simp
qed

lemma unat_word_of_nat: "n < 2 ^ 64 \<Longrightarrow> unat (word_of_nat n :: 64 word) = n"
  by (simp add: unsigned_of_nat take_bit_nat_eq_self)

lemma ak_new_ok:
  assumes "period \<noteq> 0"
  shows "\<exists>red. ak_new first final period skew = Some
    \<lparr>ak_first = first, ak_last = final, ak_skew = skew, ak_period = period, ak_reduction = red\<rparr> \<and>
    (red = NoGaps \<and> (unat period = 1 \<or> div_ceil (unat period) 2 \<le> unat skew) \<or>
     (\<exists>j. red = PowerOfTwo (period - 1) \<and> unat period = 2 ^ j) \<or>
     red = Reciprocal (word_of_nat (2 ^ 64 div unat period)) \<and> 2 ^ 64 div unat period < 2 ^ 64)"
proof -
  have "2 ^ 64 div unat period \<le> u64_max" if "period \<noteq> 1"
  proof -
    have "unat period \<noteq> 1" using that by (metis unsigned_1 unsigned_word_eqI)
    then have "2 \<le> unat period" using assms unat_eq_zero [of period] by linarith
    then have "2 ^ 64 div unat period \<le> 2 ^ 64 div 2" by (intro div_le_mono2) simp_all
    then show ?thesis by (simp add: u64_max_def)
  qed
  then show ?thesis
    by (auto simp: ak_new_def try_from_def is_power_of_two_iff u64_max_def)
qed

lemma lane_remainder_exact:
  assumes "ak_new first final period skew = Some k" and "period \<noteq> 0" and "ak_reduction k \<noteq> NoGaps"
  shows "unat (lane_remainder k e) = unat e mod unat period"
proof -
  have p: "0 < unat period" using assms(2) by (simp add: unat_gt_0)
  have kp: "ak_period k = period" using ak_new_ok [OF assms(2), of first final skew] assms(1) by auto
  consider j where "ak_reduction k = PowerOfTwo (period - 1)" "unat period = 2 ^ j"
    | "ak_reduction k = Reciprocal (word_of_nat (2 ^ 64 div unat period))" "2 ^ 64 div unat period < 2 ^ 64"
    using ak_new_ok [OF assms(2), of first final skew] assms(1,3) by auto
  then show ?thesis
  proof cases
    case 1
    have "unat (period - 1) = 2 ^ j - 1" using p 1 by (simp add: unat_sub word_le_nat_alt)
    then have "unat (e AND (period - 1)) = take_bit j (unat e)"
      by (simp add: unsigned_and_eq take_bit_eq_mask mask_eq_exp_minus_1)
    then show ?thesis using 1 by (simp add: lane_remainder_def take_bit_eq_mod)
  next
    case 2
    let ?d = "unat period" and ?n = "unat e"
    let ?q = "?n * (2 ^ 64 div ?d) div 2 ^ 64"
    have "?n < 2 ^ 64" using unat_less_64 [of e] by simp
    note est = reciprocal_estimate [OF p this]
    have "unat (word_of_nat (2 ^ 64 div ?d) :: 64 word) = 2 ^ 64 div ?d"
      using 2(2) by (rule unat_word_of_nat)
    then have q: "unat (product_high e (word_of_nat (2 ^ 64 div ?d))) = ?q" by (simp only: unat_product_high)
    let ?Q = "product_high e (word_of_nat (2 ^ 64 div ?d))"
    have "?q * ?d < 2 ^ 64" using est(1) \<open>?n < 2 ^ 64\<close> by (rule le_less_trans)
    then have qd: "unat (?Q * period) = ?q * ?d" using unat_mult_lem [of ?Q period] by (simp only: q len_of_numeral_defs) simp
    then have prov: "unat (e - ?Q * period) = ?n - ?q * ?d"
      using est(1) by (simp add: unat_sub word_le_nat_alt)
    show ?thesis
      using 2(1) prov div_mod_by_estimate(2) [OF est]
      by (simp add: lane_remainder_def kp Let_def word_le_nat_alt unat_sub)
  qed
qed

lemma lane_exact:
  assumes inv: "daw_inv w n" and fits: "daw_period w \<le> u64_max" "daw_skew w \<le> u64_max"
    and e: "valid_timestamp event"
    and k: "ak_new (word_of_int (daw_first w)) (word_of_int (daw_last w))
      (word_of_nat (daw_period w)) (word_of_nat (daw_skew w)) = Some k"
  shows "daw_contains w event = Some (lane_admitted k (word_of_int event))"
proof -
  let ?F = "daw_first w" and ?L = "daw_last w" and ?P = "daw_period w" and ?S = "daw_skew w"
  let ?x = "word_of_int event :: 64 word"
  have w: "valid_timestamp ?F" "valid_timestamp ?L" "0 < ?P" "?F \<le> ?L"
    using inv by (auto simp: daw_inv_def)
  have uP: "unat (word_of_nat ?P :: 64 word) = ?P" and uS: "unat (word_of_nat ?S :: 64 word) = ?S"
    using fits by (auto intro!: unat_word_of_nat simp: u64_max_def)
  have P0: "(word_of_nat ?P :: 64 word) \<noteq> 0" using uP w(3) by (metis less_irrefl unsigned_0)
  obtain red where kk: "k = \<lparr>ak_first = word_of_int ?F, ak_last = word_of_int ?L,
      ak_skew = word_of_nat ?S, ak_period = word_of_nat ?P, ak_reduction = red\<rparr>"
    and gaps: "red = NoGaps \<Longrightarrow> ?P = 1 \<or> div_ceil ?P 2 \<le> ?S"
    using ak_new_ok [OF P0, of "word_of_int ?F" "word_of_int ?L" "word_of_nat ?S"] k uP uS by auto
  note s = sint_timestamp [OF w(1)] sint_timestamp [OF w(2)] sint_timestamp [OF e]
  have before: "?x <s word_of_int ?F \<longleftrightarrow> event < ?F" and after: "word_of_int ?L <s ?x \<longleftrightarrow> ?L < event"
    by (simp_all only: word_sless_alt s)
  consider "event < ?F" | "\<not> event < ?F" "?L < event" | "\<not> event < ?F" "\<not> ?L < event" by linarith
  then show ?thesis
  proof cases
    case 1
    have "int (unat (word_of_int ?F - ?x)) = ?F - event" using unat_signed_diff [of ?x "word_of_int ?F"] 1 s by simp
    then have "unat (word_of_int ?F - ?x) = nat (?F - event)" by linarith
    then show ?thesis using 1 w e before uS
      by (simp add: daw_contains_def ts_duration_since_ok lane_admitted_def kk word_le_nat_alt)
  next
    case 2
    have "int (unat (?x - word_of_int ?L)) = event - ?L" using unat_signed_diff [of "word_of_int ?L" ?x] 2 s by simp
    then have "unat (?x - word_of_int ?L) = nat (event - ?L)" by linarith
    then show ?thesis using 2 w e before after uS
      by (simp add: daw_contains_def ts_duration_since_ok lane_admitted_def kk word_le_nat_alt)
  next
    case 3
    have "int (unat (?x - word_of_int ?F)) = event - ?F" using unat_signed_diff [of "word_of_int ?F" ?x] 3 s by simp
    then have el: "unat (?x - word_of_int ?F) = nat (event - ?F)" by linarith
    let ?r = "nat (event - ?F) mod ?P"
    have r: "?r < ?P" using w(3) by simp
    have here: "daw_contains w event = Some (?r \<le> ?S \<or> ?P - ?r \<le> ?S)"
      using 3 w e r by (simp add: daw_contains_def ts_duration_since_ok checked_sub_def Let_def less_imp_le)
    show ?thesis
    proof (cases "red = NoGaps")
      case True
      have "?r \<le> ?S \<or> ?P - ?r \<le> ?S"
      proof (cases "?P = 1")
        case False
        then have "div_ceil ?P 2 \<le> ?S" using gaps True by blast
        then have "?P \<le> 2 * ?S" using div_ceil_covers [of 2 ?P] by linarith
        then show ?thesis by linarith
      qed simp
      then show ?thesis using here 3 before after True by (simp add: lane_admitted_def kk)
    next
      case False
      have "unat (lane_remainder k (?x - word_of_int ?F)) = ?r"
        using lane_remainder_exact [OF k P0] False el uP by (simp add: kk)
      then have "near_center k (lane_remainder k (?x - word_of_int ?F)) \<longleftrightarrow> ?r \<le> ?S \<or> ?P - ?r \<le> ?S"
        using r uP uS by (simp add: near_center_def kk word_le_nat_alt unat_sub less_imp_le)
      then show ?thesis using here 3 before after False by (simp add: lane_admitted_def kk)
    qed
  qed
qed

section \<open>Rows\<close>

definition row_bit :: "8 word list \<Rightarrow> nat \<Rightarrow> bool" where
  "row_bit bits r = bit (bits ! (r div 8)) (r mod 8)"

lemma length_set_rows: "length (set_rows admitted offset lanes bits) = length bits"
  by (induction lanes arbitrary: bits) (simp_all add: Let_def)

lemma row_bit_set:
  assumes "row < 8 * length bits" and "r < 8 * length bits"
  shows "row_bit (bits[row div 8 := bits ! (row div 8) OR 2 ^ (row mod 8)]) r \<longleftrightarrow>
    row_bit bits r \<or> r = row"
proof -
  have "row div 8 < length bits" using assms(1) by (simp add: div_less_iff_less_mult)
  moreover have "r = row \<longleftrightarrow> r div 8 = row div 8 \<and> r mod 8 = row mod 8"
    by (metis div_mult_mod_eq)
  ultimately show ?thesis
    by (auto simp: row_bit_def nth_list_update bit_or_iff bit_exp_iff)
qed

lemma row_bit_set_rows:
  assumes "\<forall>lane \<in> set lanes. offset + lane < 8 * length bits" and "r < 8 * length bits"
  shows "row_bit (set_rows admitted offset lanes bits) r \<longleftrightarrow>
    row_bit bits r \<or> (\<exists>lane \<in> set lanes. r = offset + lane \<and> bit admitted lane)"
  using assms
proof (induction lanes arbitrary: bits)
  case (Cons lane lanes)
  have "admitted AND push_bit lane 1 \<noteq> 0 \<longleftrightarrow> bit admitted lane"
    by (simp add: bit_iff_and_push_bit_not_eq_0)
  with Cons show ?case by (auto simp: Let_def row_bit_set)
qed simp

lemma row_bit_admit_chunk:
  assumes "ak_first k <=s ak_last k" and "count \<le> length lanes" and "count \<le> 64"
    and "offset + count \<le> 8 * length bits" and "r < 8 * length bits"
  shows "row_bit (admit_chunk k lanes count offset bits) r \<longleftrightarrow>
    row_bit bits r \<or> (offset \<le> r \<and> r < offset + count \<and> lane_admitted k (lanes ! (r - offset)))"
proof -
  have "row_bit (admit_chunk k lanes count offset bits) r \<longleftrightarrow>
    row_bit bits r \<or> (\<exists>lane < count. r = offset + lane \<and> bit (chunk_mask k lanes) lane)"
    using assms(4,5) unfolding admit_chunk_def by (subst row_bit_set_rows) auto
  also have "\<dots> \<longleftrightarrow>
    row_bit bits r \<or> (offset \<le> r \<and> r < offset + count \<and> bit (chunk_mask k lanes) (r - offset))"
    by (auto simp: le_iff_add)
  also have "\<dots> \<longleftrightarrow>
    row_bit bits r \<or> (offset \<le> r \<and> r < offset + count \<and> lane_admitted k (lanes ! (r - offset)))"
    using bit_chunk_mask [OF _ _ assms(1), of "r - offset" lanes] assms(2,3) by auto
  finally show ?thesis .
qed

lemma row_bit_admit_chunks:
  assumes "ak_first k <=s ak_last k" and "0 < width" and "width \<le> 64"
    and "offset + length ts \<le> 8 * length bits" and "r < 8 * length bits"
  shows "row_bit (admit_chunks width k ts offset bits) r \<longleftrightarrow>
    row_bit bits r \<or> (offset \<le> r \<and> r < offset + length ts \<and> lane_admitted k (ts ! (r - offset)))"
  using assms
proof (induction width k ts offset bits rule: admit_chunks.induct)
  case (1 width k ts offset bits)
  show ?case
  proof (cases "length ts < width")
    case True
    let ?lanes = "ts @ replicate (width - length ts) (ak_first k)"
    have "ts \<noteq> [] \<Longrightarrow> admit_chunks width k ts offset bits = admit_chunk k ?lanes (length ts) offset bits"
      using True by (simp add: admit_chunks.simps)
    moreover have "admit_chunks width k [] offset bits = bits" using "1.prems" by (simp add: admit_chunks.simps)
    ultimately show ?thesis
      using row_bit_admit_chunk [of k "length ts" ?lanes offset bits r] "1.prems" True
      by (cases "ts = []") (auto simp: nth_append)
  next
    case False
    let ?bits = "admit_chunk k (take width ts) width offset bits"
    have len: "length ?bits = length bits" by (simp add: admit_chunk_def length_set_rows)
    have rec: "admit_chunks width k ts offset bits =
      admit_chunks width k (drop width ts) (offset + width) ?bits"
      using False "1.prems" by (simp add: admit_chunks.simps [of width k ts])
    have "row_bit (admit_chunks width k ts offset bits) r \<longleftrightarrow> row_bit ?bits r \<or>
      (offset + width \<le> r \<and> r < offset + length ts \<and> lane_admitted k (drop width ts ! (r - (offset + width))))"
      unfolding rec using "1.IH" False "1.prems" len by simp
    moreover have "row_bit ?bits r \<longleftrightarrow> row_bit bits r \<or>
      (offset \<le> r \<and> r < offset + width \<and> lane_admitted k (take width ts ! (r - offset)))"
      using False "1.prems" by (intro row_bit_admit_chunk) auto
    moreover have "drop width ts ! (r - (offset + width)) = ts ! (r - offset)" if "offset + width \<le> r" "r < offset + length ts"
      using that False by simp
    moreover have "take width ts ! (r - offset) = ts ! (r - offset)" if "offset \<le> r" "r < offset + width"
      using that by simp
    ultimately show ?thesis using False by (cases "offset + width \<le> r") auto
  qed
qed

text \<open>
  C4: the column kernel computes the admission window. For a window that the clock reached and a
  column of any length, on registers of any width up to 64 lanes, the packed result of the kernel,
  which uses wrapping differences, a mask or a reciprocal with one correction, and a multiplication
  of 32-bit halves, admits a row exactly when the row is not null and the scalar test
  \<open>daw_contains\<close> admits its timestamp.
\<close>

theorem admit_column_exact:
  assumes "valid_timestamp origin" and "valid_timestamp now" and "0 < period" and "period \<le> u64_max"
    and "skew \<le> u64_max" and "reached origin now period skew = Some (Some w)"
    and "\<forall>event \<in> set events. valid_timestamp event" and "0 < width" and "width \<le> 64"
    and "\<forall>valid. nulls = Some valid \<longrightarrow> length valid = length events"
  shows "\<exists>admitted. admit_column width w events nulls = Some admitted \<and> length admitted = length events \<and>
    (\<forall>i < length events. daw_contains w (events ! i) \<noteq> panic \<and>
       (admitted ! i \<longleftrightarrow> (\<forall>valid. nulls = Some valid \<longrightarrow> valid ! i) \<and> daw_contains w (events ! i) = Some True))"
proof -
  have "origin \<le> now" using assms(1,2,6) by (cases "origin \<le> now") (auto simp: reached_def ts_duration_since_ok)
  then obtain n where inv: "daw_inv w n" and w: "daw_period w = period" "daw_skew w = skew"
    using reached_ok [OF assms(1-3), of skew] assms(6) by auto
  have "unat (word_of_nat period :: 64 word) = period"
    using assms(4) by (intro unat_word_of_nat) (simp add: u64_max_def)
  then have P0: "(word_of_nat period :: 64 word) \<noteq> 0" using assms(3) by (metis less_irrefl unsigned_0)
  obtain k where k: "ak_new (word_of_int (daw_first w)) (word_of_int (daw_last w))
      (word_of_nat (daw_period w)) (word_of_nat (daw_skew w)) = Some k"
    and kb: "ak_first k = word_of_int (daw_first w)" "ak_last k = word_of_int (daw_last w)"
    using ak_new_ok [OF P0, of "word_of_int (daw_first w)" "word_of_int (daw_last w)" "word_of_nat skew"] w by auto
  have le: "ak_first k <=s ak_last k"
  proof -
    have "valid_timestamp (daw_first w)" "valid_timestamp (daw_last w)" "daw_first w \<le> daw_last w"
      using inv by (auto simp: daw_inv_def)
    then show ?thesis by (simp add: kb word_sle_eq sint_timestamp)
  qed
  have lane: "daw_contains w (events ! i) = Some (lane_admitted k (word_of_int (events ! i)))"
    if "i < length events" for i
    using lane_exact [OF inv _ _ _ k] w assms that by simp
  let ?bits = "ak_admit width k (map word_of_int events)"
  have row: "row_bit ?bits i \<longleftrightarrow> lane_admitted k (word_of_int (events ! i))" if "i < length events" for i
  proof -
    have cover: "length events \<le> 8 * div_ceil (length events) 8"
      using div_ceil_covers [of 8 "length events"] by (simp add: mult.commute)
    then have "i div 8 < div_ceil (length events) 8" using that by (simp add: div_less_iff_less_mult)
    then have "\<not> row_bit (replicate (div_ceil (length events) 8) 0) i" by (simp add: row_bit_def)
    then show ?thesis
      using row_bit_admit_chunks [OF le assms(8,9), of 0 "map word_of_int events"
          "replicate (div_ceil (length events) 8) 0" i] cover that
      by (simp add: ak_admit_def)
  qed
  have col: "admit_column width w events nulls =
    Some (case nulls of Some valid \<Rightarrow> map2 (\<and>) (map (row_bit ?bits) [0..<length events]) valid
          | None \<Rightarrow> map (row_bit ?bits) [0..<length events])"
    unfolding admit_column_def k row_bit_def [abs_def] Let_def by simp
  show ?thesis
    unfolding col using assms(10) row lane by (cases nulls) auto
qed

theorem admit_column_exact_witness:
  "\<exists>w admitted. reached 100 6000 10 3 = Some (Some w) \<and>
     admit_column 4 w [5997, 5995, 3000, 3447] (Some [True, True, True, False]) = Some admitted \<and>
     (admitted ! 0 \<longleftrightarrow> daw_contains w 5997 = Some True)"
proof -
  have v: "valid_timestamp 100" "valid_timestamp 6000" by (simp_all add: timestamp_defs)
  obtain w where w: "reached 100 6000 10 3 = Some (Some w)" using reached_ok [OF v, of 10 3] by auto
  have "\<forall>event \<in> set [5997, 5995, 3000, 3447]. valid_timestamp event" by (simp add: timestamp_defs)
  from admit_column_exact [OF v _ _ _ w this, of 4 "Some [True, True, True, False]"]
  obtain admitted where a: "admit_column 4 w [5997, 5995, 3000, 3447] (Some [True, True, True, False]) = Some admitted"
    and "\<forall>i < 4. admitted ! i \<longleftrightarrow> [True, True, True, False] ! i \<and>
      daw_contains w ([5997, 5995, 3000, 3447] ! i) = Some True"
    by (auto simp: u64_max_def)
  then have "admitted ! 0 \<longleftrightarrow> daw_contains w 5997 = Some True" by fastforce
  with w a show ?thesis by blast
qed

end
