(* ===== verification/Expiry_Map.thy ===== *)
theory Expiry_Map
  imports Prelude
begin

text \<open>
  The hash-indexed map that keeps its values in expiration order
  (crates/expiry-map/src/lib.rs).

  The source keeps two views of every entry: the hash index owns the entry's allocation, and an
  intrusive list links the entries by raw pointer, oldest first. The model keeps both. An
  allocation is a \<open>node\<close> with its address; the index owns nodes, the order holds addresses only,
  and following an address that no owned node has is the undefined behaviour the source's
  \<open>SAFETY\<close> comments rule out. It is a panic here, so that a theorem about a result also says
  that every pointer that was followed was alive.

  The locale \<open>expiry_order\<close> is the interface the clients of the map use, with the contents of
  the map, oldest first, as its abstraction; the interpretation \<open>em\<close> at the end discharges its
  laws for the pointer model.
\<close>

section \<open>Data\<close>

text \<open>\<open>Entry\<close>, with the address of its allocation.\<close>

record ('k, 'v) node =
  node_addr :: nat
  node_key :: 'k
  node_value :: 'v

text \<open>
  \<open>ExpiryMap\<close>: the linked order, the index, and the address the next allocation gets, which no
  live allocation has.
\<close>

record ('k, 'v) expiry_map =
  em_order :: "nat list"
  em_entries :: "('k \<times> ('k, 'v) node) list"
  em_next :: nat

section \<open>Operations\<close>

definition em_new :: "('k, 'v) expiry_map" where
  "em_new = \<lparr>em_order = [], em_entries = [], em_next = 0\<rparr>"

text \<open>The node behind a pointer of the order list, found among the allocations the index owns.\<close>

definition deref :: "('k, 'v) expiry_map \<Rightarrow> nat \<Rightarrow> ('k, 'v) node panics" where
  "deref m p = map_option snd (find (\<lambda>(k, n). node_addr n = p) (em_entries m))"

text \<open>\<open>insert_shared\<close>, to which \<open>insert\<close> forwards.\<close>

definition em_insert :: "('k, 'v) expiry_map \<Rightarrow> 'k \<Rightarrow> 'v \<Rightarrow> bool \<times> ('k, 'v) expiry_map" where
  "em_insert m k v =
     (case map_of (em_entries m) k of
        Some _ \<Rightarrow> (False, m)
      | None \<Rightarrow>
          let node = \<lparr>node_addr = em_next m, node_key = k, node_value = v\<rparr>
          in (True, \<lparr>em_order = em_order m @ [node_addr node],
                     em_entries = (k, node) # em_entries m,
                     em_next = Suc (em_next m)\<rparr>))"

definition em_contains_key :: "('k, 'v) expiry_map \<Rightarrow> 'k \<Rightarrow> bool" where
  "em_contains_key m k = (map_of (em_entries m) k \<noteq> None)"

definition em_get :: "('k, 'v) expiry_map \<Rightarrow> 'k \<Rightarrow> 'v option" where
  "em_get m k = map_option node_value (map_of (em_entries m) k)"

definition em_get_shared :: "('k, 'v) expiry_map \<Rightarrow> 'k \<Rightarrow> ('k \<times> 'v) option" where
  "em_get_shared m k =
     map_option (\<lambda>n. (node_key n, node_value n)) (map_of (em_entries m) k)"

text \<open>\<open>unlink\<close>: withdraw one pointer from the order; the pointer must be linked.\<close>

definition unlink :: "nat list \<Rightarrow> nat \<Rightarrow> nat list panics" where
  "unlink order p = (if p \<in> set order then Some (remove1 p order) else panic)"

text \<open>
  \<open>renew\<close> hands out an exclusive borrow of the value. What the caller writes through it is the
  argument \<open>upd\<close>, applied before the borrow is released.
\<close>

definition em_renew ::
  "('k, 'v) expiry_map \<Rightarrow> 'k \<Rightarrow> ('v \<Rightarrow> 'v) \<Rightarrow> (('k \<times> 'v) option \<times> ('k, 'v) expiry_map) panics"
where
  "em_renew m k upd =
     (case map_of (em_entries m) k of
        None \<Rightarrow> Some (None, m)
      | Some stored \<Rightarrow> do {
          order \<leftarrow> unlink (em_order m) (node_addr stored);
          let node = stored\<lparr>node_value := upd (node_value stored)\<rparr>;
          Some (Some (node_key stored, node_value stored),
                m\<lparr>em_order := order @ [node_addr stored],
                  em_entries := map (\<lambda>(k', n). (k', if k' = k then node else n)) (em_entries m)\<rparr>)
        })"

definition em_oldest :: "('k, 'v) expiry_map \<Rightarrow> ('k \<times> 'v) option panics" where
  "em_oldest m =
     (case em_order m of
        [] \<Rightarrow> Some None
      | p # _ \<Rightarrow> do { n \<leftarrow> deref m p; Some (Some (node_key n, node_value n)) })"

text \<open>\<open>HashMap::remove_entry\<close>: the stored node, and the index without it.\<close>

definition remove_entry ::
  "('k \<times> ('k, 'v) node) list \<Rightarrow> 'k \<Rightarrow> (('k, 'v) node \<times> ('k \<times> ('k, 'v) node) list) option" where
  "remove_entry es k = map_option (\<lambda>n. (n, filter (\<lambda>(k', _). k' \<noteq> k) es)) (map_of es k)"

definition em_remove_oldest ::
  "('k, 'v) expiry_map \<Rightarrow> ('v option \<times> ('k, 'v) expiry_map) panics" where
  "em_remove_oldest m =
     (case em_order m of
        [] \<Rightarrow> Some (None, m)
      | p # rest \<Rightarrow> do {
          oldest \<leftarrow> deref m p;
          (node, es) \<leftarrow> remove_entry (em_entries m) (node_key oldest);
          if node_addr node = p
          then Some (Some (node_value node), m\<lparr>em_order := rest, em_entries := es\<rparr>)
          else panic
        })"

definition em_remove ::
  "('k, 'v) expiry_map \<Rightarrow> 'k \<Rightarrow> ('v option \<times> ('k, 'v) expiry_map) panics" where
  "em_remove m k =
     (case remove_entry (em_entries m) k of
        None \<Rightarrow> Some (None, m)
      | Some (node, es) \<Rightarrow> do {
          order \<leftarrow> unlink (em_order m) (node_addr node);
          Some (Some (node_value node), m\<lparr>em_order := order, em_entries := es\<rparr>)
        })"

definition em_clear :: "('k, 'v) expiry_map \<Rightarrow> ('k, 'v) expiry_map" where
  "em_clear m = m\<lparr>em_order := [], em_entries := []\<rparr>"

definition em_len :: "('k, 'v) expiry_map \<Rightarrow> nat" where
  "em_len m = length (em_entries m)"

definition em_is_empty :: "('k, 'v) expiry_map \<Rightarrow> bool" where
  "em_is_empty m = (em_entries m = [])"

text \<open>\<open>Iter\<close>: the pointers still to walk and the number of entries that remain.\<close>

record iter =
  iter_order :: "nat list"
  iter_remaining :: nat

definition em_iter :: "('k, 'v) expiry_map \<Rightarrow> iter" where
  "em_iter m = \<lparr>iter_order = em_order m, iter_remaining = length (em_entries m)\<rparr>"

definition iter_next :: "('k, 'v) expiry_map \<Rightarrow> iter \<Rightarrow> (('k \<times> 'v) option \<times> iter) panics" where
  "iter_next m it =
     (case iter_order it of
        [] \<Rightarrow> Some (None, it)
      | p # ps \<Rightarrow> do {
          n \<leftarrow> deref m p;
          remaining \<leftarrow> checked_sub (iter_remaining it) 1;
          Some (Some (node_key n, node_value n), \<lparr>iter_order = ps, iter_remaining = remaining\<rparr>)
        })"

lemma iter_next_shorter:
  "iter_next m it = Some (Some kv, it') \<Longrightarrow> length (iter_order it') < length (iter_order it)"
  by (auto simp: iter_next_def split: list.splits bind_splits)

text \<open>Walking the iterator to its end, the way a \<open>for\<close> loop over it does.\<close>

function iter_collect :: "('k, 'v) expiry_map \<Rightarrow> iter \<Rightarrow> ('k \<times> 'v) list panics" where
  "iter_collect m it =
     (case iter_next m it of
        None \<Rightarrow> panic
      | Some (None, _) \<Rightarrow> Some []
      | Some (Some kv, it') \<Rightarrow> map_option ((#) kv) (iter_collect m it'))"
  by pat_completeness auto
termination
  by (relation "measure (\<lambda>(m, it). length (iter_order it))") (auto dest: iter_next_shorter)

declare iter_collect.simps [simp del]

text \<open>\<open>iter_shared\<close>: the walk over the order alone, collected the same way.\<close>

fun walk_shared :: "('k, 'v) expiry_map \<Rightarrow> nat list \<Rightarrow> ('k \<times> 'v) list panics" where
  "walk_shared m [] = Some []"
| "walk_shared m (p # ps) = do {
     n \<leftarrow> deref m p;
     kvs \<leftarrow> walk_shared m ps;
     Some ((node_key n, node_value n) # kvs)
   }"

definition em_iter_shared :: "('k, 'v) expiry_map \<Rightarrow> ('k \<times> 'v) list panics" where
  "em_iter_shared m = walk_shared m (em_order m)"

section \<open>The invariant and the contents\<close>

text \<open>
  Both views hold the same entries: the index is keyed by each node's own key, no two nodes
  share an address, and the order links every owned node exactly once.
\<close>

definition em_inv :: "('k, 'v) expiry_map \<Rightarrow> bool" where
  "em_inv m \<longleftrightarrow>
     distinct (map fst (em_entries m)) \<and>
     (\<forall>(k, n) \<in> set (em_entries m). node_key n = k \<and> node_addr n < em_next m) \<and>
     distinct (map (node_addr \<circ> snd) (em_entries m)) \<and>
     distinct (em_order m) \<and>
     set (em_order m) = (node_addr \<circ> snd) ` set (em_entries m)"

text \<open>The entries the order links, oldest first.\<close>

definition em_contents :: "('k, 'v) expiry_map \<Rightarrow> ('k \<times> 'v) list" where
  "em_contents m =
     List.map_filter (\<lambda>p. map_option (\<lambda>n. (node_key n, node_value n)) (deref m p)) (em_order m)"

section \<open>Following pointers\<close>

lemma image_minus_point:
  "\<forall>e \<in> E. f e = p \<longleftrightarrow> P e \<Longrightarrow> {q \<in> f ` E. q \<noteq> p} = f ` {e \<in> E. \<not> P e}"
  by blast

lemma em_inv_order: "em_inv m \<Longrightarrow> distinct (em_order m)"
  by (simp add: em_inv_def)

lemma em_inv_key: "em_inv m \<Longrightarrow> (k, n) \<in> set (em_entries m) \<Longrightarrow> node_key n = k"
  by (auto simp: em_inv_def)

lemma em_inv_keys: "em_inv m \<Longrightarrow> distinct (map fst (em_entries m))"
  by (simp add: em_inv_def)

lemma find_addr:
  "distinct (map (node_addr \<circ> snd) es) \<Longrightarrow> (k, n) \<in> set es \<Longrightarrow>
   find (\<lambda>(k', n'). node_addr n' = node_addr n) es = Some (k, n)"
proof (induction es)
  case Nil
  then show ?case by simp
next
  case (Cons e es)
  show ?case
  proof (cases "e = (k, n)")
    case True
    then show ?thesis by simp
  next
    case False
    with Cons.prems have kn: "(k, n) \<in> set es" by simp
    then have "node_addr n \<in> set (map (node_addr \<circ> snd) es)" by force
    with Cons.prems(1) have "node_addr (snd e) \<noteq> node_addr n"
      by (metis comp_apply distinct.simps(2) list.map(2))
    with Cons kn show ?thesis by (simp add: case_prod_beta)
  qed
qed

lemma find_addr_None:
  "p \<notin> (node_addr \<circ> snd) ` set es \<Longrightarrow> find (\<lambda>(k', n'). node_addr n' = p) es = None"
  by (force simp: find_None_iff)

lemma deref_entry:
  "em_inv m \<Longrightarrow> (k, n) \<in> set (em_entries m) \<Longrightarrow> deref m (node_addr n) = Some n"
  by (simp add: em_inv_def deref_def find_addr)

lemma linked_entry:
  assumes "em_inv m" and "p \<in> set (em_order m)"
  obtains k n where "(k, n) \<in> set (em_entries m)" "node_addr n = p" "node_key n = k"
    "deref m p = Some n"
proof -
  from assms have "p \<in> (node_addr \<circ> snd) ` set (em_entries m)" by (simp add: em_inv_def)
  then obtain k n where kn: "(k, n) \<in> set (em_entries m)" "node_addr n = p" by auto
  with assms have "deref m p = Some n" using deref_entry by fastforce
  moreover from assms(1) kn have "node_key n = k" by (auto simp: em_inv_def)
  ultimately show thesis using kn that by blast
qed

text \<open>The key and value behind a linked pointer.\<close>

definition kv_at :: "('k, 'v) expiry_map \<Rightarrow> nat \<Rightarrow> 'k \<times> 'v" where
  "kv_at m p = (node_key (the (deref m p)), node_value (the (deref m p)))"

lemma em_contents_map: "em_inv m \<Longrightarrow> em_contents m = map (kv_at m) (em_order m)"
proof -
  assume inv: "em_inv m"
  have "List.map_filter (\<lambda>p. map_option (\<lambda>n. (node_key n, node_value n)) (deref m p)) ps =
    map (kv_at m) ps" if "set ps \<subseteq> set (em_order m)" for ps
    using that
  proof (induction ps)
    case Nil
    show ?case by (simp add: map_filter_simps)
  next
    case (Cons p ps)
    then obtain n where "deref m p = Some n" using linked_entry [OF inv] by (metis list.set_intros(1) subsetD)
    with Cons show ?case by (simp add: map_filter_simps kv_at_def)
  qed
  then show ?thesis by (simp add: em_contents_def)
qed

lemma kv_at_entry:
  "em_inv m \<Longrightarrow> (k, n) \<in> set (em_entries m) \<Longrightarrow> kv_at m (node_addr n) = (k, node_value n)"
  by (simp add: kv_at_def deref_entry) (auto simp: em_inv_def)

lemma set_em_contents:
  "em_inv m \<Longrightarrow> set (em_contents m) = (\<lambda>(k, n). (k, node_value n)) ` set (em_entries m)"
proof -
  assume inv: "em_inv m"
  then have "set (em_contents m) = kv_at m ` (node_addr \<circ> snd) ` set (em_entries m)"
    by (simp add: em_contents_map) (simp add: em_inv_def)
  also have "\<dots> = (\<lambda>(k, n). (k, node_value n)) ` set (em_entries m)"
    unfolding image_image by (rule image_cong) (auto simp: kv_at_entry [OF inv])
  finally show ?thesis .
qed

lemma fst_kv_at_inj: "em_inv m \<Longrightarrow> inj_on (fst \<circ> kv_at m) (set (em_order m))"
proof (rule inj_onI)
  fix p q
  assume inv: "em_inv m" and p: "p \<in> set (em_order m)" and q: "q \<in> set (em_order m)"
    and eq: "(fst \<circ> kv_at m) p = (fst \<circ> kv_at m) q"
  obtain k n where kn: "(k, n) \<in> set (em_entries m)" "node_addr n = p" "deref m p = Some n"
    "node_key n = k" using linked_entry [OF inv p] by metis
  obtain k' n' where kn': "(k', n') \<in> set (em_entries m)" "node_addr n' = q" "deref m q = Some n'"
    "node_key n' = k'" using linked_entry [OF inv q] by metis
  from eq kn kn' have "k = k'" by (simp add: kv_at_def)
  with inv kn kn' have "n = n'" by (auto simp: em_inv_def dest: eq_key_imp_eq_value)
  with kn kn' show "p = q" by simp
qed

lemma distinct_em_contents: "em_inv m \<Longrightarrow> distinct (map fst (em_contents m))"
  using fst_kv_at_inj [of m] em_inv_order [of m] by (simp add: em_contents_map distinct_map)

lemma length_em_contents: "em_inv m \<Longrightarrow> length (em_contents m) = length (em_entries m)"
proof -
  assume inv: "em_inv m"
  then have "length (em_order m) = card (set (map (node_addr \<circ> snd) (em_entries m)))"
    by (simp add: em_inv_def distinct_card [symmetric])
  also have "\<dots> = length (em_entries m)"
    using inv by (simp only: em_inv_def distinct_card) simp
  finally show ?thesis using inv by (simp add: em_contents_map)
qed

lemma map_of_em_contents:
  "em_inv m \<Longrightarrow> map_of (em_contents m) k = map_option node_value (map_of (em_entries m) k)"
proof -
  assume inv: "em_inv m"
  let ?es = "map (\<lambda>(k, n). (k, node_value n)) (em_entries m)"
  have "distinct (map fst ?es)" using inv by (simp add: em_inv_def comp_def case_prod_beta)
  moreover have "set ?es = set (em_contents m)" using inv by (simp add: set_em_contents)
  ultimately have "map_of (em_contents m) = map_of ?es"
    using inv by (simp add: map_of_inject_set distinct_em_contents)
  then show ?thesis by (simp add: map_of_map)
qed

section \<open>What each operation does to the contents\<close>

lemma map_of_entries_None:
  "em_inv m \<Longrightarrow> map_of (em_entries m) k = None \<longleftrightarrow> k \<notin> fst ` set (em_contents m)"
  by (simp add: map_of_eq_None_iff set_em_contents image_image case_prod_beta)

lemma em_insert_new:
  fixes m :: "('k, 'v) expiry_map" and v :: 'v
  assumes inv: "em_inv m" and k: "map_of (em_entries m) k = None"
  defines "m' \<equiv> snd (em_insert m k v)"
  shows "em_inv m'" and "em_contents m' = em_contents m @ [(k, v)]"
proof -
  let ?node = "\<lparr>node_addr = em_next m, node_key = k, node_value = v\<rparr>"
  have m': "m' = \<lparr>em_order = em_order m @ [em_next m], em_entries = (k, ?node) # em_entries m,
      em_next = Suc (em_next m)\<rparr>"
    by (simp add: m'_def em_insert_def k)
  have below: "\<forall>p \<in> set (em_order m). p < em_next m"
    using inv by (auto simp: em_inv_def)
  then have fresh: "em_next m \<notin> set (em_order m)" by blast
  from k have "k \<notin> fst ` set (em_entries m)" by (simp add: map_of_eq_None_iff)
  with inv fresh show inv': "em_inv m'"
    unfolding m' by (auto simp: em_inv_def less_Suc_eq comp_def)
  have "kv_at m' p = kv_at m p" if "p \<in> set (em_order m)" for p
    using that fresh by (auto simp: kv_at_def deref_def m')
  moreover have "kv_at m' (em_next m) = (k, v)"
    by (simp add: kv_at_def deref_def m')
  ultimately have "map (kv_at m') (em_order m') = map (kv_at m) (em_order m) @ [(k, v)]"
    by (simp add: m')
  then show "em_contents m' = em_contents m @ [(k, v)]"
    using em_contents_map [OF inv'] em_contents_map [OF inv] by simp
qed

lemma em_insert_spec:
  assumes "em_inv m"
  shows "fst (em_insert m k v) = (k \<notin> fst ` set (em_contents m))"
    and "em_inv (snd (em_insert m k v))"
    and "em_contents (snd (em_insert m k v)) =
      (if k \<in> fst ` set (em_contents m) then em_contents m else em_contents m @ [(k, v)])"
proof -
  have "em_insert m k v = (False, m)" if "map_of (em_entries m) k \<noteq> None"
    using that by (auto simp: em_insert_def)
  moreover have "fst (em_insert m k v)" if "map_of (em_entries m) k = None"
    using that by (simp add: em_insert_def Let_def)
  ultimately show "fst (em_insert m k v) = (k \<notin> fst ` set (em_contents m))"
    and "em_inv (snd (em_insert m k v))"
    and "em_contents (snd (em_insert m k v)) =
      (if k \<in> fst ` set (em_contents m) then em_contents m else em_contents m @ [(k, v)])"
    using em_insert_new [OF assms, of k v] map_of_entries_None [OF assms, of k] assms
    by (metis fst_conv snd_conv)+
qed

lemma em_get_spec: "em_inv m \<Longrightarrow> em_get m k = map_of (em_contents m) k"
  by (simp add: em_get_def map_of_em_contents)

lemma em_get_shared_spec:
  assumes inv: "em_inv m"
  shows "em_get_shared m k = map_option (Pair k) (map_of (em_contents m) k)"
proof (cases "map_of (em_entries m) k")
  case (Some n)
  then have "node_key n = k" using inv by (auto simp: em_inv_def dest!: map_of_SomeD)
  with Some show ?thesis by (simp add: em_get_shared_def map_of_em_contents [OF inv])
qed (simp add: em_get_shared_def map_of_em_contents [OF inv])

lemma em_contains_key_spec:
  "em_inv m \<Longrightarrow> em_contains_key m k = (k \<in> fst ` set (em_contents m))"
  using map_of_entries_None [of m k] by (auto simp: em_contains_key_def)

lemma em_len_spec: "em_inv m \<Longrightarrow> em_len m = length (em_contents m)"
  by (simp add: em_len_def length_em_contents)

lemma em_is_empty_spec: "em_inv m \<Longrightarrow> em_is_empty m = (em_contents m = [])"
  using length_em_contents [of m] by (auto simp: em_is_empty_def)

lemma em_oldest_spec:
  "em_inv m \<Longrightarrow> em_oldest m = Some (case em_contents m of [] \<Rightarrow> None | kv # _ \<Rightarrow> Some kv)"
proof (cases "em_order m")
  case Nil
  assume "em_inv m"
  with Nil show ?thesis by (simp add: em_oldest_def em_contents_map)
next
  case (Cons p ps)
  assume inv: "em_inv m"
  obtain n where "deref m p = Some n"
    using linked_entry [OF inv, of p] Cons by (metis list.set_intros(1))
  with Cons inv show ?thesis by (simp add: em_oldest_def em_contents_map kv_at_def)
qed

text \<open>Taking one node out of both views.\<close>

lemma em_take_out:
  assumes inv: "em_inv m" and kn: "(k, n) \<in> set (em_entries m)"
  defines "m' \<equiv> m\<lparr>em_order := remove1 (node_addr n) (em_order m),
                  em_entries := filter (\<lambda>(k', _). k' \<noteq> k) (em_entries m)\<rparr>"
  shows "em_inv m'" and "em_contents m' = filter (\<lambda>(k', _). k' \<noteq> k) (em_contents m)"
proof -
  let ?p = "node_addr n"
  have order: "remove1 ?p (em_order m) = filter (\<lambda>q. q \<noteq> ?p) (em_order m)"
    using em_inv_order [OF inv]
    by (auto simp: distinct_remove1_removeAll removeAll_filter_not_eq intro: filter_cong)
  have addr_key: "node_addr n' = ?p \<longleftrightarrow> k' = k" if "(k', n') \<in> set (em_entries m)" for k' n'
  proof -
    have "k' = k \<Longrightarrow> n' = n"
      using that kn eq_key_imp_eq_value [OF em_inv_keys [OF inv]] by blast
    moreover have "node_addr n' = ?p \<Longrightarrow> n' = n"
      using deref_entry [OF inv that] deref_entry [OF inv kn] by (metis option.inject)
    moreover have "n' = n \<Longrightarrow> k' = k"
      using em_inv_key [OF inv that] em_inv_key [OF inv kn] by blast
    ultimately show ?thesis by blast
  qed
  have "set (em_order m) = (node_addr \<circ> snd) ` set (em_entries m)"
    using inv by (simp add: em_inv_def)
  moreover have "\<forall>e \<in> set (em_entries m). (node_addr \<circ> snd) e = ?p \<longleftrightarrow> fst e = k"
    using addr_key by auto
  ultimately have "set (em_order m') = (node_addr \<circ> snd) ` set (em_entries m')"
    using image_minus_point [of "set (em_entries m)" "node_addr \<circ> snd" ?p "\<lambda>e. fst e = k"]
    unfolding m'_def order by (simp add: case_prod_beta)
  with inv show inv': "em_inv m'"
    by (auto simp: m'_def order em_inv_def distinct_map_filter')
  have "kv_at m' q = kv_at m q" if "q \<in> set (em_order m')" for q
  proof -
    from that have "q \<in> set (em_order m)" "q \<noteq> ?p" by (auto simp: m'_def order)
    then obtain k' n' where kn': "(k', n') \<in> set (em_entries m)" "node_addr n' = q"
      using linked_entry [OF inv] by metis
    with \<open>q \<noteq> ?p\<close> addr_key have "(k', n') \<in> set (em_entries m')" by (auto simp: m'_def)
    with kn' show ?thesis using kv_at_entry [OF inv'] kv_at_entry [OF inv] by fastforce
  qed
  then have "em_contents m' = map (kv_at m) (filter (\<lambda>q. q \<noteq> ?p) (em_order m))"
    by (simp add: em_contents_map [OF inv']) (simp add: m'_def order)
  also have "\<dots> = filter (\<lambda>(k', _). k' \<noteq> k) (map (kv_at m) (em_order m))"
  proof -
    have "(q \<noteq> ?p) = (fst (kv_at m q) \<noteq> k)" if linked: "q \<in> set (em_order m)" for q
    proof -
      obtain k' n' where "(k', n') \<in> set (em_entries m)" "node_addr n' = q"
        using linked_entry [OF inv linked] by metis
      then show ?thesis using addr_key kv_at_entry [OF inv] by fastforce
    qed
    then show ?thesis by (simp add: filter_map comp_def case_prod_beta cong: filter_cong)
  qed
  finally show "em_contents m' = filter (\<lambda>(k', _). k' \<noteq> k) (em_contents m)"
    using em_contents_map [OF inv] by simp
qed

lemma em_remove_oldest_spec:
  assumes inv: "em_inv m"
  shows "\<exists>m'. em_remove_oldest m =
      Some (case em_contents m of [] \<Rightarrow> None | (k, v) # _ \<Rightarrow> Some v, m') \<and>
      em_inv m' \<and> em_contents m' = tl (em_contents m)"
proof (cases "em_order m")
  case Nil
  with inv show ?thesis by (simp add: em_remove_oldest_def em_contents_map)
next
  case (Cons p ps)
  then obtain k n where kn: "(k, n) \<in> set (em_entries m)" "node_addr n = p" "node_key n = k"
    "deref m p = Some n"
    using linked_entry [OF inv, of p] by (metis list.set_intros(1))
  let ?m' = "m\<lparr>em_order := ps, em_entries := filter (\<lambda>(k', _). k' \<noteq> k) (em_entries m)\<rparr>"
  have "map_of (em_entries m) k = Some n" using em_inv_keys [OF inv] kn(1) by simp
  then have run: "em_remove_oldest m = Some (Some (node_value n), ?m')"
    using Cons kn by (simp add: em_remove_oldest_def remove_entry_def)
  have contents: "em_contents m = (k, node_value n) # map (kv_at m) ps"
    using Cons kn by (simp add: em_contents_map [OF inv] kv_at_def)
  have "remove1 (node_addr n) (em_order m) = ps" using Cons kn by simp
  with em_take_out [OF inv kn(1)] have "em_inv ?m'"
    and "em_contents ?m' = filter (\<lambda>(k', _). k' \<noteq> k) (em_contents m)" by simp_all
  moreover have "filter (\<lambda>(k', _). k' \<noteq> k) (em_contents m) = tl (em_contents m)"
    using distinct_em_contents [OF inv] by (force simp: contents filter_id_conv image_iff)
  ultimately show ?thesis using run contents by simp
qed

lemma em_remove_spec:
  assumes inv: "em_inv m"
  shows "\<exists>m'. em_remove m k = Some (map_of (em_contents m) k, m') \<and>
      em_inv m' \<and> em_contents m' = filter (\<lambda>(k', _). k' \<noteq> k) (em_contents m)"
proof (cases "map_of (em_entries m) k")
  case None
  then have "k \<notin> fst ` set (em_contents m)" using map_of_entries_None [OF inv] by blast
  then have "filter (\<lambda>(k', _). k' \<noteq> k) (em_contents m) = em_contents m"
    by (force simp: filter_id_conv)
  with None inv show ?thesis
    by (simp add: em_remove_def remove_entry_def map_of_em_contents)
next
  case (Some n)
  then have kn: "(k, n) \<in> set (em_entries m)" by (rule map_of_SomeD)
  then have "node_addr n \<in> set (em_order m)" using inv by (force simp: em_inv_def)
  with Some kn em_take_out [OF inv kn] inv show ?thesis
    by (simp add: em_remove_def remove_entry_def unlink_def map_of_em_contents)
qed

text \<open>
  A renewed entry keeps its key, takes what the caller writes, and becomes the newest. The two
  views stay together: renewing is taking the entry out and inserting it again.
\<close>

lemma em_renew_spec:
  assumes inv: "em_inv m" and k: "map_of (em_contents m) k = Some v"
  shows "\<exists>m'. em_renew m k upd = Some (Some (k, v), m') \<and> em_inv m' \<and>
      em_contents m' = filter (\<lambda>(k', _). k' \<noteq> k) (em_contents m) @ [(k, upd v)]"
proof -
  from k obtain n where n: "map_of (em_entries m) k = Some n" "node_value n = v"
    using inv by (auto simp: map_of_em_contents)
  then have kn: "(k, n) \<in> set (em_entries m)" by (simp add: map_of_SomeD)
  let ?p = "node_addr n" and ?n' = "n\<lparr>node_value := upd v\<rparr>"
  let ?chg = "\<lambda>(k', n'). (k', if k' = k then ?n' else n')"
  let ?m' = "m\<lparr>em_order := remove1 ?p (em_order m) @ [?p],
               em_entries := map ?chg (em_entries m)\<rparr>"
  let ?out = "m\<lparr>em_order := remove1 ?p (em_order m),
               em_entries := filter (\<lambda>(k', _). k' \<noteq> k) (em_entries m)\<rparr>"
  have key: "node_key n = k" using em_inv_key [OF inv kn] .
  have linked: "?p \<in> set (em_order m)" using inv kn by (force simp: em_inv_def)
  have run: "em_renew m k upd = Some (Some (k, v), ?m')"
    using n linked key by (simp add: em_renew_def unlink_def Let_def)
  have same: "n' = n" if "(k, n') \<in> set (em_entries m)" for n'
    using that kn eq_key_imp_eq_value [OF em_inv_keys [OF inv]] by blast
  have "(node_addr \<circ> snd) (?chg e) = (node_addr \<circ> snd) e" if e: "e \<in> set (em_entries m)" for e
  proof -
    obtain k' n' where "e = (k', n')" by (cases e)
    with e same show ?thesis by auto
  qed
  then have addrs: "map ((node_addr \<circ> snd) \<circ> ?chg) (em_entries m) = map (node_addr \<circ> snd) (em_entries m)"
    by (simp cong: map_cong)
  have fsts: "map (fst \<circ> ?chg) (em_entries m) = map fst (em_entries m)"
    by (simp add: comp_def case_prod_beta)
  have inv': "em_inv ?m'"
    unfolding em_inv_def
  proof (intro conjI)
    show "distinct (map fst (em_entries ?m'))" using em_inv_keys [OF inv] by (simp add: fsts)
    show "\<forall>(k', n') \<in> set (em_entries ?m'). node_key n' = k' \<and> node_addr n' < em_next ?m'"
      using inv kn key by (fastforce simp: em_inv_def)
    show "distinct (map (node_addr \<circ> snd) (em_entries ?m'))"
      using inv by (simp add: em_inv_def addrs)
    show "distinct (em_order ?m')" using em_inv_order [OF inv] by simp
    have "(node_addr \<circ> snd) ` set (em_entries ?m') = (node_addr \<circ> snd) ` set (em_entries m)"
      using arg_cong [OF addrs, of set] by (simp add: image_comp)
    then show "set (em_order ?m') = (node_addr \<circ> snd) ` set (em_entries ?m')"
      using inv linked by (auto simp: em_inv_def)
  qed
  have "kv_at ?m' q = kv_at ?out q" if q: "q \<in> set (em_order ?out)" for q
  proof -
    obtain k' n' where o: "(k', n') \<in> set (em_entries ?out)" "node_addr n' = q"
      using linked_entry [OF em_take_out(1) [OF inv kn] q] by metis
    then have "(k', n') \<in> set (em_entries ?m')" by (force split: if_splits)
    with o show ?thesis
      using kv_at_entry [OF inv'] kv_at_entry [OF em_take_out(1) [OF inv kn]] by fastforce
  qed
  moreover have "(k, ?n') \<in> set (em_entries ?m')" using kn by force
  then have "kv_at ?m' ?p = (k, upd v)" using kv_at_entry [OF inv'] by fastforce
  ultimately have "em_contents ?m' = em_contents ?out @ [(k, upd v)]"
    using em_contents_map [OF inv'] em_contents_map [OF em_take_out(1) [OF inv kn]] by simp
  then show ?thesis using run inv' em_take_out(2) [OF inv kn] by simp
qed

lemma em_clear_spec: "em_inv (em_clear m) \<and> em_contents (em_clear m) = []"
  by (simp add: em_inv_def em_contents_def em_clear_def map_filter_simps)

text \<open>Iteration walks the contents, and its count of remaining entries never runs out early.\<close>

lemma iter_collect_suffix:
  assumes inv: "em_inv m"
  shows "set ps \<subseteq> set (em_order m) \<Longrightarrow> length ps \<le> r \<Longrightarrow>
    iter_collect m \<lparr>iter_order = ps, iter_remaining = r\<rparr> = Some (map (kv_at m) ps)"
proof (induction ps arbitrary: r)
  case Nil
  show ?case by (simp add: iter_collect.simps iter_next_def)
next
  case (Cons p ps)
  obtain n where "deref m p = Some n"
    using linked_entry [OF inv, of p] Cons.prems(1) by (metis list.set_intros(1) subsetD)
  with Cons show ?case
    by (simp add: iter_collect.simps [of m "\<lparr>iter_order = p # ps, iter_remaining = r\<rparr>"]
        iter_next_def checked_sub_def kv_at_def)
qed

lemma em_iter_spec: "em_inv m \<Longrightarrow> iter_collect m (em_iter m) = Some (em_contents m)"
  using iter_collect_suffix [of m "em_order m"] length_em_contents [of m]
  by (simp add: em_iter_def em_contents_map)

lemma walk_shared_suffix:
  assumes inv: "em_inv m"
  shows "set ps \<subseteq> set (em_order m) \<Longrightarrow> walk_shared m ps = Some (map (kv_at m) ps)"
proof (induction ps)
  case (Cons p ps)
  obtain n where "deref m p = Some n"
    using linked_entry [OF inv, of p] Cons.prems by (metis list.set_intros(1) subsetD)
  with Cons show ?case by (simp add: kv_at_def)
qed simp

lemma em_iter_shared_spec: "em_inv m \<Longrightarrow> em_iter_shared m = Some (em_contents m)"
  by (simp add: em_iter_shared_def walk_shared_suffix em_contents_map)

section \<open>Interior mutation\<close>

text \<open>
  A value may hold an atomic, which a caller changes through the shared reference that \<open>get\<close>
  returns. Such a write changes the value in its allocation and neither view of the map.
\<close>

definition em_modify :: "('k, 'v) expiry_map \<Rightarrow> 'k \<Rightarrow> ('v \<Rightarrow> 'v) \<Rightarrow> ('k, 'v) expiry_map" where
  "em_modify m k f =
     m\<lparr>em_entries := map (\<lambda>(k', n). (k', if k' = k then n\<lparr>node_value := f (node_value n)\<rparr> else n)) (em_entries m)\<rparr>"

lemma find_map: "(\<And>x. P (g x) = P x) \<Longrightarrow> find P (map g xs) = map_option g (find P xs)"
  by (induction xs) auto

lemma map_filter_map_option: "List.map_filter (\<lambda>x. map_option g (f x)) xs = map g (List.map_filter f xs)"
  by (induction xs) (auto simp: map_filter_simps split: option.splits)

lemma em_modify_spec:
  assumes inv: "em_inv m"
  shows "em_inv (em_modify m k f) \<and>
    em_contents (em_modify m k f) = map (\<lambda>(k', v). (k', if k' = k then f v else v)) (em_contents m)"
proof -
  let ?g = "\<lambda>(k', n). (k', if k' = k then n\<lparr>node_value := f (node_value n)\<rparr> else n)"
  have addrs: "map (node_addr \<circ> snd) (map ?g es) = map (node_addr \<circ> snd) es"
    and keys: "map fst (map ?g es) = map fst es" for es by (auto split: prod.splits)
  have ent: "em_entries (em_modify m k f) = map ?g (em_entries m)" by (simp add: em_modify_def)
  have "em_inv (em_modify m k f)"
    unfolding em_inv_def
  proof (intro conjI)
    show "distinct (map fst (em_entries (em_modify m k f)))"
      unfolding ent keys using inv by (simp add: em_inv_def)
    show "\<forall>(k', n) \<in> set (em_entries (em_modify m k f)).
        node_key n = k' \<and> node_addr n < em_next (em_modify m k f)"
      using inv by (auto simp: em_inv_def em_modify_def)
    show "distinct (map (node_addr \<circ> snd) (em_entries (em_modify m k f)))"
      unfolding ent addrs using inv by (simp add: em_inv_def)
    show "distinct (em_order (em_modify m k f))" using inv by (simp add: em_inv_def em_modify_def)
    show "set (em_order (em_modify m k f)) = (node_addr \<circ> snd) ` set (em_entries (em_modify m k f))"
      using inv arg_cong [OF addrs [of "em_entries m"], of set]
      unfolding ent by (simp only: set_map) (simp add: em_inv_def em_modify_def)
  qed
  have "map_option (\<lambda>n. (node_key n, node_value n)) (deref (em_modify m k f) p) =
    map_option ((\<lambda>(k', v). (k', if k' = k then f v else v)) \<circ> (\<lambda>n. (node_key n, node_value n))) (deref m p)" for p
  proof -
    have "find (\<lambda>(k', n). node_addr n = p) (map ?g (em_entries m)) =
      map_option ?g (find (\<lambda>(k', n). node_addr n = p) (em_entries m))"
      by (rule find_map) (auto split: prod.splits)
    then show ?thesis
    proof (cases "find (\<lambda>(k', n). node_addr n = p) (em_entries m)")
      case (Some e)
      then have "e \<in> set (em_entries m)" using nth_mem by (fastforce simp: find_Some_iff)
      then have "node_key (snd e) = fst e" using inv by (cases e) (auto simp: em_inv_def)
      with Some \<open>find _ (map ?g _) = _\<close> show ?thesis
        by (cases e) (auto simp: deref_def em_modify_def)
    qed (simp add: deref_def em_modify_def)
  qed
  then have "em_contents (em_modify m k f) = map (\<lambda>(k', v). (k', if k' = k then f v else v)) (em_contents m)"
    unfolding em_contents_def by (simp add: map_filter_map_option em_modify_def flip: option.map_comp)
  with \<open>em_inv (em_modify m k f)\<close> show ?thesis by blast
qed

section \<open>Sequences of operations refine an ordered list\<close>

text \<open>
  The operations a caller can make, what each returns, and the abstract map they implement: a
  list of distinct keys and values, oldest first.
\<close>

datatype ('k, 'v) em_op =
  Insert 'k 'v | Contains_Key 'k | Get 'k | Get_Shared 'k | Renew 'k "'v \<Rightarrow> 'v" | Oldest
  | Remove_Oldest | Remove 'k | Iterate | Iterate_Shared | Clear | Len | Is_Empty

datatype ('k, 'v) em_out =
  Flag bool | Value "'v option" | Entry "('k \<times> 'v) option" | Entries "('k \<times> 'v) list" | Count nat | Done

fun em_exec ::
  "('k, 'v) em_op \<Rightarrow> ('k, 'v) expiry_map \<Rightarrow> (('k, 'v) em_out \<times> ('k, 'v) expiry_map) panics" where
  "em_exec (Insert k v) m = (let (b, m') = em_insert m k v in Some (Flag b, m'))"
| "em_exec (Contains_Key k) m = Some (Flag (em_contains_key m k), m)"
| "em_exec (Get k) m = Some (Value (em_get m k), m)"
| "em_exec (Get_Shared k) m = Some (Entry (em_get_shared m k), m)"
| "em_exec (Renew k upd) m = do { (kv, m') \<leftarrow> em_renew m k upd; Some (Entry kv, m') }"
| "em_exec Oldest m = do { kv \<leftarrow> em_oldest m; Some (Entry kv, m) }"
| "em_exec Remove_Oldest m = do { (v, m') \<leftarrow> em_remove_oldest m; Some (Value v, m') }"
| "em_exec (Remove k) m = do { (v, m') \<leftarrow> em_remove m k; Some (Value v, m') }"
| "em_exec Iterate m = do { kvs \<leftarrow> iter_collect m (em_iter m); Some (Entries kvs, m) }"
| "em_exec Iterate_Shared m = do { kvs \<leftarrow> em_iter_shared m; Some (Entries kvs, m) }"
| "em_exec Clear m = Some (Done, em_clear m)"
| "em_exec Len m = Some (Count (em_len m), m)"
| "em_exec Is_Empty m = Some (Flag (em_is_empty m), m)"

fun ordered_exec ::
  "('k, 'v) em_op \<Rightarrow> ('k \<times> 'v) list \<Rightarrow> ('k, 'v) em_out \<times> ('k \<times> 'v) list" where
  "ordered_exec (Insert k v) xs =
     (if k \<in> fst ` set xs then (Flag False, xs) else (Flag True, xs @ [(k, v)]))"
| "ordered_exec (Contains_Key k) xs = (Flag (k \<in> fst ` set xs), xs)"
| "ordered_exec (Get k) xs = (Value (map_of xs k), xs)"
| "ordered_exec (Get_Shared k) xs = (Entry (map_option (Pair k) (map_of xs k)), xs)"
| "ordered_exec (Renew k upd) xs =
     (case map_of xs k of
        None \<Rightarrow> (Entry None, xs)
      | Some v \<Rightarrow> (Entry (Some (k, v)), filter (\<lambda>(k', _). k' \<noteq> k) xs @ [(k, upd v)]))"
| "ordered_exec Oldest xs = (Entry (case xs of [] \<Rightarrow> None | kv # _ \<Rightarrow> Some kv), xs)"
| "ordered_exec Remove_Oldest xs =
     (Value (case xs of [] \<Rightarrow> None | (k, v) # _ \<Rightarrow> Some v), tl xs)"
| "ordered_exec (Remove k) xs = (Value (map_of xs k), filter (\<lambda>(k', _). k' \<noteq> k) xs)"
| "ordered_exec Iterate xs = (Entries xs, xs)"
| "ordered_exec Iterate_Shared xs = (Entries xs, xs)"
| "ordered_exec Clear xs = (Done, [])"
| "ordered_exec Len xs = (Count (length xs), xs)"
| "ordered_exec Is_Empty xs = (Flag (xs = []), xs)"

fun em_run ::
  "('k, 'v) em_op list \<Rightarrow> ('k, 'v) expiry_map \<Rightarrow>
   (('k, 'v) em_out list \<times> ('k, 'v) expiry_map) panics" where
  "em_run [] m = Some ([], m)"
| "em_run (x # xs) m = do { (out, m') \<leftarrow> em_exec x m; (outs, m'') \<leftarrow> em_run xs m';
     Some (out # outs, m'') }"

fun ordered_run ::
  "('k, 'v) em_op list \<Rightarrow> ('k \<times> 'v) list \<Rightarrow> ('k, 'v) em_out list \<times> ('k \<times> 'v) list" where
  "ordered_run [] xs = ([], xs)"
| "ordered_run (x # xs) kvs =
     (let (out, kvs') = ordered_exec x kvs; (outs, kvs'') = ordered_run xs kvs'
      in (out # outs, kvs''))"

lemma em_exec_refines:
  assumes inv: "em_inv m"
  shows "\<exists>m'. em_exec x m = Some (fst (ordered_exec x (em_contents m)), m') \<and> em_inv m' \<and>
    em_contents m' = snd (ordered_exec x (em_contents m))"
proof (cases x)
  case (Insert k v)
  then show ?thesis using em_insert_spec [OF inv, of k v] by (cases "em_insert m k v") auto
next
  case (Renew k upd)
  show ?thesis
  proof (cases "map_of (em_contents m) k")
    case None
    then have "map_of (em_entries m) k = None" by (simp add: map_of_em_contents [OF inv])
    with None Renew inv show ?thesis by (simp add: em_renew_def)
  next
    case (Some v)
    with Renew show ?thesis using em_renew_spec [OF inv Some, of upd] by auto
  qed
next
  case Remove_Oldest
  then show ?thesis using em_remove_oldest_spec [OF inv] by auto
next
  case (Remove k)
  then show ?thesis using em_remove_spec [OF inv, of k] by auto
qed (simp_all add: inv em_contains_key_spec em_get_spec em_get_shared_spec em_oldest_spec em_iter_spec
    em_iter_shared_spec em_clear_spec em_len_spec em_is_empty_spec)

lemma em_run_refines_from:
  "em_inv m \<Longrightarrow> \<exists>m'. em_run xs m = Some (fst (ordered_run xs (em_contents m)), m') \<and>
    em_inv m' \<and> em_contents m' = snd (ordered_run xs (em_contents m))"
proof (induction xs arbitrary: m)
  case Nil
  then show ?case by simp
next
  case (Cons x xs)
  obtain m' where m': "em_exec x m = Some (fst (ordered_exec x (em_contents m)), m')"
    "em_inv m'" "em_contents m' = snd (ordered_exec x (em_contents m))"
    using em_exec_refines [OF Cons.prems] by metis
  with Cons.IH [OF m'(2)] show ?case by (auto simp: case_prod_beta)
qed

lemma em_new_spec: "em_inv em_new \<and> em_contents em_new = []"
  by (simp add: em_inv_def em_new_def em_contents_def map_filter_simps)

text \<open>
  C1: The expiry map (crates/expiry-map) refines an ordered list of entries. For every sequence
  of its public operations on a new map, reads and walks included, no operation panics, which
  includes that the order list never follows a pointer to a released entry and that the list and
  the hash index never disagree; every returned value is the one the abstract list gives; and the
  entries the map holds afterwards, oldest first, are the abstract list's, with iteration yielding
  exactly them.
\<close>

theorem em_run_refines:
  "\<exists>m'. em_run xs em_new = Some (fst (ordered_run xs []), m') \<and>
    em_contents m' = snd (ordered_run xs []) \<and>
    iter_collect m' (em_iter m') = Some (snd (ordered_run xs []))"
  using em_run_refines_from [of em_new xs] em_new_spec em_iter_spec by metis

section \<open>The interface of the map\<close>

text \<open>
  What a client of the map relies on: the contents, oldest first, and what every operation does
  to them. None of the operations panics on a map that only these operations built.
\<close>

locale expiry_order =
  fixes inv :: "'m \<Rightarrow> bool"
    and contents :: "'m \<Rightarrow> ('k \<times> 'v) list"
    and new :: 'm
    and insert :: "'m \<Rightarrow> 'k \<Rightarrow> 'v \<Rightarrow> bool \<times> 'm"
    and contains_key :: "'m \<Rightarrow> 'k \<Rightarrow> bool"
    and get :: "'m \<Rightarrow> 'k \<Rightarrow> 'v option"
    and oldest :: "'m \<Rightarrow> ('k \<times> 'v) option panics"
    and remove_oldest :: "'m \<Rightarrow> ('v option \<times> 'm) panics"
    and remove :: "'m \<Rightarrow> 'k \<Rightarrow> ('v option \<times> 'm) panics"
    and len :: "'m \<Rightarrow> nat"
  assumes inv_new: "inv new"
    and contents_new: "contents new = []"
    and distinct_contents: "inv m \<Longrightarrow> distinct (map fst (contents m))"
    and insert_fst: "inv m \<Longrightarrow> fst (insert m k v) = (k \<notin> fst ` set (contents m))"
    and insert_inv: "inv m \<Longrightarrow> inv (snd (insert m k v))"
    and insert_contents: "inv m \<Longrightarrow> contents (snd (insert m k v)) =
      (if k \<in> fst ` set (contents m) then contents m else contents m @ [(k, v)])"
    and contains_key_iff: "inv m \<Longrightarrow> contains_key m k = (k \<in> fst ` set (contents m))"
    and get_eq: "inv m \<Longrightarrow> get m k = map_of (contents m) k"
    and oldest_eq: "inv m \<Longrightarrow>
      oldest m = Some (case contents m of [] \<Rightarrow> None | kv # _ \<Rightarrow> Some kv)"
    and remove_oldest_eq: "inv m \<Longrightarrow> \<exists>m'. remove_oldest m =
      Some (case contents m of [] \<Rightarrow> None | (k, v) # _ \<Rightarrow> Some v, m') \<and>
      inv m' \<and> contents m' = tl (contents m)"
    and remove_eq: "inv m \<Longrightarrow> \<exists>m'. remove m k = Some (map_of (contents m) k, m') \<and>
      inv m' \<and> contents m' = filter (\<lambda>(k', _). k' \<noteq> k) (contents m)"
    and len_eq: "inv m \<Longrightarrow> len m = length (contents m)"
begin

text \<open>
  A client's expiry loop removes the oldest entry until \<open>keep\<close> holds of the oldest value. It
  ends, and what it removes is exactly the longest prefix of the contents that is not kept.
\<close>

lemma sweep:
  assumes loop: "\<And>m. loop m = do {
      front \<leftarrow> oldest m;
      case front of
        None \<Rightarrow> Some m
      | Some (k, v) \<Rightarrow> do {
          stays \<leftarrow> keep v;
          if stays then Some m
          else do { (removed, m') \<leftarrow> remove_oldest m; case removed of None \<Rightarrow> panic | Some _ \<Rightarrow> loop m' }
        }
    }"
    and keep: "\<forall>(k, v) \<in> set (contents m). keep v = Some (kept v)"
    and "inv m"
  shows "\<exists>m'. loop m = Some m' \<and> inv m' \<and>
    contents m' = dropWhile (\<lambda>(k, v). \<not> kept v) (contents m)"
  using keep \<open>inv m\<close>
proof (induction "contents m" arbitrary: m)
  case Nil
  then show ?case using loop [of m] by (simp add: oldest_eq)
next
  case (Cons kv kvs)
  obtain k v where kv: "kv = (k, v)" by (cases kv)
  have oldest: "oldest m = Some (Some (k, v))"
    using oldest_eq [OF Cons.prems(2)] Cons.hyps(2) kv by (simp flip: Cons.hyps(2))
  have kept: "keep v = Some (kept v)" using Cons.prems(1) kv by (simp flip: Cons.hyps(2))
  show ?case
  proof (cases "kept v")
    case True
    then show ?thesis
      using loop [of m] oldest kept kv Cons.prems(2) by (simp flip: Cons.hyps(2))
  next
    case False
    obtain m' where m': "remove_oldest m = Some (Some v, m')" "inv m'" "contents m' = kvs"
      using remove_oldest_eq [OF Cons.prems(2)] kv by (auto simp flip: Cons.hyps(2))
    have "\<exists>m''. loop m' = Some m'' \<and> inv m'' \<and>
        contents m'' = dropWhile (\<lambda>(k, v). \<not> kept v) (contents m')"
      by (rule Cons.hyps(1)) (use m' Cons.prems(1) in \<open>auto simp flip: Cons.hyps(2)\<close>)
    then show ?thesis
      using loop [of m] oldest kept kv False m' by (simp flip: Cons.hyps(2))
  qed
qed

text \<open>An entry that was just inserted is found again, as long as its key was new.\<close>

lemma get_after_insert:
  "inv m \<Longrightarrow> k \<notin> fst ` set (contents m) \<Longrightarrow> get (snd (insert m k v)) k = Some v"
  by (simp add: get_eq insert_inv insert_contents map_add_def map_of_eq_None_iff [THEN iffD2]
      split: option.splits)

lemma get_other_after_insert:
  "inv m \<Longrightarrow> k' \<noteq> k \<Longrightarrow> get (snd (insert m k v)) k' = get m k'"
  by (simp add: get_eq insert_inv insert_contents map_add_def split: option.splits)

end

interpretation em: expiry_order em_inv em_contents em_new em_insert em_contains_key em_get
  em_oldest em_remove_oldest em_remove em_len
proof unfold_locales
  show "em_inv em_new" and "em_contents em_new = []" using em_new_spec by blast+
qed (auto simp: distinct_em_contents em_insert_spec em_contains_key_spec em_get_spec
    em_oldest_spec em_len_spec intro: em_remove_oldest_spec em_remove_spec)

end
