(* ===== verification/Rate_Quota.thy ===== *)
theory Rate_Quota
  imports Prelude
begin

text \<open>
  Validated allowances and the GCRA cell of the rate limiter (crates/rate-limit/src/quota.rs and
  cell.rs).

  The rate limiting algorithm itself is the governor crate. A call of its \<open>check_n\<close> reads the
  horizon of a cell, relative to the admission, and decides; that decision function is a parameter
  of the model, and \<open>gcra_documented\<close> is what the code relies on.
\<close>

section \<open>Quotas\<close>

datatype quota_error =
  ZeroCount | ZeroPeriod | CountExceedsPeriod | BurstRange | CostRange | HorizonRange | TtlRange

record quota =
  q_interval :: nanos
  q_burst :: nat
  q_horizon :: nanos

definition quota_new :: "nat \<Rightarrow> nanos \<Rightarrow> nat \<Rightarrow> quota_error + quota" where
  "quota_new count period burst =
     (if count = 0 then Inl ZeroCount
      else if period = 0 then Inl ZeroPeriod
      else if period < count then Inl CountExceedsPeriod
      else case try_from u32_max burst of
        None \<Rightarrow> Inl BurstRange
      | Some burst \<Rightarrow>
          if burst = 0 then Inl BurstRange
          else
            let interval = div_ceil period count
            in case checked_mul u128_max interval burst of
                 None \<Rightarrow> Inl HorizonRange
               | Some horizon \<Rightarrow>
                   if u64_max div 2 < horizon then Inl HorizonRange
                   else case try_from u64_max interval of
                     None \<Rightarrow> Inl HorizonRange
                   | Some interval \<Rightarrow>
                       (case try_from u64_max horizon of
                          None \<Rightarrow> Inl HorizonRange
                        | Some horizon \<Rightarrow>
                            Inr \<lparr>q_interval = interval, q_burst = burst, q_horizon = horizon\<rparr>))"

definition quota_cost :: "nat \<Rightarrow> quota_error + nat" where
  "quota_cost v =
     (case try_from u32_max v of
        None \<Rightarrow> Inl CostRange
      | Some v \<Rightarrow> if v = 0 then Inl CostRange else Inr v)"

record keyed_options =
  ko_ttl :: nanos
  ko_max_keys :: nat
  ko_shards :: nat

definition keyed_options_new :: "nanos \<Rightarrow> nat \<Rightarrow> nat \<Rightarrow> quota_error + keyed_options" where
  "keyed_options_new ttl max_keys shards =
     (if ttl = 0 \<or> u64_max < ttl then Inl TtlRange
      else Inr \<lparr>ko_ttl = ttl, ko_max_keys = max_keys, ko_shards = shards\<rparr>)"

section \<open>The cell\<close>

datatype gcra_decision =
    Conforming nanos
  | Not_until nanos
  | Insufficient

type_synonym gcra = "quota \<Rightarrow> nat \<Rightarrow> nanos \<Rightarrow> gcra_decision"

text \<open>The quotas that \<open>quota_new\<close> builds.\<close>

definition quota_ok :: "quota \<Rightarrow> bool" where
  "quota_ok q = (q_horizon q = q_interval q * q_burst q \<and> q_horizon q \<le> u64_max div 2)"

text \<open>
  What governor documents of \<open>check_n\<close>: only a cost above the burst is refused for good, and a
  decision stays within one burst of the admission.
\<close>

definition gcra_documented :: "gcra \<Rightarrow> bool" where
  "gcra_documented g = (\<forall>q cost relative. quota_ok q \<longrightarrow>
     (cost \<le> q_burst q \<longrightarrow> g q cost relative \<noteq> Insufficient) \<and>
     (\<forall>n. g q cost relative = Conforming n \<or> g q cost relative = Not_until n \<longrightarrow>
        relative \<le> q_horizon q \<longrightarrow> n \<le> q_horizon q))"

text \<open>
  \<open>RelativeStore::measure_and_replace\<close> under the exclusive borrow of the limiter: the compare and
  exchange sees no other writer, so its loop ends in the first round.
\<close>

definition measure_and_replace ::
  "gcra \<Rightarrow> quota \<Rightarrow> nat \<Rightarrow> nanos \<Rightarrow> nanos \<Rightarrow> (gcra_decision \<times> nanos) panics" where
  "measure_and_replace g q cost now stored =
     (let relative = stored - now
      in case g q cost relative of
           Conforming next \<Rightarrow> do {
             absolute \<leftarrow> checked_add u64_max now next;
             Some (Conforming next, absolute)
           }
         | refused \<Rightarrow> Some (refused, stored))"

text \<open>
  C34: a quota never replenishes faster than the requested rate, and not slower than it must. A
  request is accepted exactly when its numbers are in range; then the interval is the least whole
  number of nanoseconds for which \<open>count\<close> cells take at least the period, and the horizon of a full
  burst leaves room for a second one in 64 bits.
\<close>

theorem quota_interval_exact:
  "case quota_new count period burst of
     Inl _ \<Rightarrow> count = 0 \<or> period < count \<or> burst = 0 \<or> u32_max < burst \<or>
        u64_max div 2 < div_ceil period count * burst
   | Inr q \<Rightarrow> 0 < count \<and> count \<le> period \<and> 0 < burst \<and> burst \<le> u32_max \<and>
        0 < q_interval q \<and> period \<le> count * q_interval q \<and>
        count * (q_interval q - 1) < period \<and>
        q_burst q = burst \<and> q_horizon q = q_interval q * burst \<and> q_horizon q + q_horizon q \<le> u64_max"
proof -
  have tight: "count * (div_ceil period count - 1) < period" if c: "0 < count" "count \<le> period"
  proof (rule ccontr)
    assume "\<not> count * (div_ceil period count - 1) < period"
    then have "div_ceil period count \<le> div_ceil period count - 1"
      using c(1) by (intro div_ceil_least) (simp_all add: mult.commute)
    moreover have "0 < div_ceil period count" using c by (rule div_ceil_pos)
    ultimately show False by linarith
  qed
  have wide: "u64_max div 2 < div_ceil period count * burst"
    if "u64_max < div_ceil period count" "0 < burst"
  proof -
    have "div_ceil period count * 1 \<le> div_ceil period count * burst" using that(2) by (intro mult_le_mono2) simp
    then show ?thesis using that(1) unfolding u64_max_def by linarith
  qed
  show ?thesis
    using wide tight div_ceil_pos [of count period] div_ceil_covers [of count period]
    by (auto simp: quota_new_def Let_def panic_simps mult.commute [of count] u64_max_def u128_max_def
        split: option.splits)
qed

end
