(* ===== verification/Keyed_Store.thy ===== *)
theory Keyed_Store
  imports Expiry_Map Rate_Quota
begin

text \<open>
  The bounded key store of a keyed allowance (crates/rate-limit/src/keyed.rs): shards in expiry
  order, TTL expiry, a global capacity, and the leases through which an admission charges a key.

  A shard is the model of the expiry map. The limiter holds the store exclusively during an
  admission, so the locks of the shards are taken without contention and an operation is a function
  on the store; a lease names the shard whose guard it holds.
\<close>

section \<open>Data\<close>

datatype admission_error =
    ChargeCount
  | ChargeKind nat
  | ClockRegressed
  | ClockRange
  | VisitRange
  | GenerationState

type_synonym key_fingerprint = nat

record key_entry =
  en_horizon :: nanos
  en_last_seen :: nanos
  en_ordinal :: nat

type_synonym shard = "(key_fingerprint, key_entry) expiry_map"

record keyed_store =
  ks_options :: keyed_options
  ks_shards :: "shard list"
  ks_visits :: nat
  ks_evictions :: nat

datatype lease_entry =
    Present nat
  | Across nat
  | Vacant nat nanos "nat option"

record key_lease =
  kl_key :: key_fingerprint
  kl_now :: nanos
  kl_ordinal :: nat
  kl_entry :: lease_entry

record key_generation =
  kg_key :: key_fingerprint
  kg_remaining :: nanos
  kg_age :: nanos
  kg_ordinal :: nat

record key_statistics =
  kst_active :: nat
  kst_evicted :: nat

section \<open>Operations\<close>

definition ks_new :: "keyed_options \<Rightarrow> keyed_store" where
  "ks_new options = \<lparr>ks_options = options, ks_shards = replicate (ko_shards options) em_new,
     ks_visits = 0, ks_evictions = 0\<rparr>"

definition ks_shard :: "keyed_store \<Rightarrow> key_fingerprint \<Rightarrow> nat panics" where
  "ks_shard ks key = (if ks_shards ks = [] then panic else Some (key mod length (ks_shards ks)))"

definition next_ordinal :: "keyed_store \<Rightarrow> admission_error + (nat \<times> keyed_store)" where
  "next_ordinal ks =
     (case checked_add u64_max (ks_visits ks) 1 of
        None \<Rightarrow> Inl VisitRange
      | Some next \<Rightarrow> Inr (ks_visits ks, ks\<lparr>ks_visits := next\<rparr>))"

partial_function (option) expire_shard :: "nanos \<Rightarrow> nanos \<Rightarrow> shard \<Rightarrow> shard panics" where
  "expire_shard ttl now m = do {
     front \<leftarrow> em_oldest m;
     case front of
       None \<Rightarrow> Some m
     | Some (k, entry) \<Rightarrow> do {
         age \<leftarrow> checked_sub now (en_last_seen entry);
         if age < ttl then Some m
         else do {
           (removed, m') \<leftarrow> em_remove_oldest m;
           case removed of None \<Rightarrow> panic | Some _ \<Rightarrow> expire_shard ttl now m'
         }
       }
   }"

fun expire_shards :: "nanos \<Rightarrow> nanos \<Rightarrow> shard list \<Rightarrow> shard list panics" where
  "expire_shards ttl now [] = Some []"
| "expire_shards ttl now (m # ms) = do {
     m' \<leftarrow> expire_shard ttl now m;
     ms' \<leftarrow> expire_shards ttl now ms;
     Some (m' # ms')
   }"

fun total_active :: "shard list \<Rightarrow> nat \<Rightarrow> nat panics" where
  "total_active [] active = Some active"
| "total_active (m # ms) active = do {
     active' \<leftarrow> checked_add u64_max active (em_len m);
     total_active ms active'
   }"

text \<open>The scan for the shard whose oldest entry has the least ordinal.\<close>

fun select_victim :: "nat \<Rightarrow> shard list \<Rightarrow> nat option \<Rightarrow> nat option \<Rightarrow> nat option panics" where
  "select_victim index [] oldest victim = Some victim"
| "select_victim index (m # ms) oldest victim = do {
     candidate \<leftarrow> em_oldest m;
     case candidate of
       Some (_, entry) \<Rightarrow>
         if (case oldest of None \<Rightarrow> True | Some least \<Rightarrow> en_ordinal entry < least)
         then select_victim (Suc index) ms (Some (en_ordinal entry)) (Some index)
         else select_victim (Suc index) ms oldest victim
     | None \<Rightarrow> select_victim (Suc index) ms oldest victim
   }"

definition ks_lease ::
  "keyed_store \<Rightarrow> key_fingerprint \<Rightarrow> nanos \<Rightarrow> lease_entry \<Rightarrow>
   (admission_error + key_lease option) \<times> keyed_store" where
  "ks_lease ks key now entry =
     (case next_ordinal ks of
        Inl e \<Rightarrow> (Inl e, ks)
      | Inr (ordinal, ks') \<Rightarrow>
          (Inr (Some \<lparr>kl_key = key, kl_now = now, kl_ordinal = ordinal, kl_entry = entry\<rparr>), ks'))"

text \<open>The second half of \<open>prepare\<close>, with every shard locked.\<close>

definition prepare_across ::
  "keyed_store \<Rightarrow> nat \<Rightarrow> key_fingerprint \<Rightarrow> nanos \<Rightarrow>
   ((admission_error + key_lease option) \<times> keyed_store) panics" where
  "prepare_across ks index key now = do {
     shards \<leftarrow> expire_shards (ko_ttl (ks_options ks)) now (ks_shards ks);
     let ks1 = ks\<lparr>ks_shards := shards\<rparr>;
     if em_contains_key (shards ! index) key then Some (ks_lease ks1 key now (Across index))
     else do {
       active \<leftarrow> total_active shards 0;
       victim \<leftarrow> (if ko_max_keys (ks_options ks) \<le> active then select_victim 0 shards None None else Some None);
       Some (ks_lease ks1 key now (Vacant index 0 victim))
     }
   }"

definition prepare ::
  "keyed_store \<Rightarrow> key_fingerprint \<Rightarrow> nanos \<Rightarrow>
   ((admission_error + key_lease option) \<times> keyed_store) panics" where
  "prepare ks key now =
     (if ko_max_keys (ks_options ks) = 0 then Some (Inr None, ks)
      else do {
        index \<leftarrow> ks_shard ks key;
        shard \<leftarrow> expire_shard (ko_ttl (ks_options ks)) now (ks_shards ks ! index);
        let ks1 = ks\<lparr>ks_shards := (ks_shards ks)[index := shard]\<rparr>;
        if em_contains_key shard key then Some (ks_lease ks1 key now (Present index))
        else prepare_across ks1 index key now
      })"

definition lease_cell :: "keyed_store \<Rightarrow> key_lease \<Rightarrow> nanos panics" where
  "lease_cell ks l =
     (case kl_entry l of
        Present index \<Rightarrow> map_option en_horizon (em_get (ks_shards ks ! index) (kl_key l))
      | Across index \<Rightarrow> map_option en_horizon (em_get (ks_shards ks ! index) (kl_key l))
      | Vacant index cell victim \<Rightarrow> Some cell)"

text \<open>A store to the atomic of the leased cell.\<close>

definition store_cell :: "keyed_store \<Rightarrow> nat \<Rightarrow> key_fingerprint \<Rightarrow> nanos \<Rightarrow> keyed_store" where
  "store_cell ks index key horizon =
     ks\<lparr>ks_shards := (ks_shards ks)[index :=
       em_modify (ks_shards ks ! index) key (\<lambda>e. e\<lparr>en_horizon := horizon\<rparr>)]\<rparr>"

definition lease_store :: "keyed_store \<Rightarrow> key_lease \<Rightarrow> nanos \<Rightarrow> keyed_store \<times> key_lease" where
  "lease_store ks l horizon =
     (case kl_entry l of
        Present index \<Rightarrow> (store_cell ks index (kl_key l) horizon, l)
      | Across index \<Rightarrow> (store_cell ks index (kl_key l) horizon, l)
      | Vacant index cell victim \<Rightarrow> (ks, l\<lparr>kl_entry := Vacant index horizon victim\<rparr>))"

definition touch_entry :: "shard \<Rightarrow> key_fingerprint \<Rightarrow> nanos \<Rightarrow> nat \<Rightarrow> shard panics" where
  "touch_entry m key now ordinal = do {
     (removed, m') \<leftarrow> em_remove m key;
     entry \<leftarrow> removed;
     let entry' = entry\<lparr>en_last_seen := max (en_last_seen entry) now, en_ordinal := ordinal\<rparr>;
     let (inserted, m'') = em_insert m' key entry';
     if inserted then Some m'' else panic
   }"

definition lease_commit :: "keyed_store \<Rightarrow> key_lease \<Rightarrow> keyed_store panics" where
  "lease_commit ks l =
     (case kl_entry l of
        Present index \<Rightarrow> do {
          m \<leftarrow> touch_entry (ks_shards ks ! index) (kl_key l) (kl_now l) (kl_ordinal l);
          Some (ks\<lparr>ks_shards := (ks_shards ks)[index := m]\<rparr>)
        }
      | Across index \<Rightarrow> do {
          m \<leftarrow> touch_entry (ks_shards ks ! index) (kl_key l) (kl_now l) (kl_ordinal l);
          Some (ks\<lparr>ks_shards := (ks_shards ks)[index := m]\<rparr>)
        }
      | Vacant index cell victim \<Rightarrow> do {
          ks1 \<leftarrow> (case victim of
                    None \<Rightarrow> Some ks
                  | Some v \<Rightarrow> do {
                      (removed, m) \<leftarrow> em_remove_oldest (ks_shards ks ! v);
                      _ \<leftarrow> removed;
                      Some (ks\<lparr>ks_shards := (ks_shards ks)[v := m],
                               ks_evictions := (ks_evictions ks + 1) mod (u64_max + 1)\<rparr>)
                    });
          let (inserted, m) = em_insert (ks_shards ks1 ! index) (kl_key l)
                \<lparr>en_horizon = cell, en_last_seen = kl_now l, en_ordinal = kl_ordinal l\<rparr>;
          if inserted then Some (ks1\<lparr>ks_shards := (ks_shards ks1)[index := m]\<rparr>) else panic
        })"

definition ks_statistics :: "keyed_store \<Rightarrow> nanos \<Rightarrow> (key_statistics \<times> keyed_store) panics" where
  "ks_statistics ks now = do {
     shards \<leftarrow> expire_shards (ko_ttl (ks_options ks)) now (ks_shards ks);
     active \<leftarrow> total_active shards 0;
     Some (\<lparr>kst_active = active, kst_evicted = ks_evictions ks\<rparr>, ks\<lparr>ks_shards := shards\<rparr>)
   }"

text \<open>
  \<open>generation\<close>: the keys that still owe something, in the order of their visits, and \<open>restore\<close>.
\<close>

fun retained_keys :: "nanos \<Rightarrow> nanos \<Rightarrow> (key_fingerprint \<times> key_entry) list \<Rightarrow> key_generation list panics" where
  "retained_keys ttl now [] = Some []"
| "retained_keys ttl now ((key, entry) # rest) = do {
     age \<leftarrow> checked_sub now (en_last_seen entry);
     others \<leftarrow> retained_keys ttl now rest;
     Some (if age < ttl \<and> now < en_horizon entry
           then \<lparr>kg_key = key, kg_remaining = en_horizon entry - now, kg_age = age,
                 kg_ordinal = en_ordinal entry\<rparr> # others
           else others)
   }"

fun collect_shards :: "shard list \<Rightarrow> (key_fingerprint \<times> key_entry) list panics" where
  "collect_shards [] = Some []"
| "collect_shards (m # ms) = do {
     entries \<leftarrow> iter_collect m (em_iter m);
     rest \<leftarrow> collect_shards ms;
     Some (entries @ rest)
   }"

definition ks_generation :: "keyed_store \<Rightarrow> nanos \<Rightarrow> key_generation list panics" where
  "ks_generation ks now = do {
     entries \<leftarrow> collect_shards (ks_shards ks);
     keys \<leftarrow> retained_keys (ko_ttl (ks_options ks)) now entries;
     Some (sort_key kg_ordinal keys)
   }"

fun restore_keys ::
  "keyed_store \<Rightarrow> key_generation list \<Rightarrow> nanos \<Rightarrow> nat \<Rightarrow> (admission_error + nat \<times> keyed_store) panics" where
  "restore_keys ks [] now next_visit = Some (Inr (next_visit, ks))"
| "restore_keys ks (key # keys) now next_visit =
     (case try_from u64_max (now + kg_remaining key) of
        None \<Rightarrow> Some (Inl ClockRange)
      | Some horizon \<Rightarrow> do {
          last_seen \<leftarrow> checked_sub now (kg_age key);
          index \<leftarrow> ks_shard ks (kg_key key);
          let (inserted, m) = em_insert (ks_shards ks ! index) (kg_key key)
                \<lparr>en_horizon = horizon, en_last_seen = last_seen, en_ordinal = kg_ordinal key\<rparr>;
          _ \<leftarrow> (if inserted then Some () else panic);
          next_visit' \<leftarrow> checked_add u64_max (kg_ordinal key) 1;
          restore_keys (ks\<lparr>ks_shards := (ks_shards ks)[index := m]\<rparr>) keys now next_visit'
        })"

definition ks_restore ::
  "keyed_store \<Rightarrow> key_generation list \<Rightarrow> nanos \<Rightarrow> (admission_error + keyed_store) panics" where
  "ks_restore ks keys now = do {
     res \<leftarrow> restore_keys ks keys now 0;
     Some (case res of Inl e \<Rightarrow> Inl e | Inr (next_visit, ks') \<Rightarrow> Inr (ks'\<lparr>ks_visits := next_visit\<rparr>))
   }"

section \<open>The invariant\<close>

definition fresh :: "nanos \<Rightarrow> nanos \<Rightarrow> key_fingerprint \<times> key_entry \<Rightarrow> bool" where
  "fresh ttl now = (\<lambda>(k, e). now - en_last_seen e < ttl)"

definition visited_before ::
  "key_fingerprint \<times> key_entry \<Rightarrow> key_fingerprint \<times> key_entry \<Rightarrow> bool" where
  "visited_before = (\<lambda>(_, a) (_, b). en_last_seen a \<le> en_last_seen b \<and> en_ordinal a < en_ordinal b)"

definition entry_inv :: "nat \<Rightarrow> nat \<Rightarrow> nat \<Rightarrow> nanos \<Rightarrow> key_fingerprint \<times> key_entry \<Rightarrow> bool" where
  "entry_inv n i visits now = (\<lambda>(k, e). k mod n = i \<and> en_last_seen e \<le> now \<and> en_ordinal e < visits)"

definition shard_inv :: "nat \<Rightarrow> nat \<Rightarrow> nat \<Rightarrow> nanos \<Rightarrow> shard \<Rightarrow> bool" where
  "shard_inv n i visits now m = (em_inv m \<and> list_all (entry_inv n i visits now) (em_contents m) \<and>
     sorted_wrt visited_before (em_contents m))"

definition active_keys :: "shard list \<Rightarrow> nat" where
  "active_keys shards = sum_list (map (length \<circ> em_contents) shards)"

definition ks_inv :: "keyed_store \<Rightarrow> nanos \<Rightarrow> bool" where
  "ks_inv ks now = (ks_shards ks \<noteq> [] \<and>
     (\<forall>i < length (ks_shards ks). shard_inv (length (ks_shards ks)) i (ks_visits ks) now (ks_shards ks ! i)) \<and>
     active_keys (ks_shards ks) \<le> ko_max_keys (ks_options ks) \<and> ko_max_keys (ks_options ks) \<le> u64_max)"

lemma entry_inv_mono:
  "entry_inv n i v t x \<Longrightarrow> v \<le> v' \<Longrightarrow> t \<le> t' \<Longrightarrow> entry_inv n i v' t' x"
  by (auto simp: entry_inv_def)

lemma shard_inv_mono: "shard_inv n i v t m \<Longrightarrow> v \<le> v' \<Longrightarrow> t \<le> t' \<Longrightarrow> shard_inv n i v' t' m"
  by (auto simp: shard_inv_def list_all_iff intro: entry_inv_mono)

lemma shard_inv_em: "shard_inv n i v t m \<Longrightarrow> em_inv m"
  by (simp add: shard_inv_def)

lemma shard_inv_entries:
  "shard_inv n i v t m \<Longrightarrow> (k, e) \<in> set (em_contents m) \<Longrightarrow>
   k mod n = i \<and> en_last_seen e \<le> t \<and> en_ordinal e < v"
  by (auto simp: shard_inv_def list_all_iff entry_inv_def)

text \<open>A shard with the contents of another, or with a subsequence of them.\<close>

lemma shard_inv_sub:
  assumes "shard_inv n i v t m" and "em_inv m'" and "subseq (em_contents m') (em_contents m)"
  shows "shard_inv n i v t m'"
  using assms set_subseq [OF assms(3)] sorted_wrt_subseq [OF assms(3)]
  by (auto simp: shard_inv_def list_all_iff)

lemma expire_shard_ok:
  assumes inv: "shard_inv n i v t m" and t: "t \<le> now"
  shows "\<exists>m'. expire_shard ttl now m = Some m' \<and> shard_inv n i v now m' \<and>
    em_contents m' = filter (fresh ttl now) (em_contents m)"
proof -
  note em = shard_inv_em [OF inv]
  let ?keep = "\<lambda>e. map_option (\<lambda>age. age < ttl) (checked_sub now (en_last_seen e))"
  have "\<exists>m'. expire_shard ttl now m = Some m' \<and> em_inv m' \<and>
    em_contents m' = dropWhile (\<lambda>(k, e). \<not> now - en_last_seen e < ttl) (em_contents m)"
  proof (rule em.sweep)
    show "expire_shard ttl now m = do {
        front \<leftarrow> em_oldest m;
        case front of
          None \<Rightarrow> Some m
        | Some (k, v) \<Rightarrow> do {
            stays \<leftarrow> ?keep v;
            if stays then Some m
            else do { (removed, m') \<leftarrow> em_remove_oldest m;
                      case removed of None \<Rightarrow> panic | Some _ \<Rightarrow> expire_shard ttl now m' }
          }
      }" for m
      by (subst expire_shard.simps) (auto simp: checked_sub_def split: bind_splits option.splits)
    show "\<forall>(k, e) \<in> set (em_contents m). ?keep e = Some (now - en_last_seen e < ttl)"
      using shard_inv_entries [OF inv] t by (force simp: checked_sub_def)
  qed (rule em)
  moreover have "(\<lambda>(k, e). \<not> now - en_last_seen e < ttl) = (\<lambda>x. \<not> fresh ttl now x)"
    by (auto simp: fresh_def)
  ultimately obtain m' where m': "expire_shard ttl now m = Some m'" "em_inv m'"
    "em_contents m' = dropWhile (\<lambda>x. \<not> fresh ttl now x) (em_contents m)" by auto
  have "sorted_wrt (\<lambda>x y. \<not> fresh ttl now y \<longrightarrow> \<not> fresh ttl now x) (em_contents m)"
    using inv unfolding shard_inv_def
    by (auto simp: fresh_def visited_before_def elim!: sorted_wrt_mono_rel [rotated])
  then have "em_contents m' = filter (fresh ttl now) (em_contents m)"
    using m'(3) by (simp add: dropWhile_eq_filter)
  then show ?thesis
    using m' shard_inv_sub [OF inv m'(2)] shard_inv_mono [OF _ order_refl t] by auto
qed

lemma expire_shards_ok:
  assumes "\<forall>j < length ms. shard_inv n (i + j) v t (ms ! j)" and "t \<le> now"
  shows "\<exists>ms'. expire_shards ttl now ms = Some ms' \<and> length ms' = length ms \<and>
    (\<forall>j < length ms. shard_inv n (i + j) v now (ms' ! j) \<and>
       em_contents (ms' ! j) = filter (fresh ttl now) (em_contents (ms ! j)))"
  using assms(1)
proof (induction ms arbitrary: i)
  case Nil
  then show ?case by simp
next
  case (Cons m ms)
  have "shard_inv n (i + 0) v t m" using Cons.prems by (metis length_greater_0_conv list.distinct(1) nth_Cons_0)
  then obtain m' where m': "expire_shard ttl now m = Some m'" "shard_inv n i v now m'"
    "em_contents m' = filter (fresh ttl now) (em_contents m)"
    using expire_shard_ok [OF _ assms(2)] by fastforce
  have "\<forall>j < length ms. shard_inv n (Suc i + j) v t (ms ! j)"
    using Cons.prems by (metis Suc_less_eq add_Suc_shift length_Cons nth_Cons_Suc)
  from Cons.IH [OF this] obtain ms' where ms': "expire_shards ttl now ms = Some ms'" "length ms' = length ms"
    "\<forall>j < length ms. shard_inv n (Suc i + j) v now (ms' ! j) \<and>
       em_contents (ms' ! j) = filter (fresh ttl now) (em_contents (ms ! j))" by blast
  have "shard_inv n (i + j) v now ((m' # ms') ! j) \<and>
      em_contents ((m' # ms') ! j) = filter (fresh ttl now) (em_contents ((m # ms) ! j))"
    if "j < length (m # ms)" for j
    using that m' ms' by (cases j) auto
  then show ?case using m'(1) ms'(1,2) by simp
qed

lemma total_active_ok:
  assumes "\<forall>m \<in> set ms. em_inv m" and "active + active_keys ms \<le> u64_max"
  shows "total_active ms active = Some (active + active_keys ms)"
  using assms
  by (induction ms arbitrary: active) (auto simp: active_keys_def checked_add_def em_len_spec add.assoc)

text \<open>
  The victim is the front of a shard, and no entry of any shard has a smaller ordinal: the shards
  are sorted by ordinal, so comparing their fronts is enough.
\<close>

definition least_ordinal :: "shard list \<Rightarrow> nat \<Rightarrow> bool" where
  "least_ordinal ms j = (j < length ms \<and> em_contents (ms ! j) \<noteq> [] \<and>
     (\<forall>m \<in> set ms. \<forall>(k, e) \<in> set (em_contents m). en_ordinal (snd (hd (em_contents (ms ! j)))) \<le> en_ordinal e))"

lemma front_least:
  assumes "shard_inv n i v t m" and "em_contents m = x # xs" and "(k, e) \<in> set (em_contents m)"
  shows "en_ordinal (snd x) \<le> en_ordinal e"
  using assms by (cases x) (auto simp: shard_inv_def visited_before_def less_imp_le)

definition scanned :: "shard list \<Rightarrow> nat option \<Rightarrow> nat option \<Rightarrow> bool" where
  "scanned ms oldest victim =
     (case victim of
        None \<Rightarrow> oldest = None \<and> (\<forall>m \<in> set ms. em_contents m = [])
      | Some j \<Rightarrow> least_ordinal ms j \<and> oldest = Some (en_ordinal (snd (hd (em_contents (ms ! j))))))"

lemma scanned_empty: "scanned ms oldest victim \<Longrightarrow> em_contents m = [] \<Longrightarrow> scanned (ms @ [m]) oldest victim"
  by (auto simp: scanned_def least_ordinal_def nth_append split: option.splits)

lemma scanned_smaller:
  assumes "scanned ms oldest victim" and m: "shard_inv n i v t m" and c: "em_contents m = x # xs"
    and "\<And>least. oldest = Some least \<Longrightarrow> en_ordinal (snd x) < least"
  shows "scanned (ms @ [m]) (Some (en_ordinal (snd x))) (Some (length ms))"
proof -
  have "en_ordinal (snd x) \<le> en_ordinal e" if "m' \<in> set ms" "(k, e) \<in> set (em_contents m')" for m' k e
  proof (cases victim)
    case None
    then show ?thesis using assms(1) that by (simp add: scanned_def)
  next
    case (Some j)
    then have "en_ordinal (snd x) < en_ordinal (snd (hd (em_contents (ms ! j))))"
      "en_ordinal (snd (hd (em_contents (ms ! j)))) \<le> en_ordinal e"
      using assms(1,4) that by (auto simp: scanned_def least_ordinal_def)
    then show ?thesis by linarith
  qed
  moreover have "en_ordinal (snd x) \<le> en_ordinal e" if "(k, e) \<in> set (em_contents m)" for k e
    using front_least [OF m c that] .
  ultimately show ?thesis unfolding scanned_def least_ordinal_def using c by fastforce
qed

lemma scanned_larger:
  assumes "scanned ms (Some least) victim" and m: "shard_inv n i v t m" and c: "em_contents m = x # xs"
    and "least \<le> en_ordinal (snd x)"
  shows "scanned (ms @ [m]) (Some least) victim"
proof -
  obtain j where j: "victim = Some j" "least_ordinal ms j" "least = en_ordinal (snd (hd (em_contents (ms ! j))))"
    using assms(1) by (auto simp: scanned_def split: option.splits)
  have "least \<le> en_ordinal e" if "(k, e) \<in> set (em_contents m)" for k e
    using front_least [OF m c that] assms(4) by linarith
  then show ?thesis unfolding scanned_def least_ordinal_def
    using j by (fastforce simp: least_ordinal_def nth_append)
qed

lemma select_victim_scans:
  assumes "\<forall>j < length (ms0 @ ms). shard_inv n j v t ((ms0 @ ms) ! j)" and "scanned ms0 oldest victim"
  shows "\<exists>o' r. select_victim (length ms0) ms oldest victim = Some r \<and> scanned (ms0 @ ms) o' r"
  using assms
proof (induction ms arbitrary: ms0 oldest victim)
  case Nil
  then show ?case by auto
next
  case (Cons m ms)
  have "length ms0 < length (ms0 @ m # ms)" by simp
  with Cons.prems(1) have m: "shard_inv n (length ms0) v t m" by (metis nth_append_length)
  have step: "\<forall>j < length ((ms0 @ [m]) @ ms). shard_inv n j v t (((ms0 @ [m]) @ ms) ! j)"
    using Cons.prems(1) by simp
  have rec: "\<exists>o' r. select_victim (Suc (length ms0)) ms o1 v1 = Some r \<and> scanned (ms0 @ m # ms) o' r"
    if "scanned (ms0 @ [m]) o1 v1" for o1 v1
    using Cons.IH [OF step that] by simp
  show ?case
  proof (cases "em_contents m")
    case Nil
    then have "em_oldest m = Some None" using em_oldest_spec [OF shard_inv_em [OF m]] by simp
    then show ?thesis using rec [OF scanned_empty [OF Cons.prems(2) Nil]] by simp
  next
    case (Cons x xs)
    then have old: "em_oldest m = Some (Some x)" using em_oldest_spec [OF shard_inv_em [OF m]] by simp
    obtain k e where x: "x = (k, e)" by (cases x)
    show ?thesis
    proof (cases "case oldest of None \<Rightarrow> True | Some least \<Rightarrow> en_ordinal e < least")
      case True
      then have "scanned (ms0 @ [m]) (Some (en_ordinal (snd x))) (Some (length ms0))"
        using scanned_smaller [OF Cons.prems(2) m Cons] x by (cases oldest) auto
      then show ?thesis using rec old True x by simp
    next
      case False
      then obtain least where "oldest = Some least" "least \<le> en_ordinal (snd x)"
        using x by (auto split: option.splits)
      then show ?thesis
        using rec [OF scanned_larger [OF _ m Cons, of ms0 least victim]] Cons.prems(2) old False x by simp
    qed
  qed
qed

lemma select_victim_ok:
  assumes "\<forall>j < length ms. shard_inv n j v t (ms ! j)" and "0 < active_keys ms"
  shows "\<exists>j. select_victim 0 ms None None = Some (Some j) \<and> least_ordinal ms j"
proof -
  have "scanned [] None None" by (simp add: scanned_def)
  then obtain o' r where r: "select_victim 0 ms None None = Some r" "scanned ms o' r"
    using select_victim_scans [of "[]" ms n v t None None] assms(1) by auto
  moreover have "active_keys ms = 0" if "r = None"
    using r(2) that by (simp add: scanned_def active_keys_def)
  then have "r \<noteq> None" using assms(2) by auto
  ultimately show ?thesis by (auto simp: scanned_def)
qed

section \<open>Preparing a lease\<close>

text \<open>What \<open>prepare\<close> may do to the shards: nothing but remove entries whose TTL has passed.\<close>

definition swept :: "keyed_store \<Rightarrow> keyed_store \<Rightarrow> nanos \<Rightarrow> bool" where
  "swept ks ks' now = (ks_options ks' = ks_options ks \<and> ks_evictions ks' = ks_evictions ks \<and>
     ks_visits ks \<le> ks_visits ks' \<and> length (ks_shards ks') = length (ks_shards ks) \<and>
     (\<forall>i < length (ks_shards ks).
        em_contents (ks_shards ks' ! i) = em_contents (ks_shards ks ! i) \<or>
        em_contents (ks_shards ks' ! i) = filter (fresh (ko_ttl (ks_options ks)) now) (em_contents (ks_shards ks ! i))))"

lemma swept_refl: "swept ks ks now"
  by (simp add: swept_def)

lemma swept_trans:
  assumes "swept ks ks1 now" and "swept ks1 ks2 now"
  shows "swept ks ks2 now"
proof -
  have "em_contents (ks_shards ks2 ! i) = em_contents (ks_shards ks ! i) \<or>
      em_contents (ks_shards ks2 ! i) = filter (fresh (ko_ttl (ks_options ks)) now) (em_contents (ks_shards ks ! i))"
    if "i < length (ks_shards ks)" for i
    using assms that unfolding swept_def
    by (elim conjE allE [of _ i]) (elim impE disjE; simp)
  then show ?thesis using assms by (auto simp: swept_def)
qed

text \<open>What a lease guarantees its holder.\<close>

fun entry_ok :: "shard list \<Rightarrow> nat \<Rightarrow> key_fingerprint \<Rightarrow> lease_entry \<Rightarrow> bool" where
  "entry_ok ms max_keys key (Present i) =
     (i = key mod length ms \<and> key \<in> fst ` set (em_contents (ms ! i)))"
| "entry_ok ms max_keys key (Across i) =
     (i = key mod length ms \<and> key \<in> fst ` set (em_contents (ms ! i)))"
| "entry_ok ms max_keys key (Vacant i cell None) =
     (i = key mod length ms \<and> key \<notin> fst ` set (em_contents (ms ! i)) \<and> active_keys ms < max_keys)"
| "entry_ok ms max_keys key (Vacant i cell (Some j)) =
     (i = key mod length ms \<and> key \<notin> fst ` set (em_contents (ms ! i)) \<and> active_keys ms = max_keys \<and>
      least_ordinal ms j)"

definition lease_ok :: "keyed_store \<Rightarrow> key_lease \<Rightarrow> bool" where
  "lease_ok ks l = (ks_visits ks = Suc (kl_ordinal l) \<and>
     (\<forall>j < length (ks_shards ks). \<forall>x \<in> set (em_contents (ks_shards ks ! j)).
        en_ordinal (snd x) < kl_ordinal l \<and> en_last_seen (snd x) \<le> kl_now l) \<and>
     entry_ok (ks_shards ks) (ko_max_keys (ks_options ks)) (kl_key l) (kl_entry l))"

lemma ks_inv_shard:
  "ks_inv ks t \<Longrightarrow> i < length (ks_shards ks) \<Longrightarrow>
   shard_inv (length (ks_shards ks)) i (ks_visits ks) t (ks_shards ks ! i)"
  by (simp add: ks_inv_def)

lemma active_update:
  assumes "i < length ms"
  shows "active_keys (ms[i := m]) + length (em_contents (ms ! i)) = active_keys ms + length (em_contents m)"
  using assms
proof (induction ms arbitrary: i)
  case (Cons a ms)
  then show ?case by (cases i) (auto simp: active_keys_def)
qed simp

lemma ks_inv_update:
  assumes "ks_inv ks t" and "i < length (ks_shards ks)"
    and "shard_inv (length (ks_shards ks)) i (ks_visits ks) t m"
    and "active_keys ((ks_shards ks)[i := m]) \<le> ko_max_keys (ks_options ks)"
  shows "ks_inv (ks\<lparr>ks_shards := (ks_shards ks)[i := m]\<rparr>) t"
  using assms by (auto simp: ks_inv_def nth_list_update)

lemma ks_inv_mono: "ks_inv ks t \<Longrightarrow> t \<le> t' \<Longrightarrow> ks_inv ks t'"
  by (auto simp: ks_inv_def intro: shard_inv_mono)

lemma active_mono:
  assumes "length ms' = length ms" and "\<forall>i < length ms. length (em_contents (ms' ! i)) \<le> length (em_contents (ms ! i))"
  shows "active_keys ms' \<le> active_keys ms"
  using assms unfolding active_keys_def by (intro sum_list_mono2) auto

lemma swept_inv:
  assumes "ks_inv ks t" and "t \<le> now" and "swept ks ks' now"
    and "\<forall>i < length (ks_shards ks'). em_inv (ks_shards ks' ! i)"
  shows "ks_inv ks' now"
proof -
  have len: "length (ks_shards ks') = length (ks_shards ks)" and opts: "ks_options ks' = ks_options ks"
    and visits: "ks_visits ks \<le> ks_visits ks'" using assms(3) by (simp_all add: swept_def)
  have sub: "subseq (em_contents (ks_shards ks' ! i)) (em_contents (ks_shards ks ! i))"
    if "i < length (ks_shards ks)" for i
    using assms(3) that unfolding swept_def by (metis subseq_filter_left subseq_order.order_refl)
  have "shard_inv (length (ks_shards ks')) i (ks_visits ks') now (ks_shards ks' ! i)"
    if i: "i < length (ks_shards ks')" for i
    using shard_inv_mono [OF shard_inv_sub [OF ks_inv_shard [OF assms(1)] _ sub] visits assms(2)]
      assms(4) i len by simp
  moreover have "active_keys (ks_shards ks') \<le> active_keys (ks_shards ks)"
    using sub list_emb_length by (intro active_mono) (auto simp: len)
  ultimately show ?thesis using assms(1) len opts by (auto simp: ks_inv_def)
qed

lemma ks_shard_ok: "ks_inv ks t \<Longrightarrow> ks_shard ks key = Some (key mod length (ks_shards ks))"
  by (simp add: ks_shard_def ks_inv_def)

lemma ks_inv_nonempty: "ks_inv ks t \<Longrightarrow> key mod length (ks_shards ks) < length (ks_shards ks)"
  by (simp add: ks_inv_def)

text \<open>The outcome of a preparation, whichever path took it.\<close>

definition own_swept :: "keyed_store \<Rightarrow> keyed_store \<Rightarrow> key_fingerprint \<Rightarrow> nanos \<Rightarrow> bool" where
  "own_swept ks ks' key now = (em_contents (ks_shards ks' ! (key mod length (ks_shards ks))) =
     filter (fresh (ko_ttl (ks_options ks)) now) (em_contents (ks_shards ks ! (key mod length (ks_shards ks)))))"

fun lease_cell0 :: "lease_entry \<Rightarrow> bool" where
  "lease_cell0 (Vacant i cell victim) = (cell = 0)"
| "lease_cell0 _ = True"

definition prepared ::
  "keyed_store \<Rightarrow> key_fingerprint \<Rightarrow> nanos \<Rightarrow> (admission_error + key_lease option) \<Rightarrow> keyed_store \<Rightarrow> bool" where
  "prepared ks key now r ks' = (ks_inv ks' now \<and> swept ks ks' now \<and>
     (case r of Inl e \<Rightarrow> e = VisitRange \<and> u64_max \<le> ks_visits ks \<and> ks_visits ks' = ks_visits ks
      | Inr None \<Rightarrow> ko_max_keys (ks_options ks) = 0 \<and> ks' = ks
      | Inr (Some l) \<Rightarrow> ks_visits ks < u64_max \<and> lease_ok ks' l \<and> own_swept ks ks' key now \<and> kl_key l = key \<and> kl_now l = now \<and>
          kl_ordinal l = ks_visits ks \<and> lease_cell0 (kl_entry l)))"

lemma ks_lease_ok:
  assumes inv: "ks_inv ks now" and entry: "entry_ok (ks_shards ks) (ko_max_keys (ks_options ks)) key entry"
    and sw: "swept ks0 ks now" and own: "own_swept ks0 ks key now" and visits: "ks_visits ks0 = ks_visits ks"
    and cell: "lease_cell0 entry"
  shows "\<exists>r ks'. ks_lease ks key now entry = (r, ks') \<and> prepared ks0 key now r ks'"
proof (cases "ks_visits ks + 1 \<le> u64_max")
  case False
  then show ?thesis
    using inv sw visits by (simp add: ks_lease_def next_ordinal_def checked_add_def prepared_def)
next
  case True
  let ?ks = "ks\<lparr>ks_visits := ks_visits ks + 1\<rparr>"
  have "ks_inv ?ks now"
    using inv by (auto simp: ks_inv_def intro: shard_inv_mono)
  moreover have "\<forall>j < length (ks_shards ks). \<forall>x \<in> set (em_contents (ks_shards ks ! j)).
      en_ordinal (snd x) < ks_visits ks \<and> en_last_seen (snd x) \<le> now"
    using shard_inv_entries [OF ks_inv_shard [OF inv]] by force
  moreover have "swept ks0 ?ks now" using sw by (simp add: swept_def)
  ultimately show ?thesis
    using True entry own visits cell
    by (simp add: ks_lease_def next_ordinal_def checked_add_def prepared_def lease_ok_def own_swept_def)
qed

lemma expire_all_ok:
  assumes inv: "ks_inv ks t" and t: "t \<le> now"
  shows "\<exists>shards. expire_shards (ko_ttl (ks_options ks)) now (ks_shards ks) = Some shards \<and>
    swept ks (ks\<lparr>ks_shards := shards\<rparr>) now \<and> ks_inv (ks\<lparr>ks_shards := shards\<rparr>) now \<and>
    length shards = length (ks_shards ks) \<and>
    (\<forall>i < length shards. em_contents (shards ! i) =
       filter (fresh (ko_ttl (ks_options ks)) now) (em_contents (ks_shards ks ! i)))"
proof -
  have "\<forall>j < length (ks_shards ks). shard_inv (length (ks_shards ks)) (0 + j) (ks_visits ks) t (ks_shards ks ! j)"
    using inv by (simp add: ks_inv_def)
  from expire_shards_ok [OF this t, of "ko_ttl (ks_options ks)"] obtain shards where
    sh: "expire_shards (ko_ttl (ks_options ks)) now (ks_shards ks) = Some shards"
      "length shards = length (ks_shards ks)"
      "\<forall>j < length (ks_shards ks). shard_inv (length (ks_shards ks)) (0 + j) (ks_visits ks) now (shards ! j) \<and>
         em_contents (shards ! j) = filter (fresh (ko_ttl (ks_options ks)) now) (em_contents (ks_shards ks ! j))"
    by blast
  then have sw: "swept ks (ks\<lparr>ks_shards := shards\<rparr>) now" by (simp add: swept_def)
  moreover have "ks_inv (ks\<lparr>ks_shards := shards\<rparr>) now"
    using sh(2,3) by (intro swept_inv [OF inv t sw]) (auto intro: shard_inv_em)
  ultimately show ?thesis using sh by simp
qed

lemma prepare_across_ok:
  assumes inv: "ks_inv ks t" and t: "t \<le> now" and keys: "ko_max_keys (ks_options ks) \<noteq> 0"
  shows "\<exists>r ks'. prepare_across ks (key mod length (ks_shards ks)) key now = Some (r, ks') \<and> prepared ks key now r ks'"
proof -
  let ?i = "key mod length (ks_shards ks)" let ?max = "ko_max_keys (ks_options ks)"
  obtain shards where sh: "expire_shards (ko_ttl (ks_options ks)) now (ks_shards ks) = Some shards"
    "swept ks (ks\<lparr>ks_shards := shards\<rparr>) now" "ks_inv (ks\<lparr>ks_shards := shards\<rparr>) now"
    "length shards = length (ks_shards ks)"
    "\<forall>i < length shards. em_contents (shards ! i) =
       filter (fresh (ko_ttl (ks_options ks)) now) (em_contents (ks_shards ks ! i))"
    using expire_all_ok [OF inv t] by blast
  let ?ks = "ks\<lparr>ks_shards := shards\<rparr>"
  have i: "?i < length shards" using ks_inv_nonempty [OF inv] sh(4) by simp
  have own: "own_swept ks ?ks key now" using sh(5) i by (simp add: own_swept_def)
  have inv_i: "\<forall>j < length shards. shard_inv (length shards) j (ks_visits ks) now (shards ! j)"
    using sh(3) by (simp add: ks_inv_def)
  have em: "\<forall>m \<in> set shards. em_inv m" using inv_i shard_inv_em by (metis in_set_conv_nth)
  have lease: "\<exists>r ks'. ks_lease ?ks key now entry = (r, ks') \<and> prepared ks key now r ks'"
    if "entry_ok shards ?max key entry" "lease_cell0 entry" for entry
    using ks_lease_ok [OF sh(3) _ sh(2) own] that by simp
  have total: "total_active shards 0 = Some (active_keys shards)" and le: "active_keys shards \<le> ?max"
    using total_active_ok [OF em, of 0] sh(3) by (simp_all add: ks_inv_def)
  have contains: "em_contains_key (shards ! ?i) key = (key \<in> fst ` set (em_contents (shards ! ?i)))"
    using em i by (simp add: em_contains_key_spec)
  consider "key \<in> fst ` set (em_contents (shards ! ?i))"
    | "key \<notin> fst ` set (em_contents (shards ! ?i))" "active_keys shards < ?max"
    | "key \<notin> fst ` set (em_contents (shards ! ?i))" "?max \<le> active_keys shards" by linarith
  then show ?thesis
  proof cases
    case 1
    then show ?thesis using lease [of "Across ?i"] sh(1,4) contains by (simp add: prepare_across_def)
  next
    case 2
    then show ?thesis
      using lease [of "Vacant ?i 0 None"] sh(1,4) contains total by (simp add: prepare_across_def)
  next
    case 3
    obtain j where "select_victim 0 shards None None = Some (Some j)" "least_ordinal shards j"
      using select_victim_ok [OF inv_i] 3(2) keys by auto
    then show ?thesis
      using 3 le lease [of "Vacant ?i 0 (Some j)"] sh(1,4) contains total by (simp add: prepare_across_def)
  qed
qed

lemma prepare_ok:
  assumes inv: "ks_inv ks t" and t: "t \<le> now"
  shows "\<exists>r ks'. prepare ks key now = Some (r, ks') \<and> prepared ks key now r ks'"
proof (cases "ko_max_keys (ks_options ks) = 0")
  case True
  then show ?thesis using ks_inv_mono [OF inv t] by (simp add: prepare_def prepared_def swept_refl)
next
  case False
  let ?i = "key mod length (ks_shards ks)" let ?ttl = "ko_ttl (ks_options ks)"
  have i: "?i < length (ks_shards ks)" by (rule ks_inv_nonempty [OF inv])
  obtain m where m: "expire_shard ?ttl now (ks_shards ks ! ?i) = Some m"
    "shard_inv (length (ks_shards ks)) ?i (ks_visits ks) now m"
    "em_contents m = filter (fresh ?ttl now) (em_contents (ks_shards ks ! ?i))"
    using expire_shard_ok [OF ks_inv_shard [OF inv i] t] by blast
  let ?ks = "ks\<lparr>ks_shards := (ks_shards ks)[?i := m]\<rparr>"
  have sw: "swept ks ?ks now" using m(3) i by (auto simp: swept_def nth_list_update)
  have inv': "ks_inv ?ks now"
    using shard_inv_em [OF m(2)] shard_inv_em [OF ks_inv_shard [OF inv]]
    by (intro swept_inv [OF inv t sw]) (use i in \<open>auto simp: nth_list_update\<close>)
  have own: "own_swept ks ?ks key now" using m(3) i by (simp add: own_swept_def)
  have contains: "em_contains_key m key = (key \<in> fst ` set (em_contents m))"
    using em_contains_key_spec [OF shard_inv_em [OF m(2)]] .
  show ?thesis
  proof (cases "key \<in> fst ` set (em_contents m)")
    case True
    then show ?thesis
      using ks_lease_ok [OF inv' _ sw own, of "Present ?i"] False i m(1) contains ks_shard_ok [OF inv]
      by (simp add: prepare_def)
  next
    case absent: False
    obtain r ks' where r: "prepare_across ?ks ?i key now = Some (r, ks')" "prepared ?ks key now r ks'"
      using prepare_across_ok [OF inv' order_refl, of key] False by auto
    have "own_swept ks ks' key now" if "own_swept ?ks ks' key now"
      using that own i by (simp add: own_swept_def)
    then have "prepared ks key now r ks'"
      using r(2) swept_trans [OF sw, of ks'] False unfolding prepared_def
      by (auto split: sum.splits option.splits)
    then show ?thesis using r(1) absent False m(1) contains ks_shard_ok [OF inv] by (simp add: prepare_def)
  qed
qed

end
