(* ===== verification/Key_Lease.thy ===== *)
theory Key_Lease
  imports Keyed_Store
begin

text \<open>
  What a lease on the key store does (KeyLease in crates/rate-limit/src/keyed.rs): reading and
  storing the leased cell, undoing a store, and the commit that publishes a visit and evicts the
  least recently used key of a full store.
\<close>

section \<open>Charging and committing\<close>

lemma em_modify_undo:
  assumes "em_inv m" and "em_get m k = Some v" and "g (f v) = v"
  shows "em_modify (em_modify m k f) k g = m"
proof -
  have "distinct (map fst (em_entries m))" using assms(1) by (simp add: em_inv_def)
  then have "node_value n = v" if "(k, n) \<in> set (em_entries m)" for n
    using that assms(2) by (auto simp: em_get_def split: option.splits)
  then have "map ((\<lambda>(k', n). (k', if k' = k then n\<lparr>node_value := g (node_value n)\<rparr> else n)) \<circ>
      (\<lambda>(k', n). (k', if k' = k then n\<lparr>node_value := f (node_value n)\<rparr> else n))) (em_entries m) = em_entries m"
    using assms(3) by (intro map_idI) auto
  then show ?thesis by (simp add: em_modify_def)
qed

lemma store_cell_undo:
  assumes "i < length (ks_shards ks)" and "em_inv (ks_shards ks ! i)"
    and "em_get (ks_shards ks ! i) k = Some e"
  shows "store_cell (store_cell ks i k h) i k (en_horizon e) = ks"
  using assms em_modify_undo [OF assms(2,3), of "\<lambda>e'. e'\<lparr>en_horizon := en_horizon e\<rparr>"]
  by (simp add: store_cell_def)

lemma map_fst_snd_update [simp]:
  "map fst (map (\<lambda>(k', v). (k', if k' = k then f v else v)) xs) = map fst xs"
  by (auto split: prod.splits)

text \<open>A store to one cell changes no key, no age and no ordinal.\<close>

definition with_horizon :: "key_fingerprint \<Rightarrow> nanos \<Rightarrow> key_fingerprint \<times> key_entry \<Rightarrow> key_fingerprint \<times> key_entry" where
  "with_horizon k h = (\<lambda>(k', e). (k', if k' = k then e\<lparr>en_horizon := h\<rparr> else e))"

lemma with_horizon_simps [simp]:
  "fst (with_horizon k h x) = fst x"
  "en_last_seen (snd (with_horizon k h x)) = en_last_seen (snd x)"
  "en_ordinal (snd (with_horizon k h x)) = en_ordinal (snd x)"
  by (auto simp: with_horizon_def split: prod.splits)

lemma visited_before_fields:
  "visited_before x y = (en_last_seen (snd x) \<le> en_last_seen (snd y) \<and> en_ordinal (snd x) < en_ordinal (snd y))"
  by (cases x; cases y) (simp add: visited_before_def)

lemma entry_inv_fields:
  "entry_inv n i v t x = (fst x mod n = i \<and> en_last_seen (snd x) \<le> t \<and> en_ordinal (snd x) < v)"
  by (cases x) (simp add: entry_inv_def)

lemma modify_contents:
  "em_inv m \<Longrightarrow> em_contents (em_modify m k (\<lambda>e. e\<lparr>en_horizon := h\<rparr>)) = map (with_horizon k h) (em_contents m)"
  using em_modify_spec [of m k "\<lambda>e. e\<lparr>en_horizon := h\<rparr>"] by (simp add: with_horizon_def)

lemma modify_inv:
  assumes "shard_inv n i v t m"
  shows "shard_inv n i v t (em_modify m k (\<lambda>e. e\<lparr>en_horizon := h\<rparr>))"
proof -
  have "(\<lambda>x y. visited_before (with_horizon k h x) (with_horizon k h y)) = visited_before"
    by (simp add: fun_eq_iff visited_before_fields)
  moreover have "em_inv (em_modify m k (\<lambda>e. e\<lparr>en_horizon := h\<rparr>))"
    using em_modify_spec [OF shard_inv_em [OF assms]] by blast
  ultimately show ?thesis
    using assms by (simp add: shard_inv_def modify_contents list_all_iff sorted_wrt_map entry_inv_fields)
qed

lemma store_cell_contents:
  assumes "ks_inv ks t" and "i < length (ks_shards ks)" and "j < length (ks_shards ks)"
  shows "em_contents (ks_shards (store_cell ks i k h) ! j) =
    (if j = i then map (with_horizon k h) (em_contents (ks_shards ks ! i)) else em_contents (ks_shards ks ! j))"
  using assms modify_contents [OF shard_inv_em [OF ks_inv_shard [OF assms(1,2)]]]
  by (simp add: store_cell_def nth_list_update)

lemma store_cell_inv:
  assumes inv: "ks_inv ks t" and i: "i < length (ks_shards ks)"
  shows "ks_inv (store_cell ks i k h) t"
    and "active_keys (ks_shards (store_cell ks i k h)) = active_keys (ks_shards ks)"
proof -
  let ?m = "em_modify (ks_shards ks ! i) k (\<lambda>e. e\<lparr>en_horizon := h\<rparr>)"
  have "length (em_contents ?m) = length (em_contents (ks_shards ks ! i))"
    by (simp add: modify_contents shard_inv_em [OF ks_inv_shard [OF inv i]])
  then have active: "active_keys ((ks_shards ks)[i := ?m]) = active_keys (ks_shards ks)"
    using active_update [OF i, of ?m] by simp
  then show "active_keys (ks_shards (store_cell ks i k h)) = active_keys (ks_shards ks)"
    by (simp add: store_cell_def)
  show "ks_inv (store_cell ks i k h) t"
    using ks_inv_update [OF inv i modify_inv [OF ks_inv_shard [OF inv i]]] active inv
    by (simp add: store_cell_def ks_inv_def)
qed

lemma store_cell_entry:
  assumes inv: "ks_inv ks t" and i: "i = key mod length (ks_shards ks)"
    and key: "key \<in> fst ` set (em_contents (ks_shards ks ! i))"
  shows "\<exists>e. em_get (ks_shards ks ! i) key = Some e \<and> (key, e) \<in> set (em_contents (ks_shards ks ! i))"
    and "map_option en_horizon (em_get (ks_shards (store_cell ks i key h) ! i) key) = Some h"
    and "key \<in> fst ` set (em_contents (ks_shards (store_cell ks i key h) ! i))"
proof -
  have il: "i < length (ks_shards ks)" using ks_inv_nonempty [OF inv] i by simp
  note em = shard_inv_em [OF ks_inv_shard [OF inv il]]
  obtain e where e: "map_of (em_contents (ks_shards ks ! i)) key = Some e"
    using key by (metis map_of_eq_None_iff not_Some_eq)
  then show "\<exists>e. em_get (ks_shards ks ! i) key = Some e \<and> (key, e) \<in> set (em_contents (ks_shards ks ! i))"
    using em_get_spec [OF em] map_of_SomeD by fastforce
  show "key \<in> fst ` set (em_contents (ks_shards (store_cell ks i key h) ! i))"
    using key store_cell_contents [OF inv il il] by (simp add: image_image)
  have "map_of (map (with_horizon key h) xs) key = map_option (\<lambda>e. e\<lparr>en_horizon := h\<rparr>) (map_of xs key)" for xs
    by (induction xs) (auto simp: with_horizon_def)
  moreover have "em_inv (ks_shards (store_cell ks i key h) ! i)"
    using em_modify_spec [OF em] il by (simp add: store_cell_def)
  ultimately show "map_option en_horizon (em_get (ks_shards (store_cell ks i key h) ! i) key) = Some h"
    using e store_cell_contents [OF inv il il] by (simp add: em_get_spec)
qed

lemma store_cell_fields [simp]:
  "ks_visits (store_cell ks i k h) = ks_visits ks"
  "ks_options (store_cell ks i k h) = ks_options ks"
  "ks_evictions (store_cell ks i k h) = ks_evictions ks"
  "length (ks_shards (store_cell ks i k h)) = length (ks_shards ks)"
  by (simp_all add: store_cell_def)

text \<open>
  A store through the lease is read back, keeps the lease valid, and storing the former horizon
  undoes it exactly.
\<close>

lemma lease_store_ok:
  assumes inv: "ks_inv ks t" and ok: "lease_ok ks l"
  shows "\<exists>before ks' l'. lease_cell ks l = Some before \<and> lease_store ks l h = (ks', l') \<and>
    ks_inv ks' t \<and> lease_ok ks' l' \<and> lease_cell ks' l' = Some h \<and>
    kl_key l' = kl_key l \<and> kl_now l' = kl_now l \<and> kl_ordinal l' = kl_ordinal l \<and>
    lease_store ks' l' before = (ks, l)"
proof -
  have held: ?thesis if e: "kl_entry l = Present i \<or> kl_entry l = Across i" for i
  proof -
    have i: "i = kl_key l mod length (ks_shards ks)" and key: "kl_key l \<in> fst ` set (em_contents (ks_shards ks ! i))"
      using ok e by (auto simp: lease_ok_def)
    have il: "i < length (ks_shards ks)" using ks_inv_nonempty [OF inv] i by simp
    let ?ks = "store_cell ks i (kl_key l) h"
    obtain en where en: "em_get (ks_shards ks ! i) (kl_key l) = Some en"
      using store_cell_entry(1) [OF inv i key] by blast
    have "\<forall>j < length (ks_shards ?ks). \<forall>x \<in> set (em_contents (ks_shards ?ks ! j)).
        en_ordinal (snd x) < kl_ordinal l \<and> en_last_seen (snd x) \<le> kl_now l"
      using ok store_cell_contents [OF inv il] il by (simp add: lease_ok_def)
    then have "lease_ok ?ks l"
      using ok e i store_cell_entry(3) [OF inv i key, of h]
      by (elim disjE; simp add: lease_ok_def)
    then show ?thesis
      using e en store_cell_inv(1) [OF inv il] store_cell_entry(2) [OF inv i key, of h]
        store_cell_undo [OF il shard_inv_em [OF ks_inv_shard [OF inv il]] en]
      by (intro exI [of _ "en_horizon en"] exI [of _ ?ks] exI [of _ l]) (auto simp: lease_cell_def lease_store_def)
  qed
  show ?thesis
  proof (cases "kl_entry l")
    case (Vacant i cell victim)
    then have "lease_ok ks (l\<lparr>kl_entry := Vacant i h victim\<rparr>)"
      using ok by (cases victim) (auto simp: lease_ok_def)
    then show ?thesis using Vacant inv by (auto simp: lease_cell_def lease_store_def)
  qed (use held in auto)
qed

text \<open>A shard that keeps some of its entries, in order, and gets the newest one at the back.\<close>

lemma shard_inv_push:
  assumes inv: "shard_inv n i v t m" and m': "em_inv m'" "em_contents m' = xs @ [(k, e)]"
    and sub: "subseq xs (em_contents m)"
    and newest: "\<forall>x \<in> set (em_contents m). en_ordinal (snd x) < en_ordinal e \<and> en_last_seen (snd x) \<le> en_last_seen e"
    and e: "k mod n = i" "en_last_seen e \<le> t" "en_ordinal e < v"
  shows "shard_inv n i v t m'"
  using inv m' sorted_wrt_subseq [OF sub] set_subseq [OF sub] newest e
  by (auto simp: shard_inv_def list_all_iff sorted_wrt_append visited_before_fields entry_inv_fields)

lemma touch_entry_ok:
  assumes inv: "shard_inv n i v now m" and e: "map_of (em_contents m) key = Some e"
    and newest: "\<forall>x \<in> set (em_contents m). en_ordinal (snd x) < ordinal \<and> en_last_seen (snd x) \<le> now"
    and v: "ordinal < v"
  shows "\<exists>m'. touch_entry m key now ordinal = Some m' \<and> shard_inv n i v now m' \<and>
    em_contents m' = filter (\<lambda>(k', _). k' \<noteq> key) (em_contents m) @
      [(key, \<lparr>en_horizon = en_horizon e, en_last_seen = now, en_ordinal = ordinal\<rparr>)]"
proof -
  let ?xs = "filter (\<lambda>(k', _). k' \<noteq> key) (em_contents m)"
  let ?e = "\<lparr>en_horizon = en_horizon e, en_last_seen = now, en_ordinal = ordinal\<rparr>"
  obtain m1 where m1: "em_remove m key = Some (Some e, m1)" "em_inv m1" "em_contents m1 = ?xs"
    using em_remove_spec [OF shard_inv_em [OF inv], of key] e by auto
  have mem: "(key, e) \<in> set (em_contents m)" by (rule map_of_SomeD [OF e])
  have upd: "e\<lparr>en_last_seen := max (en_last_seen e) now, en_ordinal := ordinal\<rparr> = ?e"
    using newest mem by (cases e) (auto simp: max_def)
  obtain ok m2 where ins: "em_insert m1 key ?e = (ok, m2)" by (cases "em_insert m1 key ?e")
  have "key \<notin> fst ` set (em_contents m1)" using m1(3) by auto
  then have m2: ok "em_inv m2" "em_contents m2 = ?xs @ [(key, ?e)]"
    using em_insert_spec [OF m1(2), of key ?e] ins m1(3) by simp_all
  have "shard_inv n i v now m2"
    using newest shard_inv_entries [OF inv mem] v by (intro shard_inv_push [OF inv m2(2,3)]) auto
  then show ?thesis using m1(1) ins m2(1,3) upd by (simp add: touch_entry_def)
qed

definition retained :: "keyed_store \<Rightarrow> (key_fingerprint \<times> key_entry) set" where
  "retained ks = (\<Union>m \<in> set (ks_shards ks). set (em_contents m))"

lemma retained_iff:
  "x \<in> retained ks \<longleftrightarrow> (\<exists>j < length (ks_shards ks). x \<in> set (em_contents (ks_shards ks ! j)))"
proof -
  have "x \<in> retained ks \<longleftrightarrow> (\<exists>m \<in> set (ks_shards ks). x \<in> set (em_contents m))" by (simp add: retained_def)
  then show ?thesis by (auto simp: set_conv_nth)
qed

lemma lease_newest:
  assumes "lease_ok ks l" and "x \<in> retained ks"
  shows "en_ordinal (snd x) < kl_ordinal l \<and> en_last_seen (snd x) \<le> kl_now l"
  using assms unfolding lease_ok_def retained_iff by blast

lemma own_shard:
  assumes "ks_inv ks t" and "j < length (ks_shards ks)" and "x \<in> set (em_contents (ks_shards ks ! j))"
  shows "fst x mod length (ks_shards ks) = j"
  using shard_inv_entries [OF ks_inv_shard [OF assms(1,2)], of "fst x" "snd x"] assms(3) by simp

lemma retained_shard:
  assumes "ks_inv ks t"
  shows "x \<in> retained ks \<longleftrightarrow> x \<in> set (em_contents (ks_shards ks ! (fst x mod length (ks_shards ks))))"
  using own_shard [OF assms] ks_inv_nonempty [OF assms, of "fst x"] by (metis retained_iff)

lemma retained_own:
  assumes "ks_inv ks t" and "i < length (ks_shards ks)"
  shows "x \<in> set (em_contents (ks_shards ks ! i)) \<longleftrightarrow> x \<in> retained ks \<and> fst x mod length (ks_shards ks) = i"
  using own_shard [OF assms, of x] retained_shard [OF assms(1), of x] by auto

lemma retained_update:
  assumes inv: "ks_inv ks t" and i: "i < length (ks_shards ks)"
  shows "retained (ks\<lparr>ks_shards := (ks_shards ks)[i := m]\<rparr>) =
    {x \<in> retained ks. fst x mod length (ks_shards ks) \<noteq> i} \<union> set (em_contents m)"
proof -
  have "x \<in> retained (ks\<lparr>ks_shards := (ks_shards ks)[i := m]\<rparr>) \<longleftrightarrow>
      (\<exists>j < length (ks_shards ks). j \<noteq> i \<and> x \<in> set (em_contents (ks_shards ks ! j))) \<or> x \<in> set (em_contents m)" for x
    unfolding retained_iff using i by (auto simp: nth_list_update)
  moreover have "x \<in> retained ks \<and> fst x mod length (ks_shards ks) \<noteq> i \<longleftrightarrow>
      (\<exists>j < length (ks_shards ks). j \<noteq> i \<and> x \<in> set (em_contents (ks_shards ks ! j)))" for x
    unfolding retained_iff using own_shard [OF inv] by metis
  ultimately show ?thesis by blast
qed

text \<open>
  What a commit leaves: the visited key with the stored horizon and the newest ordinal, and every
  other entry, but for the least recently visited one when the store was full and the key absent.
\<close>

definition committed_entry :: "key_lease \<Rightarrow> nanos \<Rightarrow> key_fingerprint \<times> key_entry" where
  "committed_entry l cell = (kl_key l, \<lparr>en_horizon = cell, en_last_seen = kl_now l, en_ordinal = kl_ordinal l\<rparr>)"

definition least_recent :: "(key_fingerprint \<times> key_entry) set \<Rightarrow> key_fingerprint \<times> key_entry \<Rightarrow> bool" where
  "least_recent xs x = (x \<in> xs \<and> (\<forall>y \<in> xs. en_ordinal (snd x) \<le> en_ordinal (snd y)))"

definition evicted :: "keyed_store \<Rightarrow> key_fingerprint \<Rightarrow> (key_fingerprint \<times> key_entry) set \<Rightarrow> bool" where
  "evicted ks key gone =
     (if key \<notin> fst ` retained ks \<and> active_keys (ks_shards ks) = ko_max_keys (ks_options ks)
      then \<exists>x. gone = {x} \<and> least_recent (retained ks) x
      else gone = {})"

definition committed :: "keyed_store \<Rightarrow> key_lease \<Rightarrow> nanos \<Rightarrow> keyed_store \<Rightarrow> bool" where
  "committed ks l cell ks' = (ks_inv ks' (kl_now l) \<and> ks_options ks' = ks_options ks \<and> ks_visits ks' = ks_visits ks \<and>
     (\<exists>gone. evicted ks (kl_key l) gone \<and>
        retained ks' = insert (committed_entry l cell) ({x \<in> retained ks. fst x \<noteq> kl_key l} - gone)))"

lemma commit_present:
  assumes inv: "ks_inv ks (kl_now l)" and ok: "lease_ok ks l"
    and e: "kl_entry l = Present i \<or> kl_entry l = Across i"
  shows "\<exists>ks' cell. lease_cell ks l = Some cell \<and> lease_commit ks l = Some ks' \<and> committed ks l cell ks'"
proof -
  have i: "i = kl_key l mod length (ks_shards ks)" and key: "kl_key l \<in> fst ` set (em_contents (ks_shards ks ! i))"
    using ok e by (auto simp: lease_ok_def)
  have il: "i < length (ks_shards ks)" using ks_inv_nonempty [OF inv] i by simp
  let ?m = "ks_shards ks ! i"
  obtain en where en: "map_of (em_contents ?m) (kl_key l) = Some en"
    using key by (metis map_of_eq_None_iff not_Some_eq)
  have newest: "\<forall>x \<in> set (em_contents ?m). en_ordinal (snd x) < kl_ordinal l \<and> en_last_seen (snd x) \<le> kl_now l"
    and v: "kl_ordinal l < ks_visits ks" using ok il by (auto simp: lease_ok_def)
  obtain m' where m': "touch_entry ?m (kl_key l) (kl_now l) (kl_ordinal l) = Some m'"
    "shard_inv (length (ks_shards ks)) i (ks_visits ks) (kl_now l) m'"
    "em_contents m' = filter (\<lambda>(k', _). k' \<noteq> kl_key l) (em_contents ?m) @ [committed_entry l (en_horizon en)]"
    using touch_entry_ok [OF ks_inv_shard [OF inv il] en newest v] by (auto simp: committed_entry_def)
  let ?ks = "ks\<lparr>ks_shards := (ks_shards ks)[i := m']\<rparr>"
  have "length (filter (\<lambda>(k', _). k' \<noteq> kl_key l) (em_contents ?m)) < length (em_contents ?m)"
    using map_of_SomeD [OF en] by (intro length_filter_less [of "(kl_key l, en)"]) auto
  then have "length (em_contents m') \<le> length (em_contents ?m)" using m'(3) by simp
  then have "active_keys ((ks_shards ks)[i := m']) \<le> active_keys (ks_shards ks)"
    using active_update [OF il, of m'] by linarith
  then have inv': "ks_inv ?ks (kl_now l)"
    using ks_inv_update [OF inv il m'(2)] inv by (simp add: ks_inv_def)
  have "kl_key l \<in> fst ` retained ks" 
    using map_of_SomeD [OF en] il by (intro image_eqI [of _ _ "(kl_key l, en)"]) (auto simp: retained_iff)
  then have "evicted ks (kl_key l) {}" by (simp add: evicted_def)
  moreover have "{x \<in> retained ks. fst x \<noteq> kl_key l} =
      {x \<in> retained ks. fst x mod length (ks_shards ks) \<noteq> i} \<union> {x \<in> set (em_contents ?m). fst x \<noteq> kl_key l}"
    (is "?L = ?R")
  proof (rule set_eqI)
    show "x \<in> ?L \<longleftrightarrow> x \<in> ?R" for x using retained_own [OF inv il, of x] i by auto
  qed
  then have "retained ?ks = insert (committed_entry l (en_horizon en)) ({x \<in> retained ks. fst x \<noteq> kl_key l} - {})"
    using retained_update [OF inv il, of m'] m'(3) by (auto simp: case_prod_unfold)
  moreover have "lease_cell ks l = Some (en_horizon en)" "lease_commit ks l = Some ?ks"
    using e m'(1) em_get_spec [OF shard_inv_em [OF ks_inv_shard [OF inv il]]] en
    by (auto simp: lease_cell_def lease_commit_def)
  ultimately show ?thesis using inv' unfolding committed_def by auto
qed

text \<open>The insertion of the vacant case, into a store with room that holds no newer entry.\<close>

lemma insert_vacant:
  assumes inv: "ks_inv ks t" and i: "i = fst x mod length (ks_shards ks)"
    and absent: "fst x \<notin> fst ` retained ks" and room: "active_keys (ks_shards ks) < ko_max_keys (ks_options ks)"
    and newest: "\<forall>y \<in> retained ks. en_ordinal (snd y) < en_ordinal (snd x) \<and> en_last_seen (snd y) \<le> en_last_seen (snd x)"
    and x: "en_last_seen (snd x) \<le> t" "en_ordinal (snd x) < ks_visits ks"
  shows "\<exists>m. em_insert (ks_shards ks ! i) (fst x) (snd x) = (True, m) \<and>
    ks_inv (ks\<lparr>ks_shards := (ks_shards ks)[i := m]\<rparr>) t \<and>
    retained (ks\<lparr>ks_shards := (ks_shards ks)[i := m]\<rparr>) = insert x (retained ks)"
proof -
  have il: "i < length (ks_shards ks)" using ks_inv_nonempty [OF inv] i by simp
  let ?m = "ks_shards ks ! i"
  note sh = ks_inv_shard [OF inv il]
  have sub: "set (em_contents ?m) \<subseteq> retained ks" using retained_own [OF inv il] by blast
  obtain ok m where ins: "em_insert ?m (fst x) (snd x) = (ok, m)" by (cases "em_insert ?m (fst x) (snd x)")
  have "fst x \<notin> fst ` set (em_contents ?m)" using absent sub by blast
  then have m: ok "em_inv m" "em_contents m = em_contents ?m @ [(fst x, snd x)]"
    using em_insert_spec [OF shard_inv_em [OF sh], of "fst x" "snd x"] ins by simp_all
  have shard: "shard_inv (length (ks_shards ks)) i (ks_visits ks) t m"
    using newest sub x i by (intro shard_inv_push [OF sh m(2,3)]) auto
  have "active_keys ((ks_shards ks)[i := m]) = Suc (active_keys (ks_shards ks))"
    using active_update [OF il, of m] m(3) by simp
  then have "ks_inv (ks\<lparr>ks_shards := (ks_shards ks)[i := m]\<rparr>) t"
    using ks_inv_update [OF inv il shard] room by simp
  moreover have "retained (ks\<lparr>ks_shards := (ks_shards ks)[i := m]\<rparr>) = insert x (retained ks)"
    unfolding retained_update [OF inv il] m(3)
    using retained_own [OF inv il] by (auto simp: insert_commute)
  ultimately show ?thesis using ins m(1) by simp
qed

text \<open>The eviction: the front of the victim's shard is the least recent entry of the whole store.\<close>

lemma evict_victim:
  assumes inv: "ks_inv ks t" and v: "least_ordinal (ks_shards ks) v"
  shows "\<exists>x m. em_remove_oldest (ks_shards ks ! v) = Some (Some (snd x), m) \<and> least_recent (retained ks) x \<and>
    ks_inv (ks\<lparr>ks_shards := (ks_shards ks)[v := m]\<rparr>) t \<and>
    retained (ks\<lparr>ks_shards := (ks_shards ks)[v := m]\<rparr>) = retained ks - {x} \<and>
    Suc (active_keys ((ks_shards ks)[v := m])) = active_keys (ks_shards ks)"
proof -
  have vl: "v < length (ks_shards ks)" using v by (simp add: least_ordinal_def)
  let ?m = "ks_shards ks ! v"
  note sh = ks_inv_shard [OF inv vl]
  obtain x xs where c: "em_contents ?m = x # xs" using v by (cases "em_contents ?m") (auto simp: least_ordinal_def)
  obtain m where m: "em_remove_oldest ?m = Some (Some (snd x), m)" "em_inv m" "em_contents m = xs"
    using em_remove_oldest_spec [OF shard_inv_em [OF sh]] c by (cases x) auto
  have least: "least_recent (retained ks) x"
    unfolding least_recent_def
  proof
    show "x \<in> retained ks" using vl c by (auto simp: retained_iff)
    show "\<forall>y \<in> retained ks. en_ordinal (snd x) \<le> en_ordinal (snd y)"
      using v c by (fastforce simp: least_ordinal_def retained_def)
  qed
  have shard: "shard_inv (length (ks_shards ks)) v (ks_visits ks) t m"
    using c m(3) by (intro shard_inv_sub [OF sh m(2)]) auto
  have active: "Suc (active_keys ((ks_shards ks)[v := m])) = active_keys (ks_shards ks)"
    using active_update [OF vl, of m] c m(3) by simp
  have "x \<notin> set xs" using sh c by (auto simp: shard_inv_def visited_before_fields)
  then have "retained (ks\<lparr>ks_shards := (ks_shards ks)[v := m]\<rparr>) = retained ks - {x}"
    using retained_update [OF inv vl, of m] retained_own [OF inv vl] c m(3) by auto
  moreover have "ks_inv (ks\<lparr>ks_shards := (ks_shards ks)[v := m]\<rparr>) t"
    using ks_inv_update [OF inv vl shard] active inv by (simp add: ks_inv_def)
  ultimately show ?thesis using m(1) least active by blast
qed

lemma absent_everywhere:
  assumes inv: "ks_inv ks t" and "key \<notin> fst ` set (em_contents (ks_shards ks ! (key mod length (ks_shards ks))))"
  shows "key \<notin> fst ` retained ks"
  using assms(2) retained_shard [OF inv] by (metis (no_types, lifting) imageE image_eqI)

lemma commit_vacant:
  assumes inv: "ks_inv ks (kl_now l)" and ok: "lease_ok ks l" and e: "kl_entry l = Vacant i cell victim"
  shows "\<exists>ks'. lease_commit ks l = Some ks' \<and> committed ks l cell ks'"
proof -
  let ?x = "committed_entry l cell"
  have i: "i = fst ?x mod length (ks_shards ks)" and absent: "kl_key l \<notin> fst ` retained ks"
    using ok e absent_everywhere [OF inv, of "kl_key l"]
    by (cases victim; simp add: lease_ok_def committed_entry_def)+
  from absent have keys: "{x \<in> retained ks. fst x \<noteq> kl_key l} = retained ks" by force
  have newest: "\<forall>y \<in> retained ks. en_ordinal (snd y) < en_ordinal (snd ?x) \<and> en_last_seen (snd y) \<le> en_last_seen (snd ?x)"
    using lease_newest [OF ok] by (simp add: committed_entry_def)
  have x: "fst ?x = kl_key l" "en_last_seen (snd ?x) \<le> kl_now l" "en_ordinal (snd ?x) < ks_visits ks"
    "snd ?x = \<lparr>en_horizon = cell, en_last_seen = kl_now l, en_ordinal = kl_ordinal l\<rparr>"
    using ok by (simp_all add: committed_entry_def lease_ok_def)
  show ?thesis
  proof (cases victim)
    case None
    then have room: "active_keys (ks_shards ks) < ko_max_keys (ks_options ks)" using ok e by (simp add: lease_ok_def)
    then have ev: "evicted ks (kl_key l) {}" by (simp add: evicted_def)
    obtain m where m: "em_insert (ks_shards ks ! i) (fst ?x) (snd ?x) = (True, m)"
      "ks_inv (ks\<lparr>ks_shards := (ks_shards ks)[i := m]\<rparr>) (kl_now l)"
      "retained (ks\<lparr>ks_shards := (ks_shards ks)[i := m]\<rparr>) = insert ?x (retained ks)"
      using insert_vacant [OF inv i _ room newest x(2,3)] absent x(1) by auto
    have "lease_commit ks l = Some (ks\<lparr>ks_shards := (ks_shards ks)[i := m]\<rparr>)"
      using e None m(1) x(1,4) by (simp add: lease_commit_def)
    then show ?thesis using m(2,3) ev keys unfolding committed_def by auto
  next
    case (Some v)
    then have full: "active_keys (ks_shards ks) = ko_max_keys (ks_options ks)" and "least_ordinal (ks_shards ks) v"
      using ok e by (simp_all add: lease_ok_def)
    then obtain y m where y: "em_remove_oldest (ks_shards ks ! v) = Some (Some (snd y), m)"
      "least_recent (retained ks) y" "ks_inv (ks\<lparr>ks_shards := (ks_shards ks)[v := m]\<rparr>) (kl_now l)"
      "retained (ks\<lparr>ks_shards := (ks_shards ks)[v := m]\<rparr>) = retained ks - {y}"
      "Suc (active_keys ((ks_shards ks)[v := m])) = active_keys (ks_shards ks)"
      using evict_victim [OF inv] by blast
    have ev: "evicted ks (kl_key l) {y}" using absent full y(2) by (simp add: evicted_def)
    let ?ks = "ks\<lparr>ks_shards := (ks_shards ks)[v := m], ks_evictions := (ks_evictions ks + 1) mod (u64_max + 1)\<rparr>"
    have inv1: "ks_inv ?ks (kl_now l)" and ret1: "retained ?ks = retained ks - {y}"
      using y(3,4) by (simp_all add: ks_inv_def retained_def)
    obtain m2 where m2: "em_insert (ks_shards ?ks ! i) (fst ?x) (snd ?x) = (True, m2)"
      "ks_inv (?ks\<lparr>ks_shards := (ks_shards ?ks)[i := m2]\<rparr>) (kl_now l)"
      "retained (?ks\<lparr>ks_shards := (ks_shards ?ks)[i := m2]\<rparr>) = insert ?x (retained ?ks)"
      using insert_vacant [OF inv1, of i ?x] i absent full y(5) newest x ret1 by auto
    have "lease_commit ks l = Some (?ks\<lparr>ks_shards := (ks_shards ?ks)[i := m2]\<rparr>)"
      using e Some y(1) m2(1) x(1,4) by (simp add: lease_commit_def)
    then show ?thesis
      using m2(2,3) ev ret1 keys unfolding committed_def by auto
  qed
qed

lemma lease_commit_ok:
  assumes inv: "ks_inv ks (kl_now l)" and ok: "lease_ok ks l" and cell: "lease_cell ks l = Some cell"
  shows "\<exists>ks'. lease_commit ks l = Some ks' \<and> committed ks l cell ks'"
proof (cases "kl_entry l")
  case (Vacant i c victim)
  with cell have "cell = c" by (simp add: lease_cell_def)
  then show ?thesis using commit_vacant [OF inv ok Vacant] by simp
qed (use commit_present [OF inv ok] cell in auto)

lemma retained_card: "card (retained ks) \<le> active_keys (ks_shards ks)"
proof -
  have "retained ks = set (concat (map em_contents (ks_shards ks)))" by (auto simp: retained_def)
  then show ?thesis
    using card_length [of "concat (map em_contents (ks_shards ks))"]
    by (simp add: length_concat active_keys_def comp_def)
qed

lemma retained_finite [simp]: "finite (retained ks)"
  by (simp add: retained_def)

text \<open>A store through the lease touches no other key, so it does not change who would be evicted.\<close>

lemma lease_store_others:
  assumes inv: "ks_inv ks t" and ok: "lease_ok ks l" and st: "lease_store ks l h = (ks', l')"
  shows "{x \<in> retained ks'. fst x \<noteq> kl_key l} = {x \<in> retained ks. fst x \<noteq> kl_key l}"
    and "evicted ks' (kl_key l) gone \<Longrightarrow> evicted ks (kl_key l) gone"
proof -
  have held: "{x \<in> retained ks'. fst x \<noteq> kl_key l} = {x \<in> retained ks. fst x \<noteq> kl_key l} \<and>
      (evicted ks' (kl_key l) gone \<longrightarrow> evicted ks (kl_key l) gone)"
    if e: "kl_entry l = Present i \<or> kl_entry l = Across i" for i
  proof -
    have ks': "ks' = store_cell ks i (kl_key l) h" using st e by (auto simp: lease_store_def)
    have i: "i = kl_key l mod length (ks_shards ks)" and key: "kl_key l \<in> fst ` set (em_contents (ks_shards ks ! i))"
      using ok e by (auto simp: lease_ok_def)
    have il: "i < length (ks_shards ks)" using ks_inv_nonempty [OF inv] i by simp
    let ?m = "em_modify (ks_shards ks ! i) (kl_key l) (\<lambda>e. e\<lparr>en_horizon := h\<rparr>)"
    have c: "em_contents ?m = map (with_horizon (kl_key l) h) (em_contents (ks_shards ks ! i))"
      by (rule modify_contents [OF shard_inv_em [OF ks_inv_shard [OF inv il]]])
    have other: "x \<in> set (em_contents ?m) \<longleftrightarrow> x \<in> set (em_contents (ks_shards ks ! i))" if "fst x \<noteq> kl_key l" for x
      using that unfolding c by (cases x) (force simp: with_horizon_def image_iff split: if_splits)
    have "x \<in> retained ks' \<longleftrightarrow> x \<in> retained ks" if "fst x \<noteq> kl_key l" for x
      using retained_update [OF inv il, of ?m] retained_own [OF inv il, of x] other [OF that]
      unfolding ks' store_cell_def by blast
    moreover have "kl_key l \<in> fst ` retained ks" "kl_key l \<in> fst ` retained ks'"
      using key store_cell_entry(3) [OF inv i key, of h] il unfolding ks'
      by (force simp: retained_iff)+
    ultimately show ?thesis by (auto simp: evicted_def)
  qed
  have "{x \<in> retained ks'. fst x \<noteq> kl_key l} = {x \<in> retained ks. fst x \<noteq> kl_key l} \<and>
      (evicted ks' (kl_key l) gone \<longrightarrow> evicted ks (kl_key l) gone)"
    using held st by (cases "kl_entry l") (auto simp: lease_store_def)
  then show "{x \<in> retained ks'. fst x \<noteq> kl_key l} = {x \<in> retained ks. fst x \<noteq> kl_key l}"
    and "evicted ks' (kl_key l) gone \<Longrightarrow> evicted ks (kl_key l) gone" by auto
qed

lemma ks_new_inv: "0 < ko_shards options \<Longrightarrow> ko_max_keys options \<le> u64_max \<Longrightarrow> ks_inv (ks_new options) t"
  by (simp add: ks_inv_def ks_new_def shard_inv_def active_keys_def em_new_spec sum_list_replicate)

text \<open>
  C14: a visit to a key is a least-recently-used cache access. On any well-formed store with
  capacity, leasing a key, storing a horizon through the lease and committing it never panics. The
  preparation only drops entries whose TTL has passed. Afterwards the key is retained with the
  stored horizon, the time of the visit and a newer ordinal than every other entry, every other
  prepared entry is unchanged, and one of them is evicted exactly when the key was absent and the
  store full: an entry with the least ordinal of all the shards. The capacity is never exceeded.
\<close>

theorem visit_evicts_least_recent:
  assumes "ks_inv ks t" and "t \<le> now" and "0 < ko_max_keys (ks_options ks)" and "ks_visits ks < u64_max"
  shows "\<exists>l ks1 ks2 l2 ks3 gone.
    prepare ks key now = Some (Inr (Some l), ks1) \<and> swept ks ks1 now \<and>
    lease_store ks1 l h = (ks2, l2) \<and> lease_commit ks2 l2 = Some ks3 \<and> ks_inv ks3 now \<and>
    evicted ks1 key gone \<and>
    retained ks3 = insert (key, \<lparr>en_horizon = h, en_last_seen = now, en_ordinal = ks_visits ks\<rparr>)
      ({x \<in> retained ks1. fst x \<noteq> key} - gone) \<and>
    (\<forall>x \<in> retained ks1. en_ordinal (snd x) < ks_visits ks) \<and>
    card (retained ks3) \<le> ko_max_keys (ks_options ks)"
proof -
  obtain r ks1 where p: "prepare ks key now = Some (r, ks1)" "prepared ks key now r ks1"
    using prepare_ok [OF assms(1,2)] by blast
  then obtain l where l: "r = Inr (Some l)" using assms(3,4)
    by (auto simp: prepared_def split: sum.splits option.splits)
  have inv1: "ks_inv ks1 now" and sw: "swept ks ks1 now" and ok: "lease_ok ks1 l"
    and f: "kl_key l = key" "kl_now l = now" "kl_ordinal l = ks_visits ks"
    using p(2) l by (simp_all add: prepared_def)
  obtain ks2 l2 where st: "lease_store ks1 l h = (ks2, l2)" "ks_inv ks2 now" "lease_ok ks2 l2"
    "lease_cell ks2 l2 = Some h" "kl_key l2 = key" "kl_now l2 = now" "kl_ordinal l2 = ks_visits ks"
    using lease_store_ok [OF inv1 ok, of h] f by auto
  obtain ks3 where c: "lease_commit ks2 l2 = Some ks3" "committed ks2 l2 h ks3"
    using lease_commit_ok [of ks2 l2 h] st by auto
  obtain gone where g: "evicted ks2 key gone" "ks_inv ks3 now" "ks_options ks3 = ks_options ks2"
    "retained ks3 = insert (committed_entry l2 h) ({x \<in> retained ks2. fst x \<noteq> key} - gone)"
    using c(2) st(5,6) by (auto simp: committed_def)
  note others = lease_store_others [OF inv1 ok st(1), unfolded f]
  have opts: "ks_options ks2 = ks_options ks"
    using st(1) sw by (cases "kl_entry l") (auto simp: lease_store_def swept_def)
  have "card (retained ks3) \<le> ko_max_keys (ks_options ks)"
    using retained_card [of ks3] g(2,3) opts by (simp add: ks_inv_def)
  moreover have "\<forall>x \<in> retained ks1. en_ordinal (snd x) < ks_visits ks"
    using lease_newest [OF ok] f(3) by auto
  ultimately show ?thesis
    using p(1) l sw st(1) c(1) g(2) others(2) [OF g(1)] g(4) others(1) st(5-7)
    by (intro exI [of _ l] exI [of _ ks1] exI [of _ ks2] exI [of _ l2] exI [of _ ks3] exI [of _ gone])
      (simp add: committed_entry_def)
qed

definition small_options :: keyed_options where
  "small_options = \<lparr>ko_ttl = 10, ko_max_keys = 1, ko_shards = 2\<rparr>"

theorem visit_evicts_least_recent_witness:
  "\<exists>l ks1 ks2 l2 ks3 gone.
    prepare (ks_new small_options) 7 3 = Some (Inr (Some l), ks1) \<and> swept (ks_new small_options) ks1 3 \<and>
    lease_store ks1 l 9 = (ks2, l2) \<and> lease_commit ks2 l2 = Some ks3 \<and> ks_inv ks3 3 \<and>
    evicted ks1 7 gone \<and>
    retained ks3 = insert (7, \<lparr>en_horizon = 9, en_last_seen = 3, en_ordinal = ks_visits (ks_new small_options)\<rparr>)
      ({x \<in> retained ks1. fst x \<noteq> 7} - gone) \<and>
    (\<forall>x \<in> retained ks1. en_ordinal (snd x) < ks_visits (ks_new small_options)) \<and>
    card (retained ks3) \<le> ko_max_keys (ks_options (ks_new small_options))"
  by (rule visit_evicts_least_recent [of _ 0])
    (simp_all add: ks_new_inv small_options_def u64_max_def, simp_all add: ks_new_def)

end
