(* ===== verification/Rate_Limiter.thy ===== *)
theory Rate_Limiter
  imports Key_Lease
begin

text \<open>
  The allowance transaction of one execution unit (crates/rate-limit/src/lib.rs and clock.rs).

  A limiter holds an ordered list of clauses, each with a direct cell or a bounded key store. An
  admission charges every clause tentatively through a lease and then either commits all leases or
  refunds them all. The exclusive borrow of the limiter is the transaction: an admission is one
  function on the limiter. A lease borrows the store of its own clause only, so the loop over the
  clauses passes each clause's store along with the lease taken on it.

  An \<open>Instant\<close> is a count of nanoseconds from an arbitrary origin, within the range of the
  platform's time value: a signed 64-bit number of seconds and a nanosecond part.
\<close>

section \<open>Instants\<close>

definition instant_min :: instant where
  "instant_min = - 9223372036854775808000000000"

definition instant_max :: instant where
  "instant_max = 9223372036854775807999999999"

definition instant_checked_add :: "instant \<Rightarrow> nanos \<Rightarrow> instant option" where
  "instant_checked_add at d = (if at + int d \<le> instant_max then Some (at + int d) else None)"

definition instant_checked_sub :: "instant \<Rightarrow> nanos \<Rightarrow> instant option" where
  "instant_checked_sub at d = (if instant_min \<le> at - int d then Some (at - int d) else None)"

definition duration_since :: "instant \<Rightarrow> instant \<Rightarrow> nanos" where
  "duration_since later earlier = nat (later - earlier)"

section \<open>Data\<close>

datatype clause =
    Direct_clause quota
  | Keyed_clause quota keyed_options

fun clause_quota :: "clause \<Rightarrow> quota" where
  "clause_quota (Direct_clause q) = q"
| "clause_quota (Keyed_clause q keys) = q"

datatype charge =
    Direct_charge nat
  | Keyed_charge key_fingerprint nat

fun charge_cost :: "charge \<Rightarrow> nat" where
  "charge_cost (Direct_charge cost) = cost"
| "charge_cost (Keyed_charge key cost) = cost"

datatype admission =
    Admitted
  | WaitUntil instant
  | NeverAdmissible nat nat nat
  | KeyBudgetExhausted nat nat

datatype allowance_store =
    Direct_store nanos
  | Keyed_cells keyed_store

record allowance =
  al_clause :: clause
  al_store :: allowance_store

record limiter =
  li_clauses :: "allowance list"
  li_epoch :: instant
  li_latest :: instant

text \<open>
  A lease and the horizon it found: what its drop restores unless it was committed.
\<close>

datatype lease_kind =
    Direct_lease
  | Keyed_lease key_lease

record lease =
  le_kind :: lease_kind
  le_refund :: nanos

section \<open>Construction and validation\<close>

definition allowance_new :: "clause \<Rightarrow> allowance" where
  "allowance_new c = \<lparr>al_clause = c,
     al_store = (case c of Direct_clause _ \<Rightarrow> Direct_store 0 | Keyed_clause _ keys \<Rightarrow> Keyed_cells (ks_new keys))\<rparr>"

definition limiter_new :: "clause list \<Rightarrow> instant \<Rightarrow> limiter" where
  "limiter_new clauses epoch = \<lparr>li_clauses = map allowance_new clauses, li_epoch = epoch, li_latest = epoch\<rparr>"

definition li_offset :: "limiter \<Rightarrow> instant \<Rightarrow> admission_error + nat" where
  "li_offset li now =
     (if now < li_latest li then Inl ClockRegressed
      else case try_from u64_max (duration_since now (li_epoch li)) of
        None \<Rightarrow> Inl ClockRange
      | Some offset \<Rightarrow> Inr offset)"

fun charge_kind_matches :: "allowance_store \<Rightarrow> charge \<Rightarrow> bool" where
  "charge_kind_matches (Direct_store _) (Direct_charge _) = True"
| "charge_kind_matches (Keyed_cells _) (Keyed_charge _ _) = True"
| "charge_kind_matches _ _ = False"

fun validate_charges ::
  "nat \<Rightarrow> (allowance \<times> charge) list \<Rightarrow> nat \<Rightarrow> instant \<Rightarrow> admission_error option panics" where
  "validate_charges index [] offset now = Some None"
| "validate_charges index ((a, c) # rest) offset now =
     (if \<not> charge_kind_matches (al_store a) c then Some (Some (ChargeKind index))
      else do {
        nanos \<leftarrow> try_from u64_max (q_horizon (clause_quota (al_clause a)));
        if checked_add u64_max offset nanos = None \<or> instant_checked_add now nanos = None
        then Some (Some ClockRange)
        else validate_charges (Suc index) rest offset now
      })"

definition validate :: "limiter \<Rightarrow> charge list \<Rightarrow> instant \<Rightarrow> (admission_error + nat) panics" where
  "validate li charges now =
     (if length charges \<noteq> length (li_clauses li) then Some (Inl ChargeCount)
      else case li_offset li now of
        Inl e \<Rightarrow> Some (Inl e)
      | Inr offset \<Rightarrow> do {
          refusal \<leftarrow> validate_charges 0 (zip (li_clauses li) charges) offset now;
          Some (case refusal of Some e \<Rightarrow> Inl e | None \<Rightarrow> Inr offset)
        })"

section \<open>Admission\<close>

text \<open>The check for a cost above the burst, before any state changes.\<close>

fun oversized :: "nat \<Rightarrow> (allowance \<times> charge) list \<Rightarrow> admission option" where
  "oversized index [] = None"
| "oversized index ((a, c) # rest) =
     (if q_burst (clause_quota (al_clause a)) < charge_cost c
      then Some (NeverAdmissible index (charge_cost c) (q_burst (clause_quota (al_clause a))))
      else oversized (Suc index) rest)"

text \<open>
  One round of the charging loop. \<open>Refused\<close> is the error of \<open>prepare\<close>; \<open>Exhausted\<close> is the round
  that takes no lease; \<open>Charged\<close> carries the deadline when the cell does not conform.
\<close>

datatype round =
    Refused admission_error
  | Exhausted nat
  | Charged lease "instant option"

definition take_lease ::
  "allowance_store \<Rightarrow> charge \<Rightarrow> nanos \<Rightarrow> ((admission_error + lease_kind option) \<times> allowance_store) panics" where
  "take_lease store c offset =
     (case (store, c) of
        (Direct_store h, Direct_charge _) \<Rightarrow> Some (Inr (Some Direct_lease), store)
      | (Keyed_cells ks, Keyed_charge key _) \<Rightarrow> do {
          (res, ks') \<leftarrow> prepare ks key offset;
          Some (map_sum id (map_option Keyed_lease) res, Keyed_cells ks')
        }
      | _ \<Rightarrow> panic)"

definition kind_cell :: "allowance_store \<Rightarrow> lease_kind \<Rightarrow> nanos panics" where
  "kind_cell store kind =
     (case (store, kind) of
        (Direct_store h, Direct_lease) \<Rightarrow> Some h
      | (Keyed_cells ks, Keyed_lease l) \<Rightarrow> lease_cell ks l
      | _ \<Rightarrow> panic)"

definition kind_store :: "allowance_store \<Rightarrow> lease_kind \<Rightarrow> nanos \<Rightarrow> (allowance_store \<times> lease_kind) panics" where
  "kind_store store kind h =
     (case (store, kind) of
        (Direct_store _, Direct_lease) \<Rightarrow> Some (Direct_store h, Direct_lease)
      | (Keyed_cells ks, Keyed_lease l) \<Rightarrow>
          (let (ks', l') = lease_store ks l h in Some (Keyed_cells ks', Keyed_lease l'))
      | _ \<Rightarrow> panic)"

definition charge_one ::
  "gcra \<Rightarrow> instant \<Rightarrow> nat \<Rightarrow> allowance \<Rightarrow> charge \<Rightarrow> (round \<times> allowance) panics" where
  "charge_one g now offset a c = do {
     (leased, store) \<leftarrow> take_lease (al_store a) c offset;
     let a1 = a\<lparr>al_store := store\<rparr>;
     case leased of
       Inl e \<Rightarrow> Some (Refused e, a1)
     | Inr None \<Rightarrow>
         (case al_clause a of
            Keyed_clause _ keys \<Rightarrow> Some (Exhausted (ko_max_keys keys), a1)
          | Direct_clause _ \<Rightarrow> panic)
     | Inr (Some kind) \<Rightarrow> do {
         before \<leftarrow> kind_cell store kind;
         (decision, after) \<leftarrow> measure_and_replace g (clause_quota (al_clause a)) (charge_cost c) offset before;
         (store', kind') \<leftarrow> kind_store store kind after;
         let charged = a\<lparr>al_store := store'\<rparr>;
         let held = \<lparr>le_kind = kind', le_refund = before\<rparr>;
         case decision of
           Conforming _ \<Rightarrow> Some (Charged held None, charged)
         | Not_until wait \<Rightarrow> do {
             deadline \<leftarrow> instant_checked_add now wait;
             Some (Charged held (Some deadline), charged)
           }
         | Insufficient \<Rightarrow> panic
       }
   }"

text \<open>
  The loop ends early on an error. Its result is what each charged clause took, the clauses as they
  then are, the latest deadline and the last exhausted clause.
\<close>

record tentative =
  te_done :: "(allowance \<times> lease option) list"
  te_wait :: "instant option"
  te_exhausted :: "admission option"

definition latest_deadline :: "instant option \<Rightarrow> instant option \<Rightarrow> instant option" where
  "latest_deadline wait deadline =
     (case deadline of None \<Rightarrow> wait
      | Some d \<Rightarrow> Some (case wait of Some previous \<Rightarrow> max previous d | None \<Rightarrow> d))"

fun charge_all ::
  "gcra \<Rightarrow> instant \<Rightarrow> nat \<Rightarrow> nat \<Rightarrow> (allowance \<times> charge) list \<Rightarrow> tentative \<Rightarrow>
   (admission_error option \<times> tentative) panics" where
  "charge_all g now offset index [] te = Some (None, te)"
| "charge_all g now offset index ((a, c) # rest) te = do {
     (round, a') \<leftarrow> charge_one g now offset a c;
     case round of
       Refused e \<Rightarrow> Some (Some e, te\<lparr>te_done := te_done te @ (a', None) # map (\<lambda>(b, _). (b, None)) rest\<rparr>)
     | Exhausted limit \<Rightarrow>
         charge_all g now offset (Suc index) rest
           (te\<lparr>te_done := te_done te @ [(a', None)], te_exhausted := Some (KeyBudgetExhausted index limit)\<rparr>)
     | Charged held deadline \<Rightarrow>
         charge_all g now offset (Suc index) rest
           (te\<lparr>te_done := te_done te @ [(a', Some held)], te_wait := latest_deadline (te_wait te) deadline\<rparr>)
   }"

definition rollback :: "allowance \<Rightarrow> lease \<Rightarrow> allowance panics" where
  "rollback a held = do {
     (store, _) \<leftarrow> kind_store (al_store a) (le_kind held) (le_refund held);
     Some (a\<lparr>al_store := store\<rparr>)
   }"

definition commit_lease :: "allowance \<Rightarrow> lease \<Rightarrow> allowance panics" where
  "commit_lease a held =
     (case (al_store a, le_kind held) of
        (Keyed_cells ks, Keyed_lease l) \<Rightarrow> do {
          ks' \<leftarrow> lease_commit ks l;
          Some (a\<lparr>al_store := Keyed_cells ks'\<rparr>)
        }
      | (Direct_store _, Direct_lease) \<Rightarrow> Some a
      | _ \<Rightarrow> panic)"

fun settle :: "(allowance \<Rightarrow> lease \<Rightarrow> allowance panics) \<Rightarrow> (allowance \<times> lease option) list \<Rightarrow> allowance list panics" where
  "settle f [] = Some []"
| "settle f ((a, held) # rest) = do {
     a' \<leftarrow> (case held of None \<Rightarrow> Some a | Some h \<Rightarrow> f a h);
     rest' \<leftarrow> settle f rest;
     Some (a' # rest')
   }"

definition admit_at ::
  "gcra \<Rightarrow> limiter \<Rightarrow> charge list \<Rightarrow> instant \<Rightarrow> ((admission_error + admission) \<times> limiter) panics" where
  "admit_at g li charges now = do {
     valid \<leftarrow> validate li charges now;
     case valid of
       Inl e \<Rightarrow> Some (Inl e, li)
     | Inr offset \<Rightarrow>
         (case oversized 0 (zip (li_clauses li) charges) of
            Some outcome \<Rightarrow> Some (Inr outcome, li)
          | None \<Rightarrow> do {
              (err, te) \<leftarrow> charge_all g now offset 0 (zip (li_clauses li) charges)
                 \<lparr>te_done = [], te_wait = None, te_exhausted = None\<rparr>;
              let refused = (case err of Some e \<Rightarrow> Some (Inl e)
                 | None \<Rightarrow> (case te_exhausted te of Some outcome \<Rightarrow> Some (Inr outcome)
                   | None \<Rightarrow> map_option (\<lambda>d. Inr (WaitUntil d)) (te_wait te)));
              case refused of
                Some res \<Rightarrow> do {
                  clauses \<leftarrow> settle rollback (te_done te);
                  Some (res, li\<lparr>li_clauses := clauses, li_latest := now\<rparr>)
                }
              | None \<Rightarrow> do {
                  clauses \<leftarrow> settle commit_lease (te_done te);
                  Some (Inr Admitted, li\<lparr>li_clauses := clauses, li_latest := now\<rparr>)
                }
            })
   }"

fun clause_statistics :: "nat \<Rightarrow> allowance list \<Rightarrow> key_statistics \<Rightarrow> (key_statistics \<times> allowance list) panics" where
  "clause_statistics offset [] result = Some (result, [])"
| "clause_statistics offset (a # rest) result =
     (case al_store a of
        Direct_store _ \<Rightarrow> do {
          (result', rest') \<leftarrow> clause_statistics offset rest result;
          Some (result', a # rest')
        }
      | Keyed_cells ks \<Rightarrow> do {
          (current, ks') \<leftarrow> ks_statistics ks offset;
          active \<leftarrow> checked_add u64_max (kst_active result) (kst_active current);
          evicted \<leftarrow> checked_add u128_max (kst_evicted result) (kst_evicted current);
          (result', rest') \<leftarrow> clause_statistics offset rest \<lparr>kst_active = active, kst_evicted = evicted\<rparr>;
          Some (result', a\<lparr>al_store := Keyed_cells ks'\<rparr> # rest')
        })"

definition li_key_statistics :: "limiter \<Rightarrow> instant \<Rightarrow> ((admission_error + key_statistics) \<times> limiter) panics" where
  "li_key_statistics li now =
     (case li_offset li now of
        Inl e \<Rightarrow> Some (Inl e, li)
      | Inr offset \<Rightarrow> do {
          (result, clauses) \<leftarrow> clause_statistics offset (li_clauses li) \<lparr>kst_active = 0, kst_evicted = 0\<rparr>;
          Some (Inr result, li\<lparr>li_clauses := clauses, li_latest := now\<rparr>)
        })"

section \<open>The invariant\<close>

text \<open>
  The ages and the ordinals of a key store tell one history of visits, and a key never owes more
  than one full burst from its last visit.
\<close>

definition history :: "(key_fingerprint \<times> key_entry) set \<Rightarrow> bool" where
  "history xs = (inj_on (en_ordinal \<circ> snd) xs \<and>
     (\<forall>x \<in> xs. \<forall>y \<in> xs. en_ordinal (snd x) < en_ordinal (snd y) \<longrightarrow> en_last_seen (snd x) \<le> en_last_seen (snd y)))"

definition owed :: "quota \<Rightarrow> (key_fingerprint \<times> key_entry) set \<Rightarrow> bool" where
  "owed q xs = (\<forall>x \<in> xs. en_horizon (snd x) \<le> en_last_seen (snd x) + q_horizon q)"

definition keyed_inv :: "quota \<Rightarrow> keyed_store \<Rightarrow> nanos \<Rightarrow> bool" where
  "keyed_inv q ks t = (ks_inv ks t \<and> history (retained ks) \<and> owed q (retained ks) \<and> ks_visits ks \<le> u64_max)"

fun allowance_inv :: "clause \<Rightarrow> allowance_store \<Rightarrow> nanos \<Rightarrow> bool" where
  "allowance_inv (Direct_clause q) (Direct_store h) t = (quota_ok q \<and> h \<le> t + q_horizon q)"
| "allowance_inv (Keyed_clause q keys) (Keyed_cells ks) t =
     (quota_ok q \<and> ks_options ks = keys \<and> keyed_inv q ks t)"
| "allowance_inv _ _ t = False"

definition limiter_inv :: "limiter \<Rightarrow> bool" where
  "limiter_inv li = (li_epoch li \<le> li_latest li \<and>
     (\<forall>a \<in> set (li_clauses li). allowance_inv (al_clause a) (al_store a) (duration_since (li_latest li) (li_epoch li))))"

lemma history_subset: "history xs \<Longrightarrow> ys \<subseteq> xs \<Longrightarrow> history ys"
  unfolding history_def by (meson inj_on_subset subsetD)

lemma history_insert:
  assumes "history xs" and "\<forall>y \<in> xs. en_ordinal (snd y) < en_ordinal (snd x) \<and> en_last_seen (snd y) \<le> en_last_seen (snd x)"
  shows "history (insert x xs)"
proof -
  have "inj_on (en_ordinal \<circ> snd) (insert x xs)"
    using assms by (auto simp: history_def inj_on_insert)
  moreover have "en_last_seen (snd a) \<le> en_last_seen (snd b)"
    if "a \<in> insert x xs" "b \<in> insert x xs" "en_ordinal (snd a) < en_ordinal (snd b)" for a b
    using that assms less_asym unfolding history_def by (metis insert_iff less_irrefl)
  ultimately show ?thesis by (simp add: history_def)
qed

lemma keyed_inv_mono: "keyed_inv q ks t \<Longrightarrow> t \<le> t' \<Longrightarrow> keyed_inv q ks t'"
  by (auto simp: keyed_inv_def intro: ks_inv_mono)

lemma allowance_inv_mono: "allowance_inv c st t \<Longrightarrow> t \<le> t' \<Longrightarrow> allowance_inv c st t'"
  by (cases "(c, st, t)" rule: allowance_inv.cases) (auto intro: keyed_inv_mono)

lemma swept_retained: "swept ks ks' now \<Longrightarrow> retained ks' \<subseteq> retained ks"
proof
  fix x assume sw: "swept ks ks' now" and x: "x \<in> retained ks'"
  then obtain j where "j < length (ks_shards ks)" "x \<in> set (em_contents (ks_shards ks' ! j))"
    by (auto simp: retained_iff swept_def)
  then show "x \<in> retained ks" using sw by (fastforce simp: retained_iff swept_def)
qed

section \<open>One clause\<close>

text \<open>What the key owes at the time of a visit: nothing when it is absent or its TTL has passed.\<close>

definition owes :: "keyed_store \<Rightarrow> key_fingerprint \<Rightarrow> nanos \<Rightarrow> nanos" where
  "owes ks key now =
     (case map_of (filter (fresh (ko_ttl (ks_options ks)) now) (em_contents (ks_shards ks ! (key mod length (ks_shards ks))))) key of
        None \<Rightarrow> 0 | Some e \<Rightarrow> en_horizon e)"

lemma prepared_cell:
  assumes inv: "ks_inv ks t" and p: "prepared ks key now (Inr (Some l)) ks'"
  shows "lease_cell ks' l = Some (owes ks key now)"
proof -
  let ?i = "key mod length (ks_shards ks)"
  have f: "ks_inv ks' now" "lease_ok ks' l" "own_swept ks ks' key now" "kl_key l = key"
    "lease_cell0 (kl_entry l)" "length (ks_shards ks') = length (ks_shards ks)"
    using p by (simp_all add: prepared_def swept_def)
  have il: "?i < length (ks_shards ks')" using ks_inv_nonempty [OF inv] f(6) by simp
  have own: "map_of (em_contents (ks_shards ks' ! ?i)) key =
      map_of (filter (fresh (ko_ttl (ks_options ks)) now) (em_contents (ks_shards ks ! ?i))) key"
    using f(3) by (simp add: own_swept_def)
  have get: "em_get (ks_shards ks' ! ?i) key = map_of (em_contents (ks_shards ks' ! ?i)) key"
    by (rule em_get_spec [OF shard_inv_em [OF ks_inv_shard [OF f(1) il]]])
  have held: ?thesis if e: "kl_entry l = Present i \<or> kl_entry l = Across i" for i
  proof -
    have i: "i = ?i" and "key \<in> fst ` set (em_contents (ks_shards ks' ! ?i))"
      using f(2,4,6) e by (auto simp: lease_ok_def)
    then obtain en where "map_of (em_contents (ks_shards ks' ! ?i)) key = Some en"
      by (metis map_of_eq_None_iff not_Some_eq)
    then have "owes ks key now = en_horizon en" "em_get (ks_shards ks' ! i) (kl_key l) = Some en"
      using own get i f(4) by (simp_all add: owes_def)
    then show ?thesis using e by (auto simp: lease_cell_def)
  qed
  show ?thesis
  proof (cases "kl_entry l")
    case (Vacant i cell victim)
    then have "map_of (em_contents (ks_shards ks' ! ?i)) key = None" "cell = 0"
      using f by (cases victim; auto simp: lease_ok_def map_of_eq_None_iff)+
    then show ?thesis using own Vacant by (simp add: lease_cell_def owes_def)
  qed (use held in auto)
qed

lemma keyed_inv_swept:
  assumes "keyed_inv q ks t" and "swept ks ks' now" and "ks_inv ks' now" and "ks_visits ks' \<le> u64_max"
  shows "keyed_inv q ks' now"
  using assms history_subset [OF _ swept_retained [OF assms(2)]] swept_retained [OF assms(2)]
  by (auto simp: keyed_inv_def owed_def)

definition visited :: "keyed_store \<Rightarrow> key_fingerprint \<Rightarrow> nanos \<Rightarrow> nanos \<Rightarrow> keyed_store \<Rightarrow> bool" where
  "visited ks key now h ks' = (\<exists>ks1 gone. swept ks ks1 now \<and> evicted ks1 key gone \<and>
     retained ks' = insert (key, \<lparr>en_horizon = h, en_last_seen = now, en_ordinal = ks_visits ks\<rparr>)
       ({x \<in> retained ks1. fst x \<noteq> key} - gone))"

lemma keyed_charge:
  assumes inv: "keyed_inv q ks t" and p: "prepared ks key now (Inr (Some l)) ks1"
  shows "\<exists>ks2 l2. lease_cell ks1 l = Some (owes ks key now) \<and> lease_store ks1 l h = (ks2, l2) \<and>
    lease_store ks2 l2 (owes ks key now) = (ks1, l) \<and> keyed_inv q ks1 now \<and> swept ks ks1 now \<and>
    (h \<le> now + q_horizon q \<longrightarrow> (\<exists>ks3. lease_commit ks2 l2 = Some ks3 \<and> keyed_inv q ks3 now \<and>
       ks_options ks3 = ks_options ks \<and> visited ks key now h ks3))"
proof -
  have kinv: "ks_inv ks t" using inv by (simp add: keyed_inv_def)
  have inv1: "ks_inv ks1 now" and sw: "swept ks ks1 now" and ok: "lease_ok ks1 l"
    and f: "kl_key l = key" "kl_now l = now" "kl_ordinal l = ks_visits ks"
    and visits: "ks_visits ks < u64_max"
    using p by (simp_all add: prepared_def)
  have k1: "keyed_inv q ks1 now"
    using keyed_inv_swept [OF inv sw inv1] ok f(3) visits by (simp add: lease_ok_def)
  note cell = prepared_cell [OF kinv p]
  obtain ks2 l2 where st: "lease_store ks1 l h = (ks2, l2)" "ks_inv ks2 now" "lease_ok ks2 l2"
    "lease_cell ks2 l2 = Some h" "kl_key l2 = key" "kl_now l2 = now" "kl_ordinal l2 = ks_visits ks"
    "lease_store ks2 l2 (owes ks key now) = (ks1, l)"
    using lease_store_ok [OF inv1 ok, of h] f cell by auto
  obtain ks3 where c: "lease_commit ks2 l2 = Some ks3" "committed ks2 l2 h ks3"
    using lease_commit_ok [of ks2 l2 h] st by auto
  let ?e = "(key, \<lparr>en_horizon = h, en_last_seen = now, en_ordinal = ks_visits ks\<rparr>)"
  note others = lease_store_others [OF inv1 ok st(1), unfolded f]
  obtain gone where g: "evicted ks1 key gone" "ks_inv ks3 now" "ks_options ks3 = ks_options ks2" "ks_visits ks3 = ks_visits ks2"
    "retained ks3 = insert ?e ({x \<in> retained ks1. fst x \<noteq> key} - gone)"
    using c(2) st(5-7) others by (auto simp: committed_def committed_entry_def)
  have fields: "ks_options ks2 = ks_options ks1" "ks_visits ks2 = ks_visits ks1"
    using st(1) by (cases "kl_entry l"; auto simp: lease_store_def)+
  have "history (retained ks3)"
    unfolding g(5) using k1 lease_newest [OF ok] f
    by (intro history_insert) (auto simp: keyed_inv_def elim: history_subset)
  moreover have "owed q (retained ks3)" if "h \<le> now + q_horizon q"
    unfolding g(5) using k1 that by (auto simp: keyed_inv_def owed_def)
  moreover have "visited ks key now h ks3" using sw g(1,5) by (auto simp: visited_def)
  moreover have "ks_options ks1 = ks_options ks" using sw by (simp add: swept_def)
  ultimately show ?thesis
    using cell st(1,8) k1 sw c(1) g(2-4) fields by (auto simp: keyed_inv_def)
qed

fun uncharged_store :: "nanos \<Rightarrow> allowance_store \<Rightarrow> allowance_store \<Rightarrow> bool" where
  "uncharged_store now (Direct_store h) (Direct_store h') = (h' = h)"
| "uncharged_store now (Keyed_cells ks) (Keyed_cells ks') = swept ks ks' now"
| "uncharged_store now _ _ = False"

fun debt :: "allowance_store \<Rightarrow> charge \<Rightarrow> nanos \<Rightarrow> nanos" where
  "debt (Direct_store h) (Direct_charge cost) now = h - now"
| "debt (Keyed_cells ks) (Keyed_charge key cost) now = owes ks key now - now"
| "debt _ _ now = 0"

fun charged_store :: "charge \<Rightarrow> nanos \<Rightarrow> nanos \<Rightarrow> allowance_store \<Rightarrow> allowance_store \<Rightarrow> bool" where
  "charged_store (Direct_charge cost) now h (Direct_store _) (Direct_store h') = (h' = h)"
| "charged_store (Keyed_charge key cost) now h (Keyed_cells ks) (Keyed_cells ks') = visited ks key now h ks'"
| "charged_store _ now h _ _ = False"

text \<open>The horizon a debt has never leaves one burst, so the decision stays within it too.\<close>

lemma debt_bound:
  assumes "allowance_inv cl st t" and "t \<le> now"
  shows "debt st c now \<le> q_horizon (clause_quota cl)"
proof -
  have "owes ks key now - now \<le> q_horizon q" if inv: "keyed_inv q ks t" for ks key q
  proof (cases "map_of (filter (fresh (ko_ttl (ks_options ks)) now) (em_contents (ks_shards ks ! (key mod length (ks_shards ks))))) key")
    case (Some e)
    have kinv: "ks_inv ks t" using inv by (simp add: keyed_inv_def)
    have il: "key mod length (ks_shards ks) < length (ks_shards ks)" by (rule ks_inv_nonempty [OF kinv])
    have mem: "(key, e) \<in> set (em_contents (ks_shards ks ! (key mod length (ks_shards ks))))"
      using map_of_SomeD [OF Some] by simp
    have "(key, e) \<in> retained ks" using retained_shard [OF kinv, of "(key, e)"] mem by simp
    then have "en_horizon e \<le> en_last_seen e + q_horizon q"
      using inv by (force simp: keyed_inv_def owed_def)
    moreover have "en_last_seen e \<le> now"
      using shard_inv_entries [OF ks_inv_shard [OF kinv il] mem] assms(2) by simp
    ultimately show ?thesis using Some by (simp add: owes_def)
  qed (simp add: owes_def)
  then show ?thesis
    using assms by (cases "(cl, st, t)" rule: allowance_inv.cases; cases c) auto
qed

text \<open>The contract of one round, over the governor decision \<open>d\<close> on the clause's current debt.\<close>

definition round_ok :: "instant \<Rightarrow> nanos \<Rightarrow> gcra_decision \<Rightarrow> charge \<Rightarrow> allowance \<Rightarrow> round \<Rightarrow> allowance \<Rightarrow> bool" where
  "round_ok now offset d c a round a' =
     (al_clause a' = al_clause a \<and>
      (case round of
         Refused e \<Rightarrow> e = VisitRange \<and> uncharged_store offset (al_store a) (al_store a') \<and>
           allowance_inv (al_clause a) (al_store a') offset
       | Exhausted limit \<Rightarrow> a' = a \<and> limit = 0 \<and> allowance_inv (al_clause a) (al_store a) offset
       | Charged held wait \<Rightarrow>
           (\<exists>a0. rollback a' held = Some a0 \<and> al_clause a0 = al_clause a \<and>
              uncharged_store offset (al_store a) (al_store a0) \<and> allowance_inv (al_clause a) (al_store a0) offset) \<and>
           (case wait of
              Some w \<Rightarrow> \<exists>n. d = Not_until n \<and> w = now + int n
            | None \<Rightarrow> \<exists>n a2. d = Conforming n \<and> commit_lease a' held = Some a2 \<and> al_clause a2 = al_clause a \<and>
                charged_store c offset (offset + n) (al_store a) (al_store a2) \<and>
                allowance_inv (al_clause a) (al_store a2) offset)))"

lemma allowance_inv_Keyed:
  "allowance_inv cl (Keyed_cells ks) t \<longleftrightarrow> (\<exists>q keys. cl = Keyed_clause q keys \<and> quota_ok q \<and>
     ks_options ks = keys \<and> keyed_inv q ks t)"
  by (cases cl) auto

lemma allowance_inv_Direct:
  "allowance_inv cl (Direct_store h) t \<longleftrightarrow> (\<exists>q. cl = Direct_clause q \<and> quota_ok q \<and> h \<le> t + q_horizon q)"
  by (cases cl) auto

lemma decision_cases:
  assumes "gcra_documented g" and "quota_ok q" and "cost \<le> q_burst q" and "relative \<le> q_horizon q"
  shows "(\<exists>n. g q cost relative = Conforming n \<and> n \<le> q_horizon q) \<or>
    (\<exists>n. g q cost relative = Not_until n \<and> n \<le> q_horizon q)"
  using assms unfolding gcra_documented_def by (cases "g q cost relative") fast+

lemma charge_one_direct:
  assumes g: "gcra_documented g" and inv: "allowance_inv (al_clause a) (Direct_store h) t" and t: "t \<le> offset"
    and a: "al_store a = Direct_store h" and cost: "cost \<le> q_burst (clause_quota (al_clause a))"
    and fits: "offset + q_horizon (clause_quota (al_clause a)) \<le> u64_max"
      "now + int (q_horizon (clause_quota (al_clause a))) \<le> instant_max"
  shows "\<exists>round a'. charge_one g now offset a (Direct_charge cost) = Some (round, a') \<and>
    round_ok now offset (g (clause_quota (al_clause a)) cost (h - offset)) (Direct_charge cost) a round a'"
proof -
  let ?q = "clause_quota (al_clause a)"
  have "h - offset \<le> q_horizon ?q" using debt_bound [OF inv t, of "Direct_charge cost"] by simp
  moreover have "quota_ok ?q" using inv by (auto simp: allowance_inv_Direct)
  ultimately consider (conforming) n where "g ?q cost (h - offset) = Conforming n" "n \<le> q_horizon ?q"
    | (wait) n where "g ?q cost (h - offset) = Not_until n" "n \<le> q_horizon ?q"
    using decision_cases [OF g _ cost] by blast
  then show ?thesis
  proof cases
    case conforming
    then have "checked_add u64_max offset n = Some (offset + n)" using fits by (simp add: checked_add_def)
    then show ?thesis
      using conforming a inv t
      by (auto simp: charge_one_def take_lease_def kind_cell_def kind_store_def measure_and_replace_def
          round_ok_def rollback_def commit_lease_def allowance_inv_Direct)
  next
    case wait
    then have "instant_checked_add now n = Some (now + int n)" using fits by (simp add: instant_checked_add_def)
    then show ?thesis
      using wait a inv t
      by (auto simp: charge_one_def take_lease_def kind_cell_def kind_store_def measure_and_replace_def
          round_ok_def rollback_def allowance_inv_Direct)
  qed
qed

lemma charge_one_keyed:
  assumes g: "gcra_documented g" and inv: "allowance_inv (al_clause a) (Keyed_cells ks) t" and t: "t \<le> offset"
    and a: "al_store a = Keyed_cells ks" and cost: "cost \<le> q_burst (clause_quota (al_clause a))"
    and fits: "offset + q_horizon (clause_quota (al_clause a)) \<le> u64_max"
      "now + int (q_horizon (clause_quota (al_clause a))) \<le> instant_max"
  shows "\<exists>round a'. charge_one g now offset a (Keyed_charge key cost) = Some (round, a') \<and>
    round_ok now offset (g (clause_quota (al_clause a)) cost (owes ks key offset - offset)) (Keyed_charge key cost) a round a'"
proof -
  obtain q keys where cl: "al_clause a = Keyed_clause q keys" "ks_options ks = keys" "quota_ok q"
    and kinv: "keyed_inv q ks t"
    using inv by (auto simp: allowance_inv_Keyed)
  then obtain r ks1 where p: "prepare ks key offset = Some (r, ks1)" "prepared ks key offset r ks1"
    using prepare_ok [OF _ t, of ks key] by (auto simp: keyed_inv_def)
  have debt: "owes ks key offset - offset \<le> q_horizon q"
    using debt_bound [OF inv t, of "Keyed_charge key cost"] cl(1) by simp
  have cost: "cost \<le> q_burst q" and fits: "offset + q_horizon q \<le> u64_max" "now + int (q_horizon q) \<le> instant_max"
    using cost fits cl(1) by simp_all
  have same: "a\<lparr>al_store := Keyed_cells ks\<rparr> = a" using a by (cases a) simp
  consider (err) e where "r = Inl e" | (none) "r = Inr None" | (lease) l where "r = Inr (Some l)"
    by (cases r) auto
  then show ?thesis
  proof cases
    case err
    then have ks1: "e = VisitRange" "swept ks ks1 offset" "ks_inv ks1 offset" "ks_visits ks1 = ks_visits ks"
      using p(2) by (simp_all add: prepared_def)
    have "ks_visits ks1 \<le> u64_max" using kinv ks1(4) by (simp add: keyed_inv_def)
    then have "keyed_inv q ks1 offset" by (rule keyed_inv_swept [OF kinv ks1(2,3)])
    moreover have "ks_options ks1 = ks_options ks" using ks1(2) by (simp add: swept_def)
    ultimately show ?thesis
      using p(1) err a cl ks1 by (auto simp: charge_one_def take_lease_def round_ok_def allowance_inv_Keyed)
  next
    case none
    then have "ks1 = ks" "ko_max_keys keys = 0" using p(2) cl(2) by (simp_all add: prepared_def)
    then show ?thesis
      using p(1) none a cl(1) same allowance_inv_mono [OF inv t]
      by (simp add: charge_one_def take_lease_def round_ok_def)
  next
    case lease
    have held: "lease_cell ks1 l = Some (owes ks key offset)" "keyed_inv q ks1 offset" "swept ks ks1 offset"
      "ks_options ks1 = ks_options ks"
      using keyed_charge [OF kinv, of key offset l ks1] p(2) lease by (auto simp: swept_def)
    from decision_cases [OF g cl(3) cost debt] consider
      (conforming) n where "g q cost (owes ks key offset - offset) = Conforming n" "n \<le> q_horizon q"
      | (wait) n where "g q cost (owes ks key offset - offset) = Not_until n" "n \<le> q_horizon q" by blast
    then show ?thesis
    proof cases
      case conforming
      then have add: "checked_add u64_max offset n = Some (offset + n)" using fits by (simp add: checked_add_def)
      obtain ks2 l2 ks3 where st: "lease_store ks1 l (offset + n) = (ks2, l2)"
        "lease_store ks2 l2 (owes ks key offset) = (ks1, l)" "lease_commit ks2 l2 = Some ks3"
        "keyed_inv q ks3 offset" "ks_options ks3 = ks_options ks" "visited ks key offset (offset + n) ks3"
        using keyed_charge [OF kinv, of key offset l ks1 "offset + n"] p(2) lease conforming(2) by auto
      show ?thesis
        using p(1) lease held conforming add st a cl
        by (auto simp: charge_one_def take_lease_def kind_cell_def kind_store_def measure_and_replace_def
            round_ok_def rollback_def commit_lease_def allowance_inv_Keyed)
    next
      case wait
      then have add: "instant_checked_add now n = Some (now + int n)" using fits by (simp add: instant_checked_add_def)
      obtain ks2 l2 where st: "lease_store ks1 l (owes ks key offset) = (ks2, l2)"
        "lease_store ks2 l2 (owes ks key offset) = (ks1, l)"
        using keyed_charge [OF kinv, of key offset l ks1 "owes ks key offset"] p(2) lease by auto
      show ?thesis
        using p(1) lease held wait add st a cl
        by (auto simp: charge_one_def take_lease_def kind_cell_def kind_store_def measure_and_replace_def
            round_ok_def rollback_def allowance_inv_Keyed)
    qed
  qed
qed

section \<open>The transaction\<close>

definition decision :: "gcra \<Rightarrow> nanos \<Rightarrow> allowance \<times> charge \<Rightarrow> gcra_decision" where
  "decision g offset = (\<lambda>(a, c). g (clause_quota (al_clause a)) (charge_cost c) (debt (al_store a) c offset))"

text \<open>What validation and the burst check establish for a clause and its charge.\<close>

definition chargeable :: "instant \<Rightarrow> nanos \<Rightarrow> nanos \<Rightarrow> allowance \<times> charge \<Rightarrow> bool" where
  "chargeable now t offset = (\<lambda>(a, c). allowance_inv (al_clause a) (al_store a) t \<and>
     charge_kind_matches (al_store a) c \<and> charge_cost c \<le> q_burst (clause_quota (al_clause a)) \<and>
     offset + q_horizon (clause_quota (al_clause a)) \<le> u64_max \<and>
     now + int (q_horizon (clause_quota (al_clause a))) \<le> instant_max)"

lemma charge_one_ok:
  assumes "gcra_documented g" and "chargeable now t offset (a, c)" and "t \<le> offset"
  shows "\<exists>round a'. charge_one g now offset a c = Some (round, a') \<and> round_ok now offset (decision g offset (a, c)) c a round a'"
proof (cases "(al_store a, c)" rule: charge_kind_matches.cases)
  case (1 h cost)
  then show ?thesis
    using assms charge_one_direct [OF assms(1) _ assms(3), of a h cost now] by (simp add: chargeable_def decision_def)
next
  case (2 ks key cost)
  then show ?thesis
    using assms charge_one_keyed [OF assms(1) _ assms(3), of a ks cost now key] by (simp add: chargeable_def decision_def)
qed (use assms in \<open>auto simp: chargeable_def\<close>)

text \<open>A clause that can be settled without a charge, and one whose charge can be committed.\<close>

definition unchanged_row :: "nanos \<Rightarrow> allowance \<times> charge \<Rightarrow> allowance \<Rightarrow> bool" where
  "unchanged_row offset = (\<lambda>(a, c) a'. al_clause a' = al_clause a \<and> uncharged_store offset (al_store a) (al_store a') \<and>
     allowance_inv (al_clause a) (al_store a') offset)"

definition charged_row :: "gcra \<Rightarrow> nanos \<Rightarrow> allowance \<times> charge \<Rightarrow> allowance \<Rightarrow> bool" where
  "charged_row g offset = (\<lambda>(a, c) a'. al_clause a' = al_clause a \<and>
     (\<exists>n. decision g offset (a, c) = Conforming n \<and> charged_store c offset (offset + n) (al_store a) (al_store a')) \<and>
     allowance_inv (al_clause a) (al_store a') offset)"

definition settles ::
  "(allowance \<Rightarrow> lease \<Rightarrow> allowance panics) \<Rightarrow> (allowance \<times> charge \<Rightarrow> allowance \<Rightarrow> bool) \<Rightarrow>
   allowance \<times> charge \<Rightarrow> allowance \<times> lease option \<Rightarrow> bool" where
  "settles f row p = (\<lambda>(a', held). \<exists>a''. (case held of None \<Rightarrow> Some a' | Some h \<Rightarrow> f a' h) = Some a'' \<and> row p a'')"

lemma settle_rows:
  "list_all2 (settles f row) ps ds \<Longrightarrow> \<exists>as. settle f ds = Some as \<and> list_all2 row ps as"
  by (induction rule: list_all2_induct) (auto simp: settles_def)

lemma uncharged_same [simp]: "uncharged_store now st st"
  by (cases st) (simp_all add: swept_refl)

lemma chargeable_unchanged:
  assumes "chargeable now t offset (a, c)" and "t \<le> offset"
  shows "unchanged_row offset (a, c) a"
  using assms allowance_inv_mono by (auto simp: chargeable_def unchanged_row_def)

definition wait_of :: "instant \<Rightarrow> gcra_decision \<Rightarrow> instant option" where
  "wait_of now d = (case d of Not_until n \<Rightarrow> Some (now + int n) | _ \<Rightarrow> None)"

definition latest_wait :: "gcra \<Rightarrow> instant \<Rightarrow> nanos \<Rightarrow> (allowance \<times> charge) list \<Rightarrow> instant option \<Rightarrow> instant option" where
  "latest_wait g now offset ps = fold (\<lambda>p w. latest_deadline w (wait_of now (decision g offset p))) ps"

lemma latest_deadline_None: "latest_deadline w d = None \<longleftrightarrow> w = None \<and> d = None"
  by (auto simp: latest_deadline_def split: option.splits)

definition charged_all ::
  "gcra \<Rightarrow> instant \<Rightarrow> nanos \<Rightarrow> (allowance \<times> charge) list \<Rightarrow> tentative \<Rightarrow> admission_error option \<Rightarrow> tentative \<Rightarrow>
   (allowance \<times> lease option) list \<Rightarrow> bool" where
  "charged_all g now offset ps te err te' ds =
     (te_done te' = te_done te @ ds \<and> list_all2 (settles rollback (unchanged_row offset)) ps ds \<and>
      err \<in> {None, Some VisitRange} \<and>
      (te_exhausted te' = te_exhausted te \<or> (\<exists>i. te_exhausted te' = Some (KeyBudgetExhausted i 0))) \<and>
      (err = None \<and> te_exhausted te' = None \<longrightarrow>
         te_exhausted te = None \<and> te_wait te' = latest_wait g now offset ps (te_wait te) \<and>
         (te_wait te' = None \<longrightarrow> te_wait te = None \<and> list_all2 (settles commit_lease (charged_row g offset)) ps ds)))"

lemma round_unchanged:
  assumes "round_ok now offset d c a round a'"
  shows "settles rollback (unchanged_row offset) (a, c)
    (a', case round of Charged held wait \<Rightarrow> Some held | _ \<Rightarrow> None)"
  using assms by (cases round) (auto simp: round_ok_def settles_def unchanged_row_def)

lemma round_wait:
  assumes "round_ok now offset d c a (Charged held wait) a'"
  shows "wait = wait_of now d"
  using assms by (auto simp: round_ok_def wait_of_def split: option.splits)

lemma round_commits:
  assumes "round_ok now offset (decision g offset (a, c)) c a (Charged held None) a'"
  shows "settles commit_lease (charged_row g offset) (a, c) (a', Some held)"
  using assms by (auto simp: round_ok_def settles_def charged_row_def)

lemma charged_all_Cons:
  assumes "charged_all g now offset ps (te\<lparr>te_done := te_done te @ [d],
      te_wait := latest_deadline (te_wait te) (wait_of now (decision g offset p))\<rparr>) err te' ds"
    and "settles rollback (unchanged_row offset) p d"
    and "latest_deadline (te_wait te) (wait_of now (decision g offset p)) = None \<Longrightarrow>
      settles commit_lease (charged_row g offset) p d"
  shows "charged_all g now offset (p # ps) te err te' (d # ds)"
proof -
  define w where "w = latest_deadline (te_wait te) (wait_of now (decision g offset p))"
  have "latest_wait g now offset (p # ps) (te_wait te) = latest_wait g now offset ps w"
    by (simp add: latest_wait_def w_def)
  moreover have "w = None \<Longrightarrow> te_wait te = None" by (simp add: w_def latest_deadline_None)
  moreover note assms [folded w_def]
  ultimately show ?thesis unfolding charged_all_def by force
qed

lemma charge_all_ok:
  assumes g: "gcra_documented g" and t: "t \<le> offset"
  shows "\<forall>p \<in> set ps. chargeable now t offset p \<Longrightarrow>
    \<exists>err te' ds. charge_all g now offset index ps te = Some (err, te') \<and> charged_all g now offset ps te err te' ds"
proof (induction ps arbitrary: index te)
  case Nil
  then show ?case by (simp add: charged_all_def latest_wait_def)
next
  case (Cons p ps)
  obtain a c where p: "p = (a, c)" by (cases p)
  have ok: "chargeable now t offset (a, c)" using Cons.prems p by simp
  obtain round a' where r: "charge_one g now offset a c = Some (round, a')"
    "round_ok now offset (decision g offset (a, c)) c a round a'"
    using charge_one_ok [OF g ok t] by blast
  note row = round_unchanged [OF r(2)]
  show ?case
  proof (cases round)
    case (Refused e)
    have "list_all2 (settles rollback (unchanged_row offset)) ps (map (\<lambda>(b, _). (b, None)) ps)"
      using Cons.prems chargeable_unchanged [OF _ t]
      by (auto simp: list_all2_conv_all_nth settles_def split: prod.splits) (metis nth_mem)
    moreover have "e = VisitRange" using r(2) Refused by (simp add: round_ok_def)
    ultimately show ?thesis using r(1) row Refused p by (simp add: charged_all_def)
  next
    case (Exhausted limit)
    let ?te = "te\<lparr>te_done := te_done te @ [(a', None)], te_exhausted := Some (KeyBudgetExhausted index limit)\<rparr>"
    obtain err te' ds where ih: "charge_all g now offset (Suc index) ps ?te = Some (err, te')"
      "charged_all g now offset ps ?te err te' ds"
      using Cons.IH [of "Suc index" ?te] Cons.prems by auto
    moreover have "limit = 0" using r(2) Exhausted by (simp add: round_ok_def)
    ultimately have "charged_all g now offset (p # ps) te err te' ((a', None) # ds)"
      using row Exhausted p by (auto simp: charged_all_def)
    then show ?thesis using r(1) ih(1) Exhausted p by auto
  next
    case (Charged held wait)
    let ?te = "te\<lparr>te_done := te_done te @ [(a', Some held)], te_wait := latest_deadline (te_wait te) wait\<rparr>"
    obtain err te' ds where ih: "charge_all g now offset (Suc index) ps ?te = Some (err, te')"
      "charged_all g now offset ps ?te err te' ds"
      using Cons.IH [of "Suc index" ?te] Cons.prems by auto
    have wait: "wait = wait_of now (decision g offset p)" using round_wait r(2) Charged p by blast
    have "settles commit_lease (charged_row g offset) p (a', Some held)" if "latest_deadline (te_wait te) wait = None"
      using that round_commits [of now offset g a c held a'] r(2) Charged p by (simp add: latest_deadline_None)
    moreover have "settles rollback (unchanged_row offset) p (a', Some held)" using row Charged p by simp
    ultimately have "charged_all g now offset (p # ps) te err te' ((a', Some held) # ds)"
      using ih(2) unfolding wait by (intro charged_all_Cons)
    then show ?thesis using r(1) ih(1) Charged p by auto
  qed
qed

lemma allowance_inv_horizon: "allowance_inv cl st t \<Longrightarrow> q_horizon (clause_quota cl) \<le> u64_max"
  by (cases "(cl, st, t)" rule: allowance_inv.cases) (auto simp: u64_max_def quota_ok_def)

lemma validate_charges_ok:
  assumes "\<forall>(a, c) \<in> set ps. q_horizon (clause_quota (al_clause a)) \<le> u64_max"
  shows "\<exists>r. validate_charges index ps offset now = Some r \<and>
    (r = None \<longrightarrow> (\<forall>(a, c) \<in> set ps. charge_kind_matches (al_store a) c \<and>
       offset + q_horizon (clause_quota (al_clause a)) \<le> u64_max \<and>
       now + int (q_horizon (clause_quota (al_clause a))) \<le> instant_max))"
  using assms
proof (induction ps arbitrary: index)
  case (Cons p ps)
  then show ?case
    by (cases p) (auto simp: try_from_def checked_add_def instant_checked_add_def)
qed simp

lemma oversized_None:
  "oversized index ps = None \<Longrightarrow> (a, c) \<in> set ps \<Longrightarrow> charge_cost c \<le> q_burst (clause_quota (al_clause a))"
  by (induction ps arbitrary: index) (auto split: if_splits)

lemma oversized_Some:
  "oversized index ps = Some outcome \<Longrightarrow> \<exists>i cost burst. outcome = NeverAdmissible i cost burst"
  by (induction ps arbitrary: index) (auto split: if_splits)

lemma validate_ok:
  assumes "limiter_inv li"
  shows "\<exists>r. validate li charges now = Some r \<and>
    (\<forall>offset. r = Inr offset \<longrightarrow> length charges = length (li_clauses li) \<and> li_latest li \<le> now \<and>
       offset = duration_since now (li_epoch li) \<and>
       (oversized 0 (zip (li_clauses li) charges) = None \<longrightarrow>
          (\<forall>p \<in> set (zip (li_clauses li) charges).
             chargeable now (duration_since (li_latest li) (li_epoch li)) offset p)))"
proof (cases "length charges = length (li_clauses li) \<and> (\<exists>offset. li_offset li now = Inr offset)")
  case False
  then show ?thesis by (auto simp: validate_def split: sum.splits)
next
  case True
  then obtain offset where off: "li_offset li now = Inr offset" by blast
  let ?ps = "zip (li_clauses li) charges"
  have inv: "allowance_inv (al_clause a) (al_store a) (duration_since (li_latest li) (li_epoch li))" if "(a, c) \<in> set ?ps" for a c
    using assms that by (auto simp: limiter_inv_def dest: set_zip_leftD)
  then have "\<forall>(a, c) \<in> set ?ps. q_horizon (clause_quota (al_clause a)) \<le> u64_max"
    using allowance_inv_horizon by blast
  from validate_charges_ok [OF this, of 0 offset now] obtain r where
    r: "validate_charges 0 ?ps offset now = Some r"
      "r = None \<longrightarrow> (\<forall>(a, c) \<in> set ?ps. charge_kind_matches (al_store a) c \<and>
         offset + q_horizon (clause_quota (al_clause a)) \<le> u64_max \<and>
         now + int (q_horizon (clause_quota (al_clause a))) \<le> instant_max)" by blast
  have "li_latest li \<le> now" "offset = duration_since now (li_epoch li)"
    using off by (auto simp: li_offset_def try_from_def split: if_splits)
  moreover have "chargeable now (duration_since (li_latest li) (li_epoch li)) offset p"
    if "r = None" "oversized 0 ?ps = None" "p \<in> set ?ps" for p
    using that r(2) inv oversized_None [OF that(2)] by (cases p) (auto simp: chargeable_def)
  ultimately show ?thesis using True off r(1) by (auto simp: validate_def split: option.splits)
qed

text \<open>Every way an admission ends.\<close>

definition admitted :: "gcra \<Rightarrow> limiter \<Rightarrow> charge list \<Rightarrow> instant \<Rightarrow> limiter \<Rightarrow> bool" where
  "admitted g li charges now li' = (length charges = length (li_clauses li) \<and> li_latest li' = now \<and> li_epoch li' = li_epoch li \<and>
     list_all2 (charged_row g (duration_since now (li_epoch li))) (zip (li_clauses li) charges) (li_clauses li'))"

definition refused :: "limiter \<Rightarrow> instant \<Rightarrow> limiter \<Rightarrow> bool" where
  "refused li now li' = (li_epoch li' = li_epoch li \<and>
     list_all2 (\<lambda>a a'. al_clause a' = al_clause a \<and>
       uncharged_store (duration_since now (li_epoch li)) (al_store a) (al_store a')) (li_clauses li) (li_clauses li'))"

lemma refused_same: "refused li now li"
  by (simp add: refused_def list_all2_same)

lemma row_inv:
  assumes "list_all2 row ps as" and "\<And>a c a'. row (a, c) a' \<Longrightarrow> al_clause a' = al_clause a \<and> allowance_inv (al_clause a) (al_store a') offset"
  shows "\<forall>a' \<in> set as. allowance_inv (al_clause a') (al_store a') offset"
  using assms by (induction rule: list_all2_induct) auto

lemma unchanged_refused:
  assumes "list_all2 (unchanged_row offset) (zip as cs) bs" and "length cs = length as"
  shows "list_all2 (\<lambda>a a'. al_clause a' = al_clause a \<and> uncharged_store offset (al_store a) (al_store a')) as bs"
  using assms by (auto simp: list_all2_conv_all_nth unchanged_row_def split: prod.splits)

lemma admit_at_ok:
  assumes g: "gcra_documented g" and inv: "limiter_inv li"
  shows "\<exists>res li'. admit_at g li charges now = Some (res, li') \<and> limiter_inv li' \<and>
    (if res = Inr Admitted then admitted g li charges now li' else refused li now li') \<and>
    (\<forall>w. res = Inr (WaitUntil w) \<longrightarrow>
       latest_wait g now (duration_since now (li_epoch li)) (zip (li_clauses li) charges) None = Some w)"
proof -
  let ?ps = "zip (li_clauses li) charges" let ?off = "duration_since now (li_epoch li)"
  let ?t = "duration_since (li_latest li) (li_epoch li)"
  obtain r where r: "validate li charges now = Some r"
    "\<And>offset. r = Inr offset \<Longrightarrow> length charges = length (li_clauses li) \<and> li_latest li \<le> now \<and> offset = ?off \<and>
       (oversized 0 ?ps = None \<longrightarrow> (\<forall>p \<in> set ?ps. chargeable now ?t offset p))"
    using validate_ok [OF inv, of charges now] by auto
  consider (invalid) e where "r = Inl e" | (big) out where "r = Inr ?off" "oversized 0 ?ps = Some out"
    | (charge) "r = Inr ?off" "oversized 0 ?ps = None"
    using r(2) by (cases r; cases "oversized 0 ?ps") auto
  then show ?thesis
  proof cases
    case invalid
    then show ?thesis using r(1) inv by (simp add: admit_at_def refused_same)
  next
    case big
    then show ?thesis using r(1) inv oversized_Some [OF big(2)] by (auto simp: admit_at_def refused_same)
  next
    case charge
    note v = r(2) [OF charge(1)]
    have t: "?t \<le> ?off" using v by (simp add: duration_since_def nat_mono)
    have ch: "\<forall>p \<in> set ?ps. chargeable now ?t ?off p" using v charge(2) by blast
    let ?te = "\<lparr>te_done = [], te_wait = None, te_exhausted = None\<rparr>"
    obtain err te ds where te: "charge_all g now ?off 0 ?ps ?te = Some (err, te)" "charged_all g now ?off ?ps ?te err te ds"
      using charge_all_ok [OF g t ch, of 0 ?te] by blast
    have te_ds: "te_done te = ds" using te(2) by (simp add: charged_all_def)
    obtain undone where undone: "settle rollback ds = Some undone" "list_all2 (unchanged_row ?off) ?ps undone"
      using te(2) settle_rows unfolding charged_all_def by blast
    let ?undone = "li\<lparr>li_clauses := undone, li_latest := now\<rparr>"
    have le: "li_epoch li \<le> now" using inv v by (simp add: limiter_inv_def)
    have rows: "\<forall>a' \<in> set undone. allowance_inv (al_clause a') (al_store a') ?off"
      by (rule row_inv [OF undone(2)]) (simp add: unchanged_row_def)
    have len: "length charges = length (li_clauses li)" using v by blast
    have refund: "limiter_inv ?undone" using rows le by (simp add: limiter_inv_def)
    have clean: "refused li now ?undone" using unchanged_refused [OF undone(2) len] by (simp add: refused_def)
    show ?thesis
    proof (cases "err = None \<and> te_exhausted te = None \<and> te_wait te = None")
      case True
      then have "list_all2 (settles commit_lease (charged_row g ?off)) ?ps ds"
        using te(2) by (simp add: charged_all_def)
      then obtain charged where fin: "settle commit_lease ds = Some charged" "list_all2 (charged_row g ?off) ?ps charged"
        using settle_rows by blast
      have "\<forall>a' \<in> set charged. allowance_inv (al_clause a') (al_store a') ?off"
        by (rule row_inv [OF fin(2)]) (simp add: charged_row_def)
      then show ?thesis
        using True r(1) charge te(1) te_ds fin le len by (simp add: admit_at_def limiter_inv_def admitted_def)
    next
      case False
      then obtain res where res: "admit_at g li charges now = Some (res, ?undone)" "res \<noteq> Inr Admitted"
        "\<And>w. res = Inr (WaitUntil w) \<Longrightarrow> err = None \<and> te_exhausted te = None \<and> te_wait te = Some w"
        using te(2) undone(1) te_ds r(1) charge te(1)
        by (cases err; cases "te_exhausted te"; cases "te_wait te") (auto simp: admit_at_def charged_all_def)
      then show ?thesis using refund clean te(2) by (auto simp: charged_all_def)
    qed
  qed
qed

section \<open>What an admission guarantees\<close>

lemma latest_wait_Some:
  "latest_wait g now offset ps w0 = Some w \<Longrightarrow>
   (w0 = Some w \<or> (\<exists>p \<in> set ps. wait_of now (decision g offset p) = Some w)) \<and>
   (\<forall>p \<in> set ps. \<forall>d. wait_of now (decision g offset p) = Some d \<longrightarrow> d \<le> w) \<and>
   (\<forall>d. w0 = Some d \<longrightarrow> d \<le> w)"
proof (induction ps arbitrary: w0)
  case Nil
  then show ?case by (simp add: latest_wait_def)
next
  case (Cons p ps)
  let ?d = "wait_of now (decision g offset p)"
  have "latest_wait g now offset ps (latest_deadline w0 ?d) = Some w"
    using Cons.prems by (simp add: latest_wait_def)
  from Cons.IH [OF this] show ?case
    by (cases w0; cases ?d) (auto simp: latest_deadline_def max_def split: if_splits)
qed

lemma allowance_new_inv:
  assumes "quota_ok (clause_quota c)"
    and "\<And>q keys. c = Keyed_clause q keys \<Longrightarrow> 0 < ko_shards keys \<and> ko_max_keys keys \<le> u64_max"
  shows "allowance_inv (al_clause (allowance_new c)) (al_store (allowance_new c)) t"
proof (cases c)
  case (Keyed_clause q keys)
  then have "ks_inv (ks_new keys) t" using assms ks_new_inv by blast
  moreover have "retained (ks_new keys) = {}" by (auto simp: retained_def ks_new_def em_new_spec)
  ultimately show ?thesis
    using Keyed_clause assms(1) by (simp add: allowance_new_def keyed_inv_def history_def owed_def ks_new_def)
qed (use assms in \<open>simp add: allowance_new_def\<close>)

lemma limiter_new_inv:
  assumes "\<forall>c \<in> set clauses. quota_ok (clause_quota c) \<and>
    (\<forall>q keys. c = Keyed_clause q keys \<longrightarrow> 0 < ko_shards keys \<and> ko_max_keys keys \<le> u64_max)"
  shows "limiter_inv (limiter_new clauses epoch)"
  using assms allowance_new_inv by (auto simp: limiter_inv_def limiter_new_def)

text \<open>The decision of the generic cell rate algorithm, for the examples.\<close>

definition gcra_reference :: gcra where
  "gcra_reference q cost relative =
     (if q_burst q < cost then Insufficient
      else if relative + q_interval q * cost \<le> q_horizon q then Conforming (relative + q_interval q * cost)
      else Not_until (relative + q_interval q * cost - q_horizon q))"

lemma gcra_reference_documented: "gcra_documented gcra_reference"
proof -
  have "relative + q_interval q * cost - q_horizon q \<le> q_horizon q"
    if "quota_ok q" "\<not> q_burst q < cost" "relative \<le> q_horizon q" for q cost relative
  proof -
    have "q_interval q * cost \<le> q_horizon q" using that(1,2) by (simp add: quota_ok_def)
    then show ?thesis using that(3) by linarith
  qed
  then show ?thesis by (auto simp: gcra_documented_def gcra_reference_def split: if_splits)
qed

definition demo_quota :: quota where
  "demo_quota = \<lparr>q_interval = 10, q_burst = 2, q_horizon = 20\<rparr>"

definition demo_limiter :: limiter where
  "demo_limiter = limiter_new [Direct_clause demo_quota, Keyed_clause demo_quota small_options] 0"

lemma demo_limiter_inv: "limiter_inv demo_limiter"
  unfolding demo_limiter_def
  by (rule limiter_new_inv) (simp add: quota_ok_def demo_quota_def small_options_def u64_max_def)

definition charged_limiter :: limiter where
  "charged_limiter = \<lparr>li_clauses = [\<lparr>al_clause = Direct_clause demo_quota, al_store = Direct_store 25\<rparr>],
     li_epoch = 0, li_latest = 5\<rparr>"

lemmas limiter_eval = admit_at_def limiter_new_def allowance_new_def validate_def li_offset_def duration_since_def
  try_from_def u64_max_def demo_quota_def checked_add_def instant_checked_add_def instant_max_def charge_one_def
  take_lease_def kind_cell_def kind_store_def measure_and_replace_def gcra_reference_def commit_lease_def
  rollback_def latest_deadline_def charged_limiter_def

text \<open>
  C7: an admission is a transaction. With governor keeping its documented contract, an admission on
  a well-formed limiter never panics and leaves a well-formed limiter, whatever the charges and the
  time. Unless it answers \<open>Admitted\<close>, it charges nothing: every direct cell has the horizon it had,
  and a key store has at most lost entries whose TTL had passed.
\<close>

theorem refused_admission_charges_nothing:
  assumes "gcra_documented g" and "limiter_inv li"
  shows "\<exists>res li'. admit_at g li charges now = Some (res, li') \<and> limiter_inv li' \<and>
    (res \<noteq> Inr Admitted \<longrightarrow> refused li now li')"
  using admit_at_ok [OF assms, of charges now] by auto

theorem refused_admission_charges_nothing_witness:
  "\<exists>res li'. admit_at gcra_reference demo_limiter [Direct_charge 2, Keyed_charge 7 1] 5 = Some (res, li') \<and>
     limiter_inv li' \<and> (res \<noteq> Inr Admitted \<longrightarrow> refused demo_limiter 5 li')"
  by (rule refused_admission_charges_nothing [OF gcra_reference_documented demo_limiter_inv])

text \<open>
  C17: an admitted payload is charged in every clause. When the answer is \<open>Admitted\<close>, governor
  found every clause conforming on the debt it had before the admission, each direct cell holds the
  horizon governor computed, and each key store has exactly one visit more, with that horizon for
  the charged key and the least recent key evicted when it was full.
\<close>

theorem admitted_charges_every_clause:
  assumes "gcra_documented g" and "limiter_inv li" and "admit_at g li charges now = Some (Inr Admitted, li')"
  shows "admitted g li charges now li'"
  using admit_at_ok [OF assms(1,2), of charges now] assms(3) by auto

theorem admitted_charges_every_clause_witness:
  "admitted gcra_reference (limiter_new [Direct_clause demo_quota] 0) [Direct_charge 2] 5 charged_limiter"
proof (rule admitted_charges_every_clause [OF gcra_reference_documented])
  show "limiter_inv (limiter_new [Direct_clause demo_quota] 0)"
    by (rule limiter_new_inv) (simp add: quota_ok_def demo_quota_def u64_max_def)
qed (simp add: limiter_eval)

text \<open>
  C33: the deadline is exact. When the answer is to wait, the deadline is the one of some clause
  that does not conform, and no such clause has a later one.
\<close>

theorem wait_is_latest_deadline:
  assumes "gcra_documented g" and "limiter_inv li" and "admit_at g li charges now = Some (Inr (WaitUntil w), li')"
  shows "(\<exists>p \<in> set (zip (li_clauses li) charges). \<exists>n. decision g (duration_since now (li_epoch li)) p = Not_until n \<and> w = now + int n) \<and>
    (\<forall>p \<in> set (zip (li_clauses li) charges). \<forall>n. decision g (duration_since now (li_epoch li)) p = Not_until n \<longrightarrow> now + int n \<le> w)"
proof -
  have "latest_wait g now (duration_since now (li_epoch li)) (zip (li_clauses li) charges) None = Some w"
    using admit_at_ok [OF assms(1,2), of charges now] assms(3) by auto
  from latest_wait_Some [OF this] show ?thesis
    by (fastforce simp: wait_of_def split: gcra_decision.splits)
qed

theorem wait_is_latest_deadline_witness:
  "\<exists>n. decision gcra_reference 5 (\<lparr>al_clause = Direct_clause demo_quota, al_store = Direct_store 25\<rparr>, Direct_charge 1) =
     Not_until n \<and> 15 = 5 + int n"
proof -
  have "limiter_inv charged_limiter"
    by (simp add: limiter_inv_def charged_limiter_def quota_ok_def demo_quota_def u64_max_def duration_since_def)
  moreover have "admit_at gcra_reference charged_limiter [Direct_charge 1] 5 = Some (Inr (WaitUntil 15), charged_limiter)"
    by (simp add: limiter_eval)
  ultimately show ?thesis
    using wait_is_latest_deadline [OF gcra_reference_documented, of charged_limiter "[Direct_charge 1]" 5 15 charged_limiter]
    by (simp add: charged_limiter_def duration_since_def)
qed

end
