(* ===== verification/Rate_Generation.thy ===== *)
theory Rate_Generation
  imports Rate_Limiter "HOL-Library.Multiset"
begin

text \<open>
  Saving and restoring a limiter (crates/rate-limit/src/generation.rs, and \<open>generation\<close> and
  \<open>from_generation\<close> in lib.rs).

  A generation holds what each clause still owes relative to the time it was taken; the UTC form
  holds absolute times and survives a restart. Calendar time is the chrono crate: its operations
  are a parameter, and \<open>chrono_documented\<close> is what the code relies on.
\<close>

section \<open>Data\<close>

definition duration_max :: nanos where
  "duration_max = 18446744073709551615999999999"

datatype clause_generation =
    Direct_generation quota "nanos option"
  | Keyed_generation quota keyed_options "key_generation list"

type_synonym generation = "clause_generation list"

record restore_plan =
  rp_declarations :: "clause list"
  rp_maximum_age :: nanos

type_synonym utc = int

record utc_key_generation =
  ug_key :: key_fingerprint
  ug_horizon :: utc
  ug_last_seen :: utc
  ug_ordinal :: nat

datatype utc_clause_generation =
    Utc_direct quota "utc option"
  | Utc_keyed quota keyed_options "utc_key_generation list"

record chrono =
  td_from_std :: "nanos \<Rightarrow> int option"
  td_to_std :: "int \<Rightarrow> nanos option"
  dt_checked_add :: "utc \<Rightarrow> int \<Rightarrow> utc option"
  dt_checked_sub :: "utc \<Rightarrow> int \<Rightarrow> utc option"
  dt_since :: "utc \<Rightarrow> utc \<Rightarrow> int"

text \<open>
  What chrono documents: the operations are exact whenever they return a value, the difference of
  two instants always exists, and a difference converts to a duration unless it is negative.
\<close>

definition chrono_documented :: "chrono \<Rightarrow> bool" where
  "chrono_documented ch =
     ((\<forall>d x. td_from_std ch d = Some x \<longrightarrow> x = int d) \<and>
      (\<forall>x. td_to_std ch x = (if x < 0 then None else Some (nat x))) \<and>
      (\<forall>a x b. dt_checked_add ch a x = Some b \<longrightarrow> b = a + x) \<and>
      (\<forall>a x b. dt_checked_sub ch a x = Some b \<longrightarrow> b = a - x) \<and>
      (\<forall>a b. dt_since ch a b = a - b))"

section \<open>Validation\<close>

text \<open>The fold over the keys of one clause: the identities seen, the previous key and the greatest age.\<close>

fun prepare_keys ::
  "quota \<Rightarrow> keyed_options \<Rightarrow> key_generation list \<Rightarrow> key_fingerprint list \<Rightarrow> key_generation option \<Rightarrow> nanos \<Rightarrow>
   admission_error + nanos" where
  "prepare_keys q options [] identities previous maximum_age = Inr maximum_age"
| "prepare_keys q options (key # keys) identities previous maximum_age =
     (case checked_add duration_max (kg_age key) (kg_remaining key) of
        None \<Rightarrow> Inl GenerationState
      | Some charged_horizon \<Rightarrow>
          if kg_remaining key = 0 \<or> q_horizon q < kg_remaining key \<or> q_horizon q < charged_horizon \<or>
             ko_ttl options \<le> kg_age key \<or> kg_ordinal key = u64_max \<or> kg_key key \<in> set identities
          then Inl GenerationState
          else if (case previous of None \<Rightarrow> False
                   | Some p \<Rightarrow> kg_ordinal key \<le> kg_ordinal p \<or> kg_age p < kg_age key)
          then Inl GenerationState
          else prepare_keys q options keys (kg_key key # identities) (Some key) (max maximum_age (kg_age key)))"

fun prepare_clauses :: "generation \<Rightarrow> restore_plan \<Rightarrow> admission_error + restore_plan" where
  "prepare_clauses [] plan = Inr plan"
| "prepare_clauses (Direct_generation q remaining # rest) plan =
     (if (case remaining of None \<Rightarrow> False | Some r \<Rightarrow> r = 0 \<or> q_horizon q < r) then Inl GenerationState
      else prepare_clauses rest (plan\<lparr>rp_declarations := rp_declarations plan @ [Direct_clause q]\<rparr>))"
| "prepare_clauses (Keyed_generation q options keys # rest) plan =
     (if ko_max_keys options < length keys then Inl GenerationState
      else case prepare_keys q options keys [] None (rp_maximum_age plan) of
        Inl e \<Rightarrow> Inl e
      | Inr maximum_age \<Rightarrow>
          prepare_clauses rest \<lparr>rp_declarations = rp_declarations plan @ [Keyed_clause q options],
            rp_maximum_age = maximum_age\<rparr>)"

definition gen_prepare :: "generation \<Rightarrow> admission_error + restore_plan" where
  "gen_prepare gen = prepare_clauses gen \<lparr>rp_declarations = [], rp_maximum_age = 0\<rparr>"

section \<open>Calendar time\<close>

definition gen_delta :: "chrono \<Rightarrow> nanos \<Rightarrow> admission_error + int" where
  "gen_delta ch v = (case td_from_std ch v of None \<Rightarrow> Inl ClockRange | Some x \<Rightarrow> Inr x)"

definition utc_after :: "chrono \<Rightarrow> utc \<Rightarrow> nanos \<Rightarrow> admission_error + utc" where
  "utc_after ch utc_now v =
     (case gen_delta ch v of Inl e \<Rightarrow> Inl e
      | Inr x \<Rightarrow> (case dt_checked_add ch utc_now x of None \<Rightarrow> Inl ClockRange | Some at \<Rightarrow> Inr at))"

definition utc_before :: "chrono \<Rightarrow> utc \<Rightarrow> nanos \<Rightarrow> admission_error + utc" where
  "utc_before ch utc_now v =
     (case gen_delta ch v of Inl e \<Rightarrow> Inl e
      | Inr x \<Rightarrow> (case dt_checked_sub ch utc_now x of None \<Rightarrow> Inl ClockRange | Some at \<Rightarrow> Inr at))"

fun keys_to_utc :: "chrono \<Rightarrow> utc \<Rightarrow> key_generation list \<Rightarrow> admission_error + utc_key_generation list" where
  "keys_to_utc ch utc_now [] = Inr []"
| "keys_to_utc ch utc_now (key # keys) =
     (case utc_after ch utc_now (kg_remaining key) of Inl e \<Rightarrow> Inl e
      | Inr horizon \<Rightarrow> (case utc_before ch utc_now (kg_age key) of Inl e \<Rightarrow> Inl e
      | Inr last_seen \<Rightarrow> (case keys_to_utc ch utc_now keys of Inl e \<Rightarrow> Inl e
      | Inr converted \<Rightarrow> Inr (\<lparr>ug_key = kg_key key, ug_horizon = horizon, ug_last_seen = last_seen,
                                ug_ordinal = kg_ordinal key\<rparr> # converted))))"

fun clauses_to_utc :: "chrono \<Rightarrow> utc \<Rightarrow> generation \<Rightarrow> admission_error + utc_clause_generation list" where
  "clauses_to_utc ch utc_now [] = Inr []"
| "clauses_to_utc ch utc_now (Direct_generation q remaining # rest) =
     (case (case remaining of None \<Rightarrow> Inr None
            | Some r \<Rightarrow> map_sum id Some (utc_after ch utc_now r)) of Inl e \<Rightarrow> Inl e
      | Inr horizon \<Rightarrow> (case clauses_to_utc ch utc_now rest of Inl e \<Rightarrow> Inl e
      | Inr converted \<Rightarrow> Inr (Utc_direct q horizon # converted)))"
| "clauses_to_utc ch utc_now (Keyed_generation q options keys # rest) =
     (case keys_to_utc ch utc_now keys of Inl e \<Rightarrow> Inl e
      | Inr keys' \<Rightarrow> (case clauses_to_utc ch utc_now rest of Inl e \<Rightarrow> Inl e
      | Inr converted \<Rightarrow> Inr (Utc_keyed q options keys' # converted)))"

definition to_utc :: "chrono \<Rightarrow> generation \<Rightarrow> utc \<Rightarrow> admission_error + utc_clause_generation list" where
  "to_utc ch gen utc_now = (case gen_prepare gen of Inl e \<Rightarrow> Inl e | Inr _ \<Rightarrow> clauses_to_utc ch utc_now gen)"

fun keys_from_utc ::
  "chrono \<Rightarrow> keyed_options \<Rightarrow> utc \<Rightarrow> utc_key_generation list \<Rightarrow> admission_error + key_generation list" where
  "keys_from_utc ch options utc_now [] = Inr []"
| "keys_from_utc ch options utc_now (key # keys) =
     (if ug_horizon key \<le> utc_now then keys_from_utc ch options utc_now keys
      else case td_to_std ch (dt_since ch utc_now (ug_last_seen key)) of None \<Rightarrow> Inl ClockRegressed
      | Some age \<Rightarrow>
          if ko_ttl options \<le> age then keys_from_utc ch options utc_now keys
          else case td_to_std ch (dt_since ch (ug_horizon key) utc_now) of None \<Rightarrow> Inl ClockRange
          | Some remaining \<Rightarrow> (case keys_from_utc ch options utc_now keys of Inl e \<Rightarrow> Inl e
              | Inr converted \<Rightarrow> Inr (\<lparr>kg_key = ug_key key, kg_remaining = remaining, kg_age = age,
                                        kg_ordinal = ug_ordinal key\<rparr> # converted)))"

fun clauses_from_utc :: "chrono \<Rightarrow> utc \<Rightarrow> utc_clause_generation list \<Rightarrow> admission_error + generation" where
  "clauses_from_utc ch utc_now [] = Inr []"
| "clauses_from_utc ch utc_now (Utc_direct q horizon # rest) =
     (case (case horizon of None \<Rightarrow> Inr None
            | Some h \<Rightarrow> if utc_now < h
                then (case td_to_std ch (dt_since ch h utc_now) of None \<Rightarrow> Inl ClockRange | Some r \<Rightarrow> Inr (Some r))
                else Inr None) of Inl e \<Rightarrow> Inl e
      | Inr remaining \<Rightarrow> (case clauses_from_utc ch utc_now rest of Inl e \<Rightarrow> Inl e
      | Inr converted \<Rightarrow> Inr (Direct_generation q remaining # converted)))"
| "clauses_from_utc ch utc_now (Utc_keyed q options keys # rest) =
     (case keys_from_utc ch options utc_now keys of Inl e \<Rightarrow> Inl e
      | Inr keys' \<Rightarrow> (case clauses_from_utc ch utc_now rest of Inl e \<Rightarrow> Inl e
      | Inr converted \<Rightarrow> Inr (Keyed_generation q options keys' # converted)))"

definition from_utc :: "chrono \<Rightarrow> utc_clause_generation list \<Rightarrow> utc \<Rightarrow> admission_error + generation" where
  "from_utc ch u utc_now =
     (case clauses_from_utc ch utc_now u of Inl e \<Rightarrow> Inl e
      | Inr gen \<Rightarrow> (case gen_prepare gen of Inl e \<Rightarrow> Inl e | Inr _ \<Rightarrow> Inr gen))"

section \<open>Taking and installing a generation\<close>

fun clause_generations :: "nat \<Rightarrow> allowance list \<Rightarrow> generation panics" where
  "clause_generations offset [] = Some []"
| "clause_generations offset (a # rest) = do {
     state \<leftarrow> (case al_store a of
         Direct_store horizon \<Rightarrow>
           Some (Direct_generation (clause_quota (al_clause a))
             (if offset < horizon then Some (horizon - offset) else None))
       | Keyed_cells ks \<Rightarrow>
           (case al_clause a of
              Keyed_clause q options \<Rightarrow> do {
                keys \<leftarrow> ks_generation ks offset;
                Some (Keyed_generation q options keys)
              }
            | Direct_clause _ \<Rightarrow> panic));
     states \<leftarrow> clause_generations offset rest;
     Some (state # states)
   }"

definition li_generation :: "limiter \<Rightarrow> instant \<Rightarrow> (admission_error + generation) panics" where
  "li_generation li now =
     (case li_offset li now of Inl e \<Rightarrow> Some (Inl e)
      | Inr offset \<Rightarrow> map_option Inr (clause_generations offset (li_clauses li)))"

fun install_clauses :: "nat \<Rightarrow> (allowance \<times> clause_generation) list \<Rightarrow> (admission_error + allowance list) panics" where
  "install_clauses offset [] = Some (Inr [])"
| "install_clauses offset ((a, state) # rest) = do {
     installed \<leftarrow> (case (al_store a, state) of
         (Direct_store _, Direct_generation _ remaining) \<Rightarrow>
           Some (case try_from u64_max (offset + (case remaining of None \<Rightarrow> 0 | Some r \<Rightarrow> r)) of
              None \<Rightarrow> Inl ClockRange
            | Some horizon \<Rightarrow> Inr (Direct_store horizon))
       | (Keyed_cells ks, Keyed_generation _ _ keys) \<Rightarrow> do {
           res \<leftarrow> ks_restore ks keys offset;
           Some (map_sum id Keyed_cells res)
         }
       | _ \<Rightarrow> panic);
     case installed of Inl e \<Rightarrow> Some (Inl e)
     | Inr store \<Rightarrow> do {
         others \<leftarrow> install_clauses offset rest;
         Some (map_sum id ((#) (a\<lparr>al_store := store\<rparr>)) others)
       }
   }"

definition from_generation :: "generation \<Rightarrow> instant \<Rightarrow> (admission_error + limiter) panics" where
  "from_generation gen now =
     (case gen_prepare gen of Inl e \<Rightarrow> Some (Inl e)
      | Inr plan \<Rightarrow>
          (case instant_checked_sub now (rp_maximum_age plan) of None \<Rightarrow> Some (Inl ClockRange)
           | Some epoch \<Rightarrow> do {
               let offset = duration_since now epoch;
               let li = limiter_new (rp_declarations plan) epoch;
               installed \<leftarrow> install_clauses offset (zip (li_clauses li) gen);
               Some (map_sum id (\<lambda>clauses. li\<lparr>li_clauses := clauses, li_latest := now\<rparr>) installed)
             }))"

section \<open>What validation accepts\<close>

definition visited_later :: "key_generation \<Rightarrow> key_generation \<Rightarrow> bool" where
  "visited_later a b = (kg_ordinal a < kg_ordinal b \<and> kg_age b \<le> kg_age a)"

definition key_ok :: "quota \<Rightarrow> keyed_options \<Rightarrow> key_generation \<Rightarrow> bool" where
  "key_ok q options k = (0 < kg_remaining k \<and> kg_age k + kg_remaining k \<le> min duration_max (q_horizon q) \<and>
     kg_age k < ko_ttl options \<and> kg_ordinal k \<noteq> u64_max)"

definition keys_ok :: "quota \<Rightarrow> keyed_options \<Rightarrow> key_generation list \<Rightarrow> bool" where
  "keys_ok q options keys = (list_all (key_ok q options) keys \<and> distinct (map kg_key keys) \<and> sorted_wrt visited_later keys)"

fun clause_ok :: "clause_generation \<Rightarrow> bool" where
  "clause_ok (Direct_generation q remaining) = (\<forall>r. remaining = Some r \<longrightarrow> 0 < r \<and> r \<le> q_horizon q)"
| "clause_ok (Keyed_generation q options keys) = (length keys \<le> ko_max_keys options \<and> keys_ok q options keys)"

fun gen_clause :: "clause_generation \<Rightarrow> clause" where
  "gen_clause (Direct_generation q remaining) = Direct_clause q"
| "gen_clause (Keyed_generation q options keys) = Keyed_clause q options"

fun gen_keys :: "clause_generation \<Rightarrow> key_generation list" where
  "gen_keys (Direct_generation q remaining) = []"
| "gen_keys (Keyed_generation q options keys) = keys"

definition greatest_age :: "generation \<Rightarrow> nanos \<Rightarrow> nanos" where
  "greatest_age gen m = fold (\<lambda>k. max (kg_age k)) (concat (map gen_keys gen)) m"

lemma transp_visited_later: "transp visited_later"
  by (auto simp: transp_def visited_later_def)

lemma prepare_keys_spec:
  "prepare_keys q options keys ids previous m =
    (if list_all (key_ok q options) keys \<and> distinct (map kg_key keys) \<and> set ids \<inter> kg_key ` set keys = {} \<and>
        sorted_wrt visited_later (case previous of None \<Rightarrow> keys | Some p \<Rightarrow> p # keys)
     then Inr (fold (\<lambda>k. max (kg_age k)) keys m) else Inl GenerationState)"
proof (induction keys arbitrary: ids previous m)
  case Nil
  then show ?case by (cases previous) auto
next
  case (Cons k keys)
  have ok: "key_ok q options k \<longleftrightarrow> checked_add duration_max (kg_age k) (kg_remaining k) = Some (kg_age k + kg_remaining k) \<and>
      \<not> (kg_remaining k = 0 \<or> q_horizon q < kg_remaining k \<or> q_horizon q < kg_age k + kg_remaining k \<or>
        ko_ttl options \<le> kg_age k \<or> kg_ordinal k = u64_max)"
    by (auto simp: key_ok_def checked_add_def)
  have prev: "sorted_wrt visited_later (case previous of None \<Rightarrow> k # keys | Some p \<Rightarrow> p # k # keys) \<longleftrightarrow>
      \<not> (case previous of None \<Rightarrow> False | Some p \<Rightarrow> kg_ordinal k \<le> kg_ordinal p \<or> kg_age p < kg_age k) \<and>
      sorted_wrt visited_later (k # keys)"
  proof (cases previous)
    case (Some p)
    then show ?thesis using sorted_wrt2 [OF transp_visited_later, of p k keys] by (auto simp: visited_later_def)
  qed simp
  let ?prev = "case previous of None \<Rightarrow> False | Some p \<Rightarrow> kg_ordinal k \<le> kg_ordinal p \<or> kg_age p < kg_age k"
  have step: "prepare_keys q options (k # keys) ids previous m =
      (if key_ok q options k \<and> kg_key k \<notin> set ids \<and> \<not> ?prev
       then prepare_keys q options keys (kg_key k # ids) (Some k) (max (kg_age k) m) else Inl GenerationState)"
    unfolding ok by (cases "kg_age k + kg_remaining k \<le> duration_max") (simp_all add: checked_add_def max.commute)
  show ?case
    unfolding step Cons.IH [of "kg_key k # ids" "Some k"] prev
    by (cases "key_ok q options k"; cases "kg_key k \<in> set ids"; cases ?prev) simp_all
qed

lemma prepare_clauses_spec:
  "prepare_clauses gen plan =
    (if list_all clause_ok gen
     then Inr \<lparr>rp_declarations = rp_declarations plan @ map gen_clause gen,
       rp_maximum_age = greatest_age gen (rp_maximum_age plan)\<rparr>
     else Inl GenerationState)"
proof (induction gen arbitrary: plan)
  case Nil
  then show ?case by (simp add: greatest_age_def)
next
  case (Cons c gen)
  show ?case
  proof (cases c)
    case (Direct_generation q remaining)
    then show ?thesis using Cons.IH by (cases remaining) (auto simp: greatest_age_def)
  next
    case (Keyed_generation q options keys)
    then show ?thesis
      using Cons.IH by (auto simp: greatest_age_def prepare_keys_spec keys_ok_def)
  qed
qed

lemma gen_prepare_spec:
  "gen_prepare gen =
    (if list_all clause_ok gen
     then Inr \<lparr>rp_declarations = map gen_clause gen, rp_maximum_age = greatest_age gen 0\<rparr>
     else Inl GenerationState)"
  by (simp add: gen_prepare_def prepare_clauses_spec)

section \<open>Time that passes while a generation is saved\<close>

definition elapse_key :: "nanos \<Rightarrow> key_generation \<Rightarrow> key_generation" where
  "elapse_key d k = k\<lparr>kg_remaining := kg_remaining k - d, kg_age := kg_age k + d\<rparr>"

fun elapse_clause :: "nanos \<Rightarrow> clause_generation \<Rightarrow> clause_generation" where
  "elapse_clause d (Direct_generation q remaining) =
     Direct_generation q (case remaining of None \<Rightarrow> None | Some r \<Rightarrow> if d < r then Some (r - d) else None)"
| "elapse_clause d (Keyed_generation q options keys) =
     Keyed_generation q options (map (elapse_key d) (filter (\<lambda>k. d < kg_remaining k \<and> kg_age k + d < ko_ttl options) keys))"

lemma elapse_clause_ok: "clause_ok c \<Longrightarrow> clause_ok (elapse_clause d c)"
proof (cases c)
  case (Keyed_generation q options keys)
  assume ok: "clause_ok c"
  let ?keep = "\<lambda>k. d < kg_remaining k \<and> kg_age k + d < ko_ttl options"
  let ?keys = "map (elapse_key d) (filter ?keep keys)"
  have "kg_key \<circ> elapse_key d = kg_key" by (simp add: fun_eq_iff elapse_key_def)
  then have "distinct (map kg_key ?keys)"
    using ok Keyed_generation distinct_map_filter' [of kg_key keys ?keep] by (simp add: keys_ok_def)
  moreover have "sorted_wrt visited_later ?keys"
    using ok Keyed_generation sorted_wrt_filter [of visited_later keys ?keep]
    by (simp add: keys_ok_def sorted_wrt_map elapse_key_def visited_later_def [abs_def])
  moreover have "list_all (key_ok q options) ?keys"
    using ok Keyed_generation by (auto simp: keys_ok_def key_ok_def list_all_iff elapse_key_def)
  moreover have "length ?keys \<le> ko_max_keys options"
    using ok Keyed_generation by (simp add: le_trans [OF length_filter_le])
  ultimately show ?thesis using Keyed_generation by (simp add: keys_ok_def)
qed (auto split: option.splits)

lemma utc_after_Inr:
  "chrono_documented ch \<Longrightarrow> utc_after ch t d = Inr h \<Longrightarrow> h = t + int d"
  by (auto simp: utc_after_def gen_delta_def chrono_documented_def split: option.splits sum.splits)

lemma utc_before_Inr:
  "chrono_documented ch \<Longrightarrow> utc_before ch t d = Inr h \<Longrightarrow> h = t - int d"
  by (auto simp: utc_before_def gen_delta_def chrono_documented_def split: option.splits sum.splits)

lemma chrono_difference:
  "chrono_documented ch \<Longrightarrow> td_to_std ch (dt_since ch a b) = (if a < b then None else Some (nat (a - b)))"
  by (simp add: chrono_documented_def)

lemma keys_round_trip:
  assumes ch: "chrono_documented ch"
  shows "keys_to_utc ch t keys = Inr u \<Longrightarrow>
    keys_from_utc ch options (t + int d) u =
      Inr (map (elapse_key d) (filter (\<lambda>k. d < kg_remaining k \<and> kg_age k + d < ko_ttl options) keys))"
proof (induction keys arbitrary: u)
  case (Cons k keys)
  then obtain h l us where u: "utc_after ch t (kg_remaining k) = Inr h" "utc_before ch t (kg_age k) = Inr l"
    "keys_to_utc ch t keys = Inr us"
    "u = \<lparr>ug_key = kg_key k, ug_horizon = h, ug_last_seen = l, ug_ordinal = kg_ordinal k\<rparr> # us"
    by (auto split: sum.splits)
  have age: "nat (t + int d - (t - int (kg_age k))) = kg_age k + d"
    and rest: "nat (t + int (kg_remaining k) - (t + int d)) = kg_remaining k - d" by linarith+
  show ?case
    using Cons.IH [OF u(3)] utc_after_Inr [OF ch u(1)] utc_before_Inr [OF ch u(2)] u(4) age rest
    by (cases k) (auto simp: chrono_difference [OF ch] elapse_key_def)
qed simp

lemma clauses_round_trip:
  assumes ch: "chrono_documented ch"
  shows "clauses_to_utc ch t gen = Inr u \<Longrightarrow> clauses_from_utc ch (t + int d) u = Inr (map (elapse_clause d) gen)"
proof (induction gen arbitrary: u)
  case (Cons c gen)
  show ?case
  proof (cases c)
    case (Direct_generation q remaining)
    with Cons.prems obtain us where us: "clauses_to_utc ch t gen = Inr us" by (auto split: sum.splits)
    have r: "nat (t + int r - (t + int d)) = r - d" for r by linarith
    show ?thesis
    proof (cases remaining)
      case None
      then show ?thesis using Cons.prems Direct_generation Cons.IH [OF us] us by auto
    next
      case (Some rem)
      then obtain h where h: "utc_after ch t rem = Inr h"
        using Cons.prems Direct_generation by (cases "utc_after ch t rem") auto
      then show ?thesis
        using Cons.prems Direct_generation Cons.IH [OF us] us Some utc_after_Inr [OF ch h] r
        by (auto simp: chrono_difference [OF ch])
    qed
  next
    case (Keyed_generation q options keys)
    then show ?thesis
      using Cons.prems Cons.IH keys_round_trip [OF ch, of t keys] by (auto split: sum.splits)
  qed
qed simp

text \<open>
  C18: a generation survives a restart. Whenever a generation can be written in calendar time, it
  is read back at any later time, however much time has passed: each debt is shorter and each key
  older by exactly the time that passed, what was paid off or has outlived its TTL is gone, nothing
  else changes, and the result is a valid generation.
\<close>

theorem restart_resumes_generation:
  assumes "chrono_documented ch" and "to_utc ch gen t = Inr u"
  shows "from_utc ch u (t + int d) = Inr (map (elapse_clause d) gen)"
proof -
  have ok: "list_all clause_ok gen" and conv: "clauses_to_utc ch t gen = Inr u"
    using assms(2) by (auto simp: to_utc_def gen_prepare_spec split: if_splits sum.splits)
  have "list_all clause_ok (map (elapse_clause d) gen)"
    using ok elapse_clause_ok by (auto simp: list_all_iff)
  then show ?thesis
    using clauses_round_trip [OF assms(1) conv, of d] by (simp add: from_utc_def gen_prepare_spec)
qed

text \<open>A calendar of four days, and a generation with one debt and two keys.\<close>

definition small_chrono :: chrono where
  "small_chrono = \<lparr>td_from_std = (\<lambda>d. if d \<le> 345600000000000 then Some (int d) else None),
     td_to_std = (\<lambda>x. if x < 0 then None else Some (nat x)),
     dt_checked_add = (\<lambda>a x. if a + x \<le> 345600000000000 then Some (a + x) else None),
     dt_checked_sub = (\<lambda>a x. if 0 \<le> a - x then Some (a - x) else None),
     dt_since = (\<lambda>a b. a - b)\<rparr>"

definition demo_generation :: generation where
  "demo_generation = [Direct_generation demo_quota (Some 12),
     Keyed_generation demo_quota \<lparr>ko_ttl = 10, ko_max_keys = 2, ko_shards = 2\<rparr>
       [\<lparr>kg_key = 3, kg_remaining = 6, kg_age = 8, kg_ordinal = 4\<rparr>,
        \<lparr>kg_key = 7, kg_remaining = 9, kg_age = 1, kg_ordinal = 5\<rparr>]]"

theorem restart_resumes_generation_witness:
  "from_utc small_chrono
     [Utc_direct demo_quota (Some 112),
      Utc_keyed demo_quota \<lparr>ko_ttl = 10, ko_max_keys = 2, ko_shards = 2\<rparr>
        [\<lparr>ug_key = 3, ug_horizon = 106, ug_last_seen = 92, ug_ordinal = 4\<rparr>,
         \<lparr>ug_key = 7, ug_horizon = 109, ug_last_seen = 99, ug_ordinal = 5\<rparr>]] (100 + int 4) =
   Inr (map (elapse_clause 4) demo_generation)"
proof (rule restart_resumes_generation)
  show "chrono_documented small_chrono" by (auto simp: chrono_documented_def small_chrono_def split: if_splits)
qed (simp add: to_utc_def gen_prepare_def demo_generation_def small_chrono_def utc_after_def utc_before_def gen_delta_def
    checked_add_def duration_max_def demo_quota_def u64_max_def)

section \<open>The keys of a generation\<close>

definition kept :: "nanos \<Rightarrow> nanos \<Rightarrow> key_fingerprint \<times> key_entry \<Rightarrow> bool" where
  "kept ttl now x = (now - en_last_seen (snd x) < ttl \<and> now < en_horizon (snd x))"

definition saved :: "nanos \<Rightarrow> key_fingerprint \<times> key_entry \<Rightarrow> key_generation" where
  "saved now x = \<lparr>kg_key = fst x, kg_remaining = en_horizon (snd x) - now, kg_age = now - en_last_seen (snd x),
     kg_ordinal = en_ordinal (snd x)\<rparr>"

lemma retained_keys_ok:
  "\<forall>x \<in> set xs. en_last_seen (snd x) \<le> now \<Longrightarrow>
   retained_keys ttl now xs = Some (map (saved now) (filter (kept ttl now) xs))"
  by (induction ttl now xs rule: retained_keys.induct) (auto simp: checked_sub_def kept_def saved_def)

lemma collect_shards_ok:
  "\<forall>m \<in> set ms. em_inv m \<Longrightarrow> collect_shards ms = Some (concat (map em_contents ms))"
  by (induction ms) (auto simp: em_iter_spec)

definition entries :: "keyed_store \<Rightarrow> (key_fingerprint \<times> key_entry) list" where
  "entries ks = concat (map em_contents (ks_shards ks))"

lemma set_entries [simp]: "set (entries ks) = retained ks"
  by (auto simp: entries_def retained_def)

lemma retained_last_seen: "ks_inv ks t \<Longrightarrow> x \<in> retained ks \<Longrightarrow> en_last_seen (snd x) \<le> t \<and> en_ordinal (snd x) < ks_visits ks"
  using shard_inv_entries [OF ks_inv_shard, of ks t] by (cases x) (force simp: retained_iff)

lemma ks_inv_em: "ks_inv ks t \<Longrightarrow> m \<in> set (ks_shards ks) \<Longrightarrow> em_inv m"
  using shard_inv_em [OF ks_inv_shard, of ks t] by (auto simp: in_set_conv_nth)

lemma ks_generation_ok:
  assumes "ks_inv ks t" and "t \<le> now"
  shows "ks_generation ks now =
    Some (sort_key kg_ordinal (map (saved now) (filter (kept (ko_ttl (ks_options ks)) now) (entries ks))))"
proof -
  have "\<forall>x \<in> set (entries ks). en_last_seen (snd x) \<le> now"
    using retained_last_seen [OF assms(1)] assms(2) by fastforce
  then show ?thesis
    using collect_shards_ok ks_inv_em [OF assms(1)] retained_keys_ok
    by (simp add: ks_generation_def entries_def)
qed

text \<open>The keys of a store are distinct, over all its shards.\<close>

lemma entries_distinct:
  assumes inv: "ks_inv ks t"
  shows "distinct (map fst (entries ks))"
proof -
  have "distinct (map fst (concat (map em_contents ms)))"
    if "\<forall>j < length ms. em_inv (ms ! j) \<and> (\<forall>x \<in> set (em_contents (ms ! j)). fst x mod n = i + j)" for ms i n
    using that
  proof (induction ms arbitrary: i)
    case (Cons m ms)
    have head: "em_inv m" "\<forall>x \<in> set (em_contents m). fst x mod n = i" using Cons.prems [rule_format, of 0] by auto
    have tail: "\<forall>j < length ms. em_inv (ms ! j) \<and> (\<forall>x \<in> set (em_contents (ms ! j)). fst x mod n = Suc i + j)"
      using Cons.prems by (metis Suc_less_eq add_Suc_shift length_Cons nth_Cons_Suc)
    have "i < fst x mod n" if "x \<in> set (concat (map em_contents ms))" for x
    proof -
      from that obtain m' where "m' \<in> set ms" "x \<in> set (em_contents m')" by auto
      then obtain j where "j < length ms" "x \<in> set (em_contents (ms ! j))" by (metis in_set_conv_nth)
      with tail have "fst x mod n = Suc i + j" by blast
      then show ?thesis by simp
    qed
    then have "fst ` set (em_contents m) \<inter> fst ` set (concat (map em_contents ms)) = {}"
      using head(2) by fastforce
    then show ?case using Cons.IH [OF tail] distinct_em_contents [OF head(1)] by simp
  qed simp
  from this [of "ks_shards ks" "length (ks_shards ks)" 0] show ?thesis
    using inv own_shard [OF inv] shard_inv_em [OF ks_inv_shard [OF inv]] by (simp add: entries_def)
qed

lemma entries_length: "length (entries ks) = active_keys (ks_shards ks)"
  by (simp add: entries_def active_keys_def length_concat comp_def)

lemma saved_fields [simp]:
  "kg_key (saved now x) = fst x" "kg_ordinal (saved now x) = en_ordinal (snd x)"
  "kg_age (saved now x) = now - en_last_seen (snd x)" "kg_remaining (saved now x) = en_horizon (snd x) - now"
  by (simp_all add: saved_def)

lemma saved_keys_ok:
  assumes inv: "keyed_inv q ks t" and t: "t \<le> now" and q: "quota_ok q"
  defines "keys \<equiv> sort_key kg_ordinal (map (saved now) (filter (kept (ko_ttl (ks_options ks)) now) (entries ks)))"
  shows "keys_ok q (ks_options ks) keys" and "length keys \<le> ko_max_keys (ks_options ks)"
proof -
  let ?xs = "filter (kept (ko_ttl (ks_options ks)) now) (entries ks)"
  have kinv: "ks_inv ks t" and hist: "history (retained ks)" and owed: "owed q (retained ks)" and vis: "ks_visits ks \<le> u64_max"
    using inv by (simp_all add: keyed_inv_def)
  have sub: "set ?xs \<subseteq> retained ks" by auto
  have keys: "set keys = saved now ` set ?xs" by (simp add: keys_def)
  have "length keys \<le> length (entries ks)" by (simp add: keys_def)
  then show "length keys \<le> ko_max_keys (ks_options ks)" using kinv by (simp add: entries_length ks_inv_def)
  have "key_ok q (ks_options ks) (saved now x)" if x: "x \<in> set ?xs" for x
  proof -
    have "en_last_seen (snd x) \<le> now" "en_ordinal (snd x) < u64_max"
      using retained_last_seen [OF kinv, of x] x t vis by auto
    moreover have "en_horizon (snd x) \<le> en_last_seen (snd x) + q_horizon q" using owed x by (auto simp: owed_def)
    moreover have "q_horizon q \<le> duration_max" using q by (simp add: quota_ok_def u64_max_def duration_max_def)
    ultimately show ?thesis using x by (auto simp: key_ok_def kept_def)
  qed
  then have "list_all (key_ok q (ks_options ks)) keys" using keys by (auto simp: list_all_iff)
  moreover have dist: "distinct (map kg_key keys)"
  proof -
    have "mset (map kg_key keys) = mset (map fst ?xs)" by (simp add: keys_def image_mset.compositionality comp_def)
    moreover have "distinct (map fst ?xs)" by (rule distinct_map_filter' [OF entries_distinct [OF kinv]])
    ultimately show ?thesis by (metis mset_eq_imp_distinct_iff)
  qed
  moreover have "sorted_wrt visited_later keys"
  proof -
    have "inj_on kg_ordinal (set keys)"
      using hist sub unfolding keys history_def by (auto simp: inj_on_def)
    moreover have "distinct keys" using dist by (simp add: distinct_map)
    ultimately have "distinct (map kg_ordinal keys)" by (simp add: distinct_map)
    then have "sorted_wrt (<) (map kg_ordinal keys)" by (simp add: strict_sorted_iff keys_def)
    then show ?thesis
      unfolding sorted_wrt_map
    proof (rule sorted_wrt_mono_rel [rotated])
      fix a b assume ab: "a \<in> set keys" "b \<in> set keys" "kg_ordinal a < kg_ordinal b"
      then obtain x y where "x \<in> set ?xs" "a = saved now x" "y \<in> set ?xs" "b = saved now y" using keys by auto
      then show "visited_later a b" using ab(3) hist by (auto simp: visited_later_def history_def intro: diff_le_mono2)
    qed
  qed
  ultimately show "keys_ok q (ks_options ks) keys" by (simp add: keys_ok_def)
qed

lemma clause_generations_ok:
  assumes "\<forall>a \<in> set as. allowance_inv (al_clause a) (al_store a) t" and "t \<le> offset"
  shows "\<exists>gen. clause_generations offset as = Some gen \<and> list_all clause_ok gen"
  using assms(1)
proof (induction as)
  case (Cons a as)
  then obtain gen where gen: "clause_generations offset as = Some gen" "list_all clause_ok gen" by auto
  have inv: "allowance_inv (al_clause a) (al_store a) t" using Cons.prems by simp
  show ?case
  proof (cases "al_store a")
    case (Direct_store h)
    then have "h - offset \<le> q_horizon (clause_quota (al_clause a))"
      using debt_bound [OF inv assms(2), of "Direct_charge 1"] by simp
    then show ?thesis using Direct_store gen by auto
  next
    case (Keyed_cells ks)
    then obtain q where cl: "al_clause a = Keyed_clause q (ks_options ks)" "quota_ok q" "keyed_inv q ks t"
      using inv by (auto simp: allowance_inv_Keyed)
    have "ks_inv ks t" using cl(3) by (simp add: keyed_inv_def)
    from ks_generation_ok [OF this assms(2)] show ?thesis
      using saved_keys_ok [OF cl(3) assms(2) cl(2)] Keyed_cells cl(1) gen by simp
  qed
qed simp

text \<open>
  C35: a limiter can always be saved. On a well-formed limiter, taking a generation never panics;
  it fails only when the clock has moved back or out of range, and otherwise the generation passes
  the validation of both the calendar conversion and the restore.
\<close>

theorem saved_generation_is_accepted:
  assumes "limiter_inv li"
  shows "\<exists>r. li_generation li now = Some r \<and>
    (case r of Inl e \<Rightarrow> now < li_latest li \<or> u64_max < duration_since now (li_epoch li)
     | Inr gen \<Rightarrow> \<exists>plan. gen_prepare gen = Inr plan)"
proof (cases "li_offset li now")
  case (Inl e)
  then show ?thesis by (auto simp: li_generation_def li_offset_def try_from_def split: if_splits)
next
  case (Inr offset)
  then have off: "li_latest li \<le> now" "offset = duration_since now (li_epoch li)"
    by (auto simp: li_offset_def try_from_def split: if_splits)
  then have "duration_since (li_latest li) (li_epoch li) \<le> offset" by (simp add: duration_since_def nat_mono)
  then obtain gen where "clause_generations offset (li_clauses li) = Some gen" "list_all clause_ok gen"
    using clause_generations_ok assms unfolding limiter_inv_def by blast
  then show ?thesis using Inr by (simp add: li_generation_def gen_prepare_spec)
qed

theorem saved_generation_is_accepted_witness:
  "\<exists>r. li_generation demo_limiter 5 = Some r \<and>
    (case r of Inl e \<Rightarrow> 5 < li_latest demo_limiter \<or> u64_max < duration_since 5 (li_epoch demo_limiter)
     | Inr gen \<Rightarrow> \<exists>plan. gen_prepare gen = Inr plan)"
  by (rule saved_generation_is_accepted [OF demo_limiter_inv])

end
