(* ===== verification/Rate_Restore.thy ===== *)
theory Rate_Restore
  imports Rate_Generation
begin

text \<open>
  Installing a generation in a fresh limiter (\<open>from_generation\<close> in crates/rate-limit/src/lib.rs and
  \<open>restore\<close> in keyed.rs): the restored limiter is well formed and saves the generation it came from.
\<close>

section \<open>Restoring the keys of one store\<close>

definition restored :: "nanos \<Rightarrow> key_generation \<Rightarrow> key_fingerprint \<times> key_entry" where
  "restored now k = (kg_key k, \<lparr>en_horizon = now + kg_remaining k, en_last_seen = now - kg_age k, en_ordinal = kg_ordinal k\<rparr>)"

lemma restored_fields [simp]:
  "fst (restored now k) = kg_key k" "en_horizon (snd (restored now k)) = now + kg_remaining k"
  "en_last_seen (snd (restored now k)) = now - kg_age k" "en_ordinal (snd (restored now k)) = kg_ordinal k"
  by (simp_all add: restored_def)

definition restorable :: "nanos \<Rightarrow> key_generation \<Rightarrow> bool" where
  "restorable now k = (kg_age k \<le> now \<and> kg_ordinal k < u64_max)"

definition in_shard :: "nat \<Rightarrow> nat \<Rightarrow> key_generation \<Rightarrow> bool" where
  "in_shard n i k = (kg_key k mod n = i)"

definition restores :: "keyed_store \<Rightarrow> key_generation list \<Rightarrow> nanos \<Rightarrow> keyed_store \<Rightarrow> bool" where
  "restores ks keys now ks' = (ks_options ks' = ks_options ks \<and> ks_evictions ks' = ks_evictions ks \<and>
     length (ks_shards ks') = length (ks_shards ks) \<and>
     (\<forall>i < length (ks_shards ks). em_inv (ks_shards ks' ! i) \<and>
        em_contents (ks_shards ks' ! i) =
          em_contents (ks_shards ks ! i) @ map (restored now) (filter (in_shard (length (ks_shards ks)) i) keys)))"

lemma restore_keys_ok:
  assumes "ks_shards ks \<noteq> []" and "\<forall>i < length (ks_shards ks). em_inv (ks_shards ks ! i)"
    and "list_all (restorable now) keys" and "distinct (map kg_key keys)"
    and "\<forall>k \<in> set keys. kg_key k \<notin> fst ` set (em_contents (ks_shards ks ! (kg_key k mod length (ks_shards ks))))"
  shows "\<exists>r. restore_keys ks keys now next = Some r \<and>
    (r = Inl ClockRange \<and> (\<exists>k \<in> set keys. u64_max < now + kg_remaining k) \<or>
     (\<exists>ks'. r = Inr ((if keys = [] then next else Suc (kg_ordinal (last keys))), ks') \<and> restores ks keys now ks' \<and>
        (\<forall>k \<in> set keys. now + kg_remaining k \<le> u64_max)))"
  using assms
proof (induction keys arbitrary: ks "next")
  case Nil
  then show ?case by (simp add: restores_def)
next
  case (Cons k keys)
  show ?case
  proof (cases "now + kg_remaining k \<le> u64_max")
    case False
    then show ?thesis by (simp add: try_from_def)
  next
    case True
    let ?n = "length (ks_shards ks)" let ?i = "kg_key k mod ?n" let ?m = "ks_shards ks ! ?i"
    have il: "?i < ?n" using Cons.prems(1) by simp
    have em: "em_inv ?m" using Cons.prems(2) il by blast
    have absent: "kg_key k \<notin> fst ` set (em_contents ?m)" using Cons.prems(5) by simp
    obtain ok m where ins: "em_insert ?m (kg_key k) (snd (restored now k)) = (ok, m)"
      by (cases "em_insert ?m (kg_key k) (snd (restored now k))")
    have m: ok "em_inv m" "em_contents m = em_contents ?m @ [restored now k]"
      using em_insert_spec [OF em, of "kg_key k" "snd (restored now k)"] ins absent by (simp_all add: restored_def)
    let ?ks = "ks\<lparr>ks_shards := (ks_shards ks)[?i := m]\<rparr>"
    have shards: "em_inv (ks_shards ?ks ! j) \<and> em_contents (ks_shards ?ks ! j) =
        em_contents (ks_shards ks ! j) @ (if j = ?i then [restored now k] else [])" if "j < ?n" for j
      using that m(2,3) Cons.prems(2) il by (auto simp: nth_list_update)
    have fresh: "\<forall>k' \<in> set keys. kg_key k' \<notin> fst ` set (em_contents (ks_shards ?ks ! (kg_key k' mod length (ks_shards ?ks))))"
    proof
      fix k' assume k': "k' \<in> set keys"
      have "kg_key k' mod ?n < ?n" using Cons.prems(1) by simp
      moreover have "kg_key k' \<noteq> kg_key k" using Cons.prems(4) k' by (force simp: image_iff)
      moreover have "kg_key k' \<notin> fst ` set (em_contents (ks_shards ks ! (kg_key k' mod ?n)))"
        using Cons.prems(5) k' by simp
      ultimately show "kg_key k' \<notin> fst ` set (em_contents (ks_shards ?ks ! (kg_key k' mod length (ks_shards ?ks))))"
        using shards [of "kg_key k' mod ?n"] by (cases "kg_key k' mod ?n = ?i") simp_all
    qed
    obtain r where r: "restore_keys ?ks keys now (Suc (kg_ordinal k)) = Some r"
      "r = Inl ClockRange \<and> (\<exists>k \<in> set keys. u64_max < now + kg_remaining k) \<or>
       (\<exists>ks'. r = Inr ((if keys = [] then Suc (kg_ordinal k) else Suc (kg_ordinal (last keys))), ks') \<and>
         restores ?ks keys now ks' \<and> (\<forall>k \<in> set keys. now + kg_remaining k \<le> u64_max))"
      using Cons.IH [of ?ks "Suc (kg_ordinal k)"] Cons.prems shards fresh by auto
    have "restores ks (k # keys) now ks'" if "restores ?ks keys now ks'" for ks'
      using that shards unfolding restores_def in_shard_def by auto
    moreover have "restore_keys ks (k # keys) now next = Some r"
      using True Cons.prems(1,3) ins m(1) r(1)
      by (simp add: try_from_def restorable_def checked_sub_def checked_add_def ks_shard_def restored_def)
    ultimately show ?thesis using r True by (auto split: if_splits)
  qed
qed

lemma mset_partition:
  "mset (concat (map (\<lambda>i. filter (\<lambda>x. f x = i) xs) [0..<n])) = filter_mset (\<lambda>x. f x < n) (mset xs)"
proof (induction n)
  case (Suc n)
  have "filter_mset (\<lambda>x. f x < Suc n) M = filter_mset (\<lambda>x. f x < n) M + filter_mset (\<lambda>x. f x = n) M" for M
    by (rule multiset_eqI) auto
  then show ?case using Suc by simp
qed simp

lemma mset_shards:
  "0 < n \<Longrightarrow> mset (concat (map (\<lambda>i. filter (in_shard n i) keys) [0..<n])) = mset keys"
  using mset_partition [of "\<lambda>k. kg_key k mod n" keys n] by (simp add: in_shard_def [abs_def] filter_mset_True)

lemma restores_entries:
  assumes "restores (ks_new options) keys now ks'"
  shows "entries ks' = map (restored now) (concat (map (\<lambda>i. filter (in_shard (ko_shards options) i) keys) [0..<ko_shards options]))"
proof -
  have len: "length (ks_shards ks') = ko_shards options" using assms by (simp add: restores_def ks_new_def)
  have "em_contents (ks_shards ks' ! i) = map (restored now) (filter (in_shard (ko_shards options) i) keys)"
    if "i < ko_shards options" for i
    using assms that by (simp add: restores_def ks_new_def em_new_spec)
  then have "map em_contents (ks_shards ks') =
      map (\<lambda>i. map (restored now) (filter (in_shard (ko_shards options) i) keys)) [0..<ko_shards options]"
    using len by (intro nth_equalityI) auto
  then show ?thesis by (simp add: entries_def map_concat comp_def)
qed

lemma saved_restored: "kg_age k \<le> now \<Longrightarrow> saved now (restored now k) = k"
  by (simp add: saved_def)

lemma sorted_last:
  "sorted_wrt visited_later keys \<Longrightarrow> k \<in> set keys \<Longrightarrow> kg_ordinal k \<le> kg_ordinal (last keys)"
  by (induction keys) (auto simp: visited_later_def less_imp_le)

lemma sorted_pair:
  "sorted_wrt visited_later keys \<Longrightarrow> a \<in> set keys \<Longrightarrow> b \<in> set keys \<Longrightarrow> kg_ordinal a \<le> kg_ordinal b \<Longrightarrow>
   a = b \<or> visited_later a b"
  by (induction keys) (auto simp: visited_later_def)

lemma restored_history:
  assumes "sorted_wrt visited_later keys"
  shows "history (restored now ` set keys)"
proof -
  note pair = sorted_pair [OF assms]
  have "inj_on (en_ordinal \<circ> snd) (restored now ` set keys)"
    using pair by (auto simp: inj_on_def visited_later_def) (metis less_irrefl order_refl)+
  then show ?thesis using pair by (auto simp: history_def visited_later_def intro: diff_le_mono2 dest: less_imp_le)
qed

lemma restored_keyed_inv:
  assumes ok: "keys_ok q options keys" and len: "length keys \<le> ko_max_keys options"
    and opts: "0 < ko_shards options" "ko_max_keys options \<le> u64_max"
    and each_key: "list_all (restorable now) keys"
    and ks: "restores (ks_new options) keys now ks'" "ks_visits ks' = (if keys = [] then 0 else Suc (kg_ordinal (last keys)))"
  shows "keyed_inv q ks' now" and "ks_generation ks' now = Some keys"
proof -
  let ?n = "ko_shards options"
  have ages: "\<forall>k \<in> set keys. kg_age k \<le> now" using each_key by (simp add: list_all_iff restorable_def)
  have sorted: "sorted_wrt visited_later keys" and each: "\<forall>k \<in> set keys. key_ok q options k"
    using ok by (simp_all add: keys_ok_def list_all_iff)
  have n: "length (ks_shards ks') = ?n" and opt: "ks_options ks' = options"
    using ks(1) by (simp_all add: restores_def ks_new_def)
  have shard: "em_inv (ks_shards ks' ! i) \<and> em_contents (ks_shards ks' ! i) = map (restored now) (filter (in_shard ?n i) keys)"
    if "i < ?n" for i
    using ks(1) that by (simp add: restores_def ks_new_def em_new_spec)
  have ret: "retained ks' = restored now ` set keys"
    using restores_entries [OF ks(1)] set_entries [of ks'] mset_shards [OF opts(1), of keys]
    by (metis list.set_map set_mset_mset)
  have ordinal: "kg_ordinal k < ks_visits ks'" if "k \<in> set keys" for k
    using that sorted_last [OF sorted that] ks(2) by auto
  have "sorted_wrt visited_before (map (restored now) (filter P keys))" for P
    unfolding sorted_wrt_map
    by (rule sorted_wrt_mono_rel [OF _ sorted_wrt_filter [OF sorted]])
      (auto simp: visited_before_fields visited_later_def intro: diff_le_mono2)
  then have "shard_inv ?n i (ks_visits ks') now (ks_shards ks' ! i)" if "i < ?n" for i
    using shard [OF that] ordinal by (auto simp: shard_inv_def list_all_iff entry_inv_fields in_shard_def)
  moreover have "active_keys (ks_shards ks') = length keys"
    using restores_entries [OF ks(1)] mset_shards [OF opts(1), of keys]
    by (metis entries_length length_map size_mset)
  ultimately have "ks_inv ks' now" using opts len n opt by (auto simp: ks_inv_def)
  moreover have "history (retained ks')" unfolding ret by (rule restored_history [OF sorted])
  moreover have "owed q (retained ks')"
    using each ages unfolding ret by (force simp: owed_def key_ok_def)
  moreover have "ks_visits ks' \<le> u64_max"
    using ks(2) each_key last_in_set [of keys] by (cases "keys = []") (auto simp: list_all_iff restorable_def Suc_le_eq)
  ultimately show kinv: "keyed_inv q ks' now" by (simp add: keyed_inv_def)
  let ?ys = "concat (map (\<lambda>i. filter (in_shard ?n i) keys) [0..<?n])"
  have ys: "mset ?ys = mset keys" "set ?ys = set keys"
    using mset_shards [OF opts(1), of keys] mset_eq_setD by blast+
  have "filter (kept (ko_ttl options) now) (map (restored now) ?ys) = map (restored now) ?ys"
    using ys(2) each ages by (auto simp: filter_id_conv kept_def key_ok_def)
  moreover have "map (saved now) (map (restored now) ?ys) = ?ys"
    using ys(2) ages saved_restored by (auto intro!: map_idI)
  moreover have "sort_key kg_ordinal ?ys = keys"
  proof (rule sort_key_inj_key_eq [OF ys(1)])
    show "inj_on kg_ordinal (set ?ys)"
      using sorted_pair [OF sorted] unfolding ys(2) inj_on_def visited_later_def by fastforce
    show "sorted (map kg_ordinal keys)"
      unfolding sorted_map
      by (rule sorted_wrt_mono_rel [OF _ sorted]) (simp add: visited_later_def)
  qed
  moreover have "ks_inv ks' now" using kinv by (simp add: keyed_inv_def)
  ultimately show "ks_generation ks' now = Some keys"
    using ks_generation_ok [of ks' now now] restores_entries [OF ks(1)] opt by simp
qed

section \<open>Restoring a limiter\<close>

text \<open>
  What the types and the constructors of the code guarantee of any generation: quotas and options
  were validated, and ordinals are 64-bit.
\<close>

fun gen_typed :: "clause_generation \<Rightarrow> bool" where
  "gen_typed (Direct_generation q remaining) = quota_ok q"
| "gen_typed (Keyed_generation q options keys) = (quota_ok q \<and> 0 < ko_shards options \<and> ko_max_keys options \<le> u64_max \<and>
     ko_ttl options \<le> u64_max \<and> (\<forall>k \<in> set keys. kg_ordinal k \<le> u64_max))"

lemma keyed_restore_ok:
  assumes "gen_typed (Keyed_generation q options keys)" and "clause_ok (Keyed_generation q options keys)"
    and "\<forall>k \<in> set keys. kg_age k \<le> now"
  shows "\<exists>r. ks_restore (ks_new options) keys now = Some r \<and>
    (r = Inl ClockRange \<and> (\<exists>k \<in> set keys. u64_max < now + kg_remaining k) \<or>
     (\<exists>ks. r = Inr ks \<and> ks_options ks = options \<and> keyed_inv q ks now \<and> ks_generation ks now = Some keys \<and>
        (\<forall>k \<in> set keys. now + kg_remaining k \<le> u64_max)))"
proof -
  have ok: "keys_ok q options keys" and dist: "distinct (map kg_key keys)" using assms(2) by (simp_all add: keys_ok_def)
  have each: "list_all (restorable now) keys"
    unfolding list_all_iff
  proof
    fix k assume k: "k \<in> set keys"
    then have "kg_ordinal k \<noteq> u64_max" "kg_ordinal k \<le> u64_max" "kg_age k \<le> now"
      using ok assms(1,3) by (simp_all add: keys_ok_def list_all_iff key_ok_def)
    then show "restorable now k" by (simp add: restorable_def)
  qed
  obtain r where r: "restore_keys (ks_new options) keys now 0 = Some r"
    "r = Inl ClockRange \<and> (\<exists>k \<in> set keys. u64_max < now + kg_remaining k) \<or>
     (\<exists>ks'. r = Inr ((if keys = [] then 0 else Suc (kg_ordinal (last keys))), ks') \<and>
       restores (ks_new options) keys now ks' \<and> (\<forall>k \<in> set keys. now + kg_remaining k \<le> u64_max))"
    using restore_keys_ok [OF _ _ each dist, of "ks_new options" 0] assms(1)
    by (simp add: ks_new_def em_new_spec) blast
  show ?thesis
  proof (cases "r = Inl ClockRange")
    case True
    then show ?thesis using r by (simp add: ks_restore_def)
  next
    case False
    then obtain ks' where ks': "r = Inr ((if keys = [] then 0 else Suc (kg_ordinal (last keys))), ks')"
      "restores (ks_new options) keys now ks'" "\<forall>k \<in> set keys. now + kg_remaining k \<le> u64_max"
      using r(2) by blast
    let ?ks = "ks'\<lparr>ks_visits := if keys = [] then 0 else Suc (kg_ordinal (last keys))\<rparr>"
    have "restores (ks_new options) keys now ?ks" using ks'(2) by (simp add: restores_def)
    moreover from this have "ks_options ?ks = options" by (simp add: restores_def ks_new_def)
    ultimately show ?thesis
      using restored_keyed_inv [OF ok _ _ _ each, of ?ks] assms(1,2) r(1) ks'(1,3) by (simp add: ks_restore_def)
  qed
qed

text \<open>The times a clause still owes, and whether every one of them fits 64 bits after an offset.\<close>

fun gen_owed :: "clause_generation \<Rightarrow> nanos list" where
  "gen_owed (Direct_generation q remaining) = (case remaining of None \<Rightarrow> [] | Some r \<Rightarrow> [r])"
| "gen_owed (Keyed_generation q options keys) = map kg_remaining keys"

definition owed_fits :: "nanos \<Rightarrow> generation \<Rightarrow> bool" where
  "owed_fits offset gen = list_all (\<lambda>c. list_all (\<lambda>r. offset + r \<le> u64_max) (gen_owed c)) gen"

lemma install_clauses_ok:
  assumes "list_all gen_typed gen" and "list_all clause_ok gen" and "offset \<le> u64_max"
    and "\<forall>c \<in> set gen. \<forall>k \<in> set (gen_keys c). kg_age k \<le> offset"
  shows "\<exists>r. install_clauses offset (zip (map (\<lambda>c. allowance_new (gen_clause c)) gen) gen) = Some r \<and>
    (r = Inl ClockRange \<and> \<not> owed_fits offset gen \<or>
     (\<exists>as. r = Inr as \<and> owed_fits offset gen \<and> (\<forall>a \<in> set as. allowance_inv (al_clause a) (al_store a) offset) \<and>
       clause_generations offset as = Some gen))"
  using assms
proof (induction gen)
  case (Cons c gen)
  then obtain r where r: "install_clauses offset (zip (map (\<lambda>c. allowance_new (gen_clause c)) gen) gen) = Some r"
    "r = Inl ClockRange \<and> \<not> owed_fits offset gen \<or>
     (\<exists>as. r = Inr as \<and> owed_fits offset gen \<and> (\<forall>a \<in> set as. allowance_inv (al_clause a) (al_store a) offset) \<and>
       clause_generations offset as = Some gen)" by auto
  have fits: "owed_fits offset (c # gen) \<longleftrightarrow> list_all (\<lambda>r. offset + r \<le> u64_max) (gen_owed c) \<and> owed_fits offset gen"
    by (simp add: owed_fits_def)
  show ?case
  proof (cases c)
    case (Direct_generation q remaining)
    let ?rem = "case remaining of None \<Rightarrow> 0 | Some r \<Rightarrow> r"
    have "?rem \<le> q_horizon q" "quota_ok q" "\<And>x. remaining = Some x \<Longrightarrow> 0 < x"
      using Cons.prems Direct_generation by (auto split: option.splits)
    then show ?thesis
      using r Direct_generation Cons.prems(3) unfolding fits
      by (cases "offset + ?rem \<le> u64_max")
        (auto simp: allowance_new_def try_from_def split: option.splits)
  next
    case (Keyed_generation q options keys)
    then obtain s where s: "ks_restore (ks_new options) keys offset = Some s"
      "s = Inl ClockRange \<and> (\<exists>k \<in> set keys. u64_max < offset + kg_remaining k) \<or>
       (\<exists>ks. s = Inr ks \<and> ks_options ks = options \<and> keyed_inv q ks offset \<and> ks_generation ks offset = Some keys \<and>
          (\<forall>k \<in> set keys. offset + kg_remaining k \<le> u64_max))"
      using keyed_restore_ok [of q options keys offset] Cons.prems by auto
    have "quota_ok q" using Cons.prems Keyed_generation by simp
    moreover have "list_all (\<lambda>r. offset + r \<le> u64_max) (gen_owed c) \<longleftrightarrow> (\<forall>k \<in> set keys. offset + kg_remaining k \<le> u64_max)"
      using Keyed_generation by (simp add: list_all_iff)
    ultimately show ?thesis using r s Keyed_generation unfolding fits by (auto simp: allowance_new_def not_le)
  qed
qed (simp add: owed_fits_def)

lemma greatest_age_bounds:
  "m \<le> greatest_age gen m \<and> (\<forall>c \<in> set gen. \<forall>k \<in> set (gen_keys c). kg_age k \<le> greatest_age gen m) \<and>
   (m \<le> b \<and> (\<forall>c \<in> set gen. \<forall>k \<in> set (gen_keys c). kg_age k \<le> b) \<longrightarrow> greatest_age gen m \<le> b)"
proof -
  have "m \<le> fold (\<lambda>k. max (kg_age k)) ks m \<and> (\<forall>k \<in> set ks. kg_age k \<le> fold (\<lambda>k. max (kg_age k)) ks m) \<and>
      (m \<le> b \<and> (\<forall>k \<in> set ks. kg_age k \<le> b) \<longrightarrow> fold (\<lambda>k. max (kg_age k)) ks m \<le> b)" for ks
  proof (induction ks arbitrary: m)
    case (Cons k ks)
    from Cons.IH [of "max (kg_age k) m"] show ?case by auto
  qed simp
  from this [of "concat (map gen_keys gen)"] show ?thesis unfolding greatest_age_def by auto
qed

text \<open>
  C20: restoring loses nothing. Installing a generation never panics. It is refused as invalid exactly
  when a clause is: a direct debt that is zero or above the quota's horizon, or keys that are too many,
  repeated, out of order, past their lifetime or owing more than the quota allows. A valid generation is
  refused for its times exactly when the oldest key was seen before the clock begins or an owed time does
  not fit 64 bits after it. Every other one gives a limiter that is well formed and, asked at that moment,
  saves exactly the generation it was restored from.
\<close>

theorem restored_limiter_saves_the_same:
  assumes "list_all gen_typed gen"
  shows "if \<not> list_all clause_ok gen then from_generation gen now = Some (Inl GenerationState)
    else if now - int (greatest_age gen 0) < instant_min \<or> \<not> owed_fits (greatest_age gen 0) gen
    then from_generation gen now = Some (Inl ClockRange)
    else \<exists>li. from_generation gen now = Some (Inr li) \<and> limiter_inv li \<and> li_generation li now = Some (Inr gen)"
proof (cases "list_all clause_ok gen \<and> instant_min \<le> now - int (greatest_age gen 0)")
  case False
  then show ?thesis by (auto simp: from_generation_def gen_prepare_spec instant_checked_sub_def)
next
  case True
  let ?age = "greatest_age gen 0" let ?epoch = "now - int (greatest_age gen 0)"
  have off: "duration_since now ?epoch = ?age" by (simp add: duration_since_def)
  have ttl: "\<forall>c \<in> set gen. \<forall>k \<in> set (gen_keys c). kg_age k \<le> u64_max"
  proof (intro ballI)
    fix c k assume c: "c \<in> set gen" and k: "k \<in> set (gen_keys c)"
    have "gen_typed c" "clause_ok c" using assms True c by (simp_all add: list_all_iff)
    then show "kg_age k \<le> u64_max"
      using k by (cases c) (auto simp: list_all_iff keys_ok_def key_ok_def)
  qed
  have age: "?age \<le> u64_max" using greatest_age_bounds [of 0 gen u64_max] ttl by blast
  obtain r where r: "install_clauses ?age (zip (map (\<lambda>c. allowance_new (gen_clause c)) gen) gen) = Some r"
    "r = Inl ClockRange \<and> \<not> owed_fits ?age gen \<or>
     (\<exists>as. r = Inr as \<and> owed_fits ?age gen \<and> (\<forall>a \<in> set as. allowance_inv (al_clause a) (al_store a) ?age) \<and>
       clause_generations ?age as = Some gen)"
    using install_clauses_ok [OF assms, of ?age] greatest_age_bounds [of 0 gen] True age by blast
  have run: "from_generation gen now = Some (map_sum id (\<lambda>clauses. \<lparr>li_clauses = clauses, li_epoch = ?epoch, li_latest = now\<rparr>) r)"
    using True r(1) off by (simp add: from_generation_def gen_prepare_spec instant_checked_sub_def limiter_new_def comp_def)
  let ?li = "\<lambda>as. \<lparr>li_clauses = as, li_epoch = ?epoch, li_latest = now\<rparr>"
  have "limiter_inv (?li as) \<and> li_generation (?li as) now = Some (Inr gen)"
    if "\<forall>a \<in> set as. allowance_inv (al_clause a) (al_store a) ?age" "clause_generations ?age as = Some gen" for as
    using that off age by (simp add: limiter_inv_def li_generation_def li_offset_def try_from_def)
  then show ?thesis using r(2) run True by auto
qed

theorem restored_limiter_saves_the_same_witness:
  "\<exists>li. from_generation demo_generation 50 = Some (Inr li) \<and> limiter_inv li \<and>
    li_generation li 50 = Some (Inr demo_generation)"
proof -
  have typed: "list_all gen_typed demo_generation"
    by (simp add: demo_generation_def quota_ok_def demo_quota_def u64_max_def)
  have "list_all clause_ok demo_generation" and "\<not> 50 - int (greatest_age demo_generation 0) < instant_min"
    and "owed_fits (greatest_age demo_generation 0) demo_generation"
    by (simp_all add: demo_generation_def demo_quota_def keys_ok_def key_ok_def visited_later_def greatest_age_def
        owed_fits_def instant_min_def u64_max_def duration_max_def)
  with restored_limiter_saves_the_same [OF typed, of 50] show ?thesis by simp
qed

end
