(* ===== verification/Window_Kernels.thy ===== *)
theory Window_Kernels
  imports Prelude "HOL-Library.Word"
begin

text \<open>
  The folds over one run of window argument values (crates/simd-kernels/src/window.rs): reading a
  packed bitmap by 64-bit words, counting present and true values, the exact 64-bit sums that add
  32-bit halves in separate lanes, and the first minimum and maximum.

  Bytes and words keep their width, and lane arithmetic wraps. The number of lanes of a register is
  an argument, so a theorem holds for every instruction set. Indexing past a slice is a panic.
\<close>

unbundle bit_operations_syntax

section \<open>Validity bitmaps\<close>

type_synonym byte = "8 word"

record run_validity =
  rv_bits :: "byte list option"
  rv_offset :: nat

definition rv_contains :: "run_validity \<Rightarrow> nat \<Rightarrow> bool panics" where
  "rv_contains rv i =
     (case rv_bits rv of
        None \<Rightarrow> Some True
      | Some bits \<Rightarrow> do {
          let position = rv_offset rv + i;
          b \<leftarrow> elem_at bits (position div 8);
          Some (b AND push_bit (position mod 8) 1 \<noteq> 0)
        })"

fun lower_bytes :: "nat \<Rightarrow> byte list \<Rightarrow> 64 word" where
  "lower_bytes i [] = 0"
| "lower_bytes i (b # bs) = push_bit (i * 8) (ucast b) OR lower_bytes (Suc i) bs"

definition bitmap_word :: "byte list \<Rightarrow> nat \<Rightarrow> nat \<Rightarrow> 64 word panics" where
  "bitmap_word bits start len = do {
     let first = start div 8;
     let shift = start mod 8;
     bytes \<leftarrow> (if first \<le> length bits then Some (drop first bits) else panic);
     let lower = lower_bytes 0 (take 8 bytes);
     let shifted = drop_bit shift lower;
     let joined = (if shift \<noteq> 0 \<and> first + 8 < length bits
                   then shifted OR push_bit (64 - shift) (ucast (bits ! (first + 8))) else shifted);
     Some (if len < 64 then joined AND (push_bit len 1 - 1) else joined)
   }"

definition rv_word :: "run_validity \<Rightarrow> nat \<Rightarrow> nat \<Rightarrow> 64 word panics" where
  "rv_word rv start len =
     (case rv_bits rv of
        None \<Rightarrow> Some (if len = 64 then - 1 else push_bit len 1 - 1)
      | Some bits \<Rightarrow> bitmap_word bits (rv_offset rv + start) len)"

definition count_ones :: "64 word \<Rightarrow> nat" where
  "count_ones w = length (filter (bit w) [0..<64])"

fun count_words :: "run_validity \<Rightarrow> nat \<Rightarrow> nat \<Rightarrow> nat \<Rightarrow> nat panics" where
  "count_words rv len 0 start = Some 0"
| "count_words rv len (Suc steps) start = do {
     word \<leftarrow> rv_word rv start (min (len - start) 64);
     rest \<leftarrow> count_words rv len steps (start + 64);
     Some (count_ones word + rest)
   }"

definition rv_count :: "run_validity \<Rightarrow> nat \<Rightarrow> nat panics" where
  "rv_count rv len = (if rv_bits rv = None then Some len else count_words rv len (div_ceil len 64) 0)"

fun count_boolean_words ::
  "byte list \<Rightarrow> nat \<Rightarrow> run_validity \<Rightarrow> nat \<Rightarrow> nat \<Rightarrow> nat \<Rightarrow> (nat \<times> nat) panics" where
  "count_boolean_words values values_offset rv len 0 start = Some (0, 0)"
| "count_boolean_words values values_offset rv len (Suc steps) start = do {
     let width = min (len - start) 64;
     present \<leftarrow> rv_word rv start width;
     word \<leftarrow> bitmap_word values (values_offset + start) width;
     let trues = word AND present;
     (true_rows, false_rows) \<leftarrow> count_boolean_words values values_offset rv len steps (start + 64);
     Some (count_ones trues + true_rows, count_ones (present AND NOT trues) + false_rows)
   }"

definition count_booleans :: "byte list \<Rightarrow> nat \<Rightarrow> run_validity \<Rightarrow> nat \<Rightarrow> (nat \<times> nat) panics" where
  "count_booleans values values_offset rv len =
     count_boolean_words values values_offset rv len (div_ceil len 64) 0"

section \<open>Sums and extremes\<close>

fun sum_integer_loop :: "('a \<Rightarrow> int) \<Rightarrow> run_validity \<Rightarrow> nat \<Rightarrow> 'a list \<Rightarrow> int panics" where
  "sum_integer_loop into rv i [] = Some 0"
| "sum_integer_loop into rv i (v # vs) = do {
     valid \<leftarrow> rv_contains rv i;
     rest \<leftarrow> sum_integer_loop into rv (Suc i) vs;
     Some ((if valid then into v else 0) + rest)
   }"

definition sum_integer :: "('a \<Rightarrow> int) \<Rightarrow> 'a list \<Rightarrow> run_validity \<Rightarrow> (nat \<times> int) panics" where
  "sum_integer into values rv = do {
     total \<leftarrow> sum_integer_loop into rv 0 values;
     count \<leftarrow> rv_count rv (length values);
     Some (count, total)
   }"

text \<open>The present values of one chunk, with zero in the other lanes.\<close>

fun mask_lanes :: "run_validity \<Rightarrow> nat \<Rightarrow> 64 word list \<Rightarrow> 64 word list panics" where
  "mask_lanes rv i [] = Some []"
| "mask_lanes rv i (v # vs) = do {
     valid \<leftarrow> rv_contains rv i;
     rest \<leftarrow> mask_lanes rv (Suc i) vs;
     Some ((if valid then v else 0) # rest)
   }"

definition reduce_halves :: "(64 word \<Rightarrow> int) \<Rightarrow> 64 word list \<Rightarrow> 64 word list \<Rightarrow> int" where
  "reduce_halves conv low high = sum_list (map2 (\<lambda>lo hi. conv hi * 2 ^ 32 + conv lo) low high)"

text \<open>
  The lane loop of \<open>sum_i64\<close> and of \<open>sum_u64\<close>, which differ in the shift of a lane and in how a lane
  is widened. The total is a 128-bit integer; it stays below \<open>2^127\<close> for any slice in memory.
\<close>

function sum_blocks ::
  "(64 word \<Rightarrow> 64 word) \<Rightarrow> (64 word \<Rightarrow> int) \<Rightarrow> nat \<Rightarrow> run_validity \<Rightarrow> nat \<Rightarrow> 64 word list \<Rightarrow>
   64 word list \<Rightarrow> 64 word list \<Rightarrow> int \<Rightarrow> nat \<Rightarrow> int panics" where
  "sum_blocks shift conv width rv start values low high acc blocks =
     (if width = 0 then panic
      else if values = [] then Some (acc + reduce_halves conv low high)
      else do {
        present \<leftarrow> mask_lanes rv start (take width values);
        let lanes = present @ replicate (width - length present) 0;
        let low' = map2 (\<lambda>a v. a + (v AND 4294967295)) low lanes;
        let high' = map2 (\<lambda>a v. a + shift v) high lanes;
        if blocks + 1 = 2 ^ 20
        then sum_blocks shift conv width rv (start + width) (drop width values)
               (replicate width 0) (replicate width 0) (acc + reduce_halves conv low' high') 0
        else sum_blocks shift conv width rv (start + width) (drop width values) low' high' acc (blocks + 1)
      })"
  by pat_completeness auto
termination
  by (relation "measure (\<lambda>(shift, conv, width, rv, start, values, low, high, acc, blocks). length values)") auto

declare sum_blocks.simps [simp del]

definition sum_lanes ::
  "(64 word \<Rightarrow> 64 word) \<Rightarrow> (64 word \<Rightarrow> int) \<Rightarrow> nat \<Rightarrow> 64 word list \<Rightarrow> run_validity \<Rightarrow> (nat \<times> int) panics" where
  "sum_lanes shift conv width values rv = do {
     total \<leftarrow> sum_blocks shift conv width rv 0 values (replicate width 0) (replicate width 0) 0 0;
     count \<leftarrow> rv_count rv (length values);
     Some (count, total)
   }"

definition sum_i64 :: "nat \<Rightarrow> 64 word list \<Rightarrow> run_validity \<Rightarrow> (nat \<times> int) panics" where
  "sum_i64 = sum_lanes (signed_drop_bit 32) sint"

definition sum_u64 :: "nat \<Rightarrow> 64 word list \<Rightarrow> run_validity \<Rightarrow> (nat \<times> int) panics" where
  "sum_u64 = sum_lanes (drop_bit 32) uint"

text \<open>\<open>lt\<close> is the \<open>PartialOrd\<close> of the values; \<open>value > current\<close> is \<open>lt\<close> the other way round.\<close>

fun min_max_loop ::
  "('a \<Rightarrow> 'a \<Rightarrow> bool) \<Rightarrow> run_validity \<Rightarrow> nat \<Rightarrow> 'a list \<Rightarrow> (nat \<times> 'a) option \<Rightarrow> (nat \<times> 'a) option \<Rightarrow>
   ((nat \<times> 'a) option \<times> (nat \<times> 'a) option) panics" where
  "min_max_loop lt rv i [] smallest largest = Some (smallest, largest)"
| "min_max_loop lt rv i (v # vs) smallest largest = do {
     valid \<leftarrow> rv_contains rv i;
     if \<not> valid then min_max_loop lt rv (Suc i) vs smallest largest
     else min_max_loop lt rv (Suc i) vs
       (case smallest of Some (_, current) \<Rightarrow> if lt v current then Some (i, v) else smallest | None \<Rightarrow> Some (i, v))
       (case largest of Some (_, current) \<Rightarrow> if lt current v then Some (i, v) else largest | None \<Rightarrow> Some (i, v))
   }"

definition min_max :: "('a \<Rightarrow> 'a \<Rightarrow> bool) \<Rightarrow> 'a list \<Rightarrow> run_validity \<Rightarrow> ((nat \<times> 'a) \<times> nat \<times> 'a) option panics" where
  "min_max lt values rv = do {
     (smallest, largest) \<leftarrow> min_max_loop lt rv 0 values None None;
     Some (case (smallest, largest) of (Some s, Some l) \<Rightarrow> Some (s, l) | _ \<Rightarrow> None)
   }"

section \<open>What the bitmap holds\<close>

definition bitmap :: "byte list \<Rightarrow> nat \<Rightarrow> bool" where
  "bitmap bits p = (p div 8 < length bits \<and> bit (bits ! (p div 8)) (p mod 8))"

definition present :: "run_validity \<Rightarrow> nat \<Rightarrow> bool" where
  "present rv i = (case rv_bits rv of None \<Rightarrow> True | Some bits \<Rightarrow> bitmap bits (rv_offset rv + i))"

text \<open>The bitmap covers a run of the given length.\<close>

definition covers :: "run_validity \<Rightarrow> nat \<Rightarrow> bool" where
  "covers rv len = (case rv_bits rv of None \<Rightarrow> True | Some bits \<Rightarrow> rv_offset rv + len \<le> 8 * length bits)"

lemma rv_contains_ok:
  assumes "covers rv len" and "i < len"
  shows "rv_contains rv i = Some (present rv i)"
proof (cases "rv_bits rv")
  case (Some bits)
  then have "(rv_offset rv + i) div 8 < length bits" using assms by (simp add: covers_def less_mult_imp_div_less mult.commute)
  then show ?thesis
    using Some by (simp add: rv_contains_def present_def bitmap_def elem_at_def Let_def bit_iff_and_push_bit_not_eq_0)
qed (simp add: rv_contains_def present_def)

lemma byte_bit: "bit (b :: byte) n \<Longrightarrow> n < 8"
  using bit_imp_le_length [of b n] by simp

lemma bit_push_byte:
  assumes "n < 64"
  shows "bit (push_bit (i * 8) (ucast b) :: 64 word) n \<longleftrightarrow> n div 8 = i \<and> bit (b :: byte) (n mod 8)"
proof -
  have "bit (push_bit (i * 8) (ucast b) :: 64 word) n \<longleftrightarrow> i * 8 \<le> n \<and> bit b (n - i * 8)"
    using assms by (auto simp: bit_simps)
  also have "\<dots> \<longleftrightarrow> n div 8 = i \<and> bit b (n mod 8)"
  proof
    assume l: "i * 8 \<le> n \<and> bit b (n - i * 8)"
    then obtain r where r: "n = i * 8 + r" by (auto dest: le_Suc_ex)
    then have "bit b r" "r < 8" using l byte_bit by auto
    then show "n div 8 = i \<and> bit b (n mod 8)" using r by simp
  next
    assume r: "n div 8 = i \<and> bit b (n mod 8)"
    moreover have "n = n div 8 * 8 + n mod 8" by simp
    ultimately show "i * 8 \<le> n \<and> bit b (n - i * 8)" by (metis diff_add_inverse le_add1)
  qed
  finally show ?thesis .
qed

lemma bit_lower_bytes:
  "n < 64 \<Longrightarrow> bit (lower_bytes i bs) n \<longleftrightarrow>
     i \<le> n div 8 \<and> n div 8 - i < length bs \<and> bit (bs ! (n div 8 - i)) (n mod 8)"
proof (induction bs arbitrary: i)
  case (Cons b bs)
  consider "n div 8 = i" | "n div 8 < i" | "Suc i \<le> n div 8" by linarith
  then show ?case
  proof cases
    case 3
    then have "n div 8 - i = Suc (n div 8 - Suc i)" by simp
    then show ?thesis using Cons bit_push_byte [of n i b] 3 by (simp add: bit_or_iff)
  qed (use Cons bit_push_byte [of n i b] in \<open>auto simp: bit_or_iff\<close>)
qed simp

text \<open>Reading a word of the bitmap, whatever the alignment of its first bit.\<close>

lemma bit_low_mask: "len < 64 \<Longrightarrow> bit (push_bit len 1 - 1 :: 64 word) n \<longleftrightarrow> n < len"
  by (auto simp: mask_eq_exp_minus_1 [symmetric] bit_mask_iff)

lemma bit_lower:
  assumes "n < 64"
  shows "bit (lower_bytes 0 (take 8 (drop q bits))) n \<longleftrightarrow> bitmap bits (8 * q + n)"
proof -
  have d: "n div 8 < 8" using assms by simp
  have eq: "(8 * q + n) div 8 = q + n div 8" "(8 * q + n) mod 8 = n mod 8" by simp_all
  show ?thesis
  proof (cases "q + n div 8 < length bits")
    case True
    then have "n div 8 < length bits - q" by linarith
    then show ?thesis using True d bit_lower_bytes [OF assms, of 0] by (simp add: bitmap_def eq)
  next
    case False
    then show ?thesis using bit_lower_bytes [OF assms, of 0 "take 8 (drop q bits)"] by (simp add: bitmap_def eq) linarith
  qed
qed

lemma bit_joined:
  fixes bits :: "byte list" and q :: nat
  assumes n: "n < 64" and r: "r < 8"
  defines "shifted \<equiv> drop_bit r (lower_bytes 0 (take 8 (drop q bits)))"
  shows "bit (if r \<noteq> 0 \<and> q + 8 < length bits then shifted OR push_bit (64 - r) (ucast (bits ! (q + 8))) else shifted) n \<longleftrightarrow>
    bitmap bits (8 * q + r + n)"
proof (cases "r + n < 64")
  case True
  have "\<not> 64 - r \<le> n" using True by linarith
  then have "\<not> bit (push_bit (64 - r) (ucast (bits ! (q + 8))) :: 64 word) n" by (simp add: bit_push_bit_iff)
  moreover have "bit shifted n \<longleftrightarrow> bitmap bits (8 * q + r + n)"
    unfolding shifted_def using bit_lower [OF True, of q bits] by (simp add: bit_drop_bit_eq add.assoc)
  ultimately show ?thesis by (simp add: bit_or_iff)
next
  case False
  then obtain d where d: "r + n = 64 + d" using le_Suc_ex by (metis not_less)
  have "d < 8" "r \<noteq> 0" using d r n by linarith+
  have pos: "8 * q + r + n = 8 * (q + 8) + d" using d by simp
  have "(8 * (q + 8) + d) div 8 = q + 8" "(8 * (q + 8) + d) mod 8 = d"
    using \<open>d < 8\<close> by (simp_all only: div_mult_self4 mod_mult_self4 div_less mod_less)
  then have "bitmap bits (8 * q + r + n) \<longleftrightarrow> q + 8 < length bits \<and> bit (bits ! (q + 8)) d"
    unfolding pos by (simp only: bitmap_def)
  moreover have "\<not> bit shifted n"
    unfolding shifted_def using False bit_imp_le_length by (fastforce simp: bit_drop_bit_eq)
  moreover have "n - (64 - r) = d" using d r by linarith
  ultimately show ?thesis
    using \<open>r \<noteq> 0\<close> n d r by (auto simp: bit_or_iff bit_push_bit_iff bit_ucast_iff)
qed

lemma bitmap_word_ok:
  assumes "start div 8 \<le> length bits" and "len \<le> 64"
  shows "\<exists>w. bitmap_word bits start len = Some w \<and> (\<forall>n < 64. bit w n \<longleftrightarrow> n < len \<and> bitmap bits (start + n))"
proof -
  define q where "q = start div 8"
  define r where "r = start mod 8"
  have r: "r < 8" and start: "start = 8 * q + r" by (simp_all add: q_def r_def)
  define joined where "joined = (let shifted = drop_bit r (lower_bytes 0 (take 8 (drop q bits))) in
    if r \<noteq> 0 \<and> q + 8 < length bits then shifted OR push_bit (64 - r) (ucast (bits ! (q + 8))) else shifted)"
  have joined: "bit joined n \<longleftrightarrow> bitmap bits (start + n)" if "n < 64" for n
    using bit_joined [OF that r, of q bits] unfolding joined_def Let_def start by simp
  have "bitmap_word bits start len = Some (if len < 64 then joined AND (push_bit len 1 - 1) else joined)"
    using assms(1) unfolding bitmap_word_def joined_def Let_def q_def r_def by simp
  moreover have "bit (if len < 64 then joined AND (push_bit len 1 - 1) else joined) n \<longleftrightarrow> n < len \<and> bitmap bits (start + n)"
    if "n < 64" for n
  proof (cases "len < 64")
    case True
    then show ?thesis using joined [OF that] bit_low_mask [OF True, of n] by (simp only: bit_and_iff if_True) blast
  next
    case False
    then show ?thesis using joined [OF that] assms(2) that by simp
  qed
  ultimately show ?thesis by blast
qed

lemma rv_word_bits:
  assumes "covers rv len" and "start \<le> len" and "width \<le> 64"
  shows "\<exists>w. rv_word rv start width = Some w \<and> (\<forall>n < 64. bit w n \<longleftrightarrow> n < width \<and> present rv (start + n))"
proof (cases "rv_bits rv")
  case None
  then show ?thesis using assms(3) bit_low_mask [of width] by (cases "width = 64") (auto simp: rv_word_def present_def)
next
  case (Some bits)
  have "(rv_offset rv + start) div 8 \<le> length bits"
    using assms(1,2) Some by (simp add: covers_def div_le_mono [of _ "8 * length bits" 8, simplified])
  then show ?thesis
    using bitmap_word_ok [of "rv_offset rv + start" bits width] Some assms(3)
    by (simp add: rv_word_def present_def add.assoc)
qed

lemma rv_word_ok:
  assumes "covers rv len" and "start < len"
  defines "width \<equiv> min (len - start) 64"
  shows "\<exists>w. rv_word rv start width = Some w \<and> (\<forall>n < 64. bit w n \<longleftrightarrow> n < width \<and> present rv (start + n))"
  using rv_word_bits [OF assms(1), of start width] assms(2) by (simp add: width_def)

lemma count_ones_ok:
  assumes "\<forall>n < 64. bit w n \<longleftrightarrow> n < width \<and> P n" and "width \<le> 64"
  shows "count_ones w = length (filter P [0..<width])"
proof -
  have split: "[0..<64] = [0..<width] @ [width..<64]" using assms(2) upt_add_eq_append [of 0 width "64 - width"] by simp
  have "filter (bit w) [0..<width] = filter P [0..<width]" using assms by (intro filter_cong) auto
  moreover have "filter (bit w) [width..<64] = []" using assms(1) by (auto simp: filter_empty_conv)
  ultimately show ?thesis by (simp add: count_ones_def split)
qed

lemma div_ceil_step: "0 < n \<Longrightarrow> div_ceil n 64 = Suc (div_ceil (n - 64) 64)"
  by (cases "n < 64") (auto simp: div_ceil_def le_div_geq le_mod_geq)

lemma filter_upt_shift: "length (filter P [s..<s + n]) = length (filter (\<lambda>i. P (s + i)) [0..<n])"
proof -
  have "[s..<s + n] = map (\<lambda>i. i + s) [0..<n]" using map_add_upt [of s n] by (simp add: add.commute)
  then show ?thesis by (simp add: filter_map comp_def add.commute)
qed

lemma filter_upt_chunk:
  assumes "start < len"
  shows "length (filter P [start..<len]) =
    length (filter (\<lambda>i. P (start + i)) [0..<min (len - start) 64]) + length (filter P [start + 64..<len])"
proof (cases "len - start < 64")
  case True
  then show ?thesis using assms filter_upt_shift [of P start "len - start"] by simp
next
  case False
  then have "[start..<len] = [start..<start + 64] @ [start + 64..<len]"
    using upt_add_eq_append [of start "start + 64" "len - (start + 64)"] by simp
  then show ?thesis using False filter_upt_shift [of P start 64] by simp
qed

lemma count_words_ok:
  assumes "covers rv len"
  shows "count_words rv len (div_ceil (len - start) 64) start = Some (length (filter (present rv) [start..<len]))"
proof (induction "div_ceil (len - start) 64" arbitrary: start)
  case 0
  then have "len \<le> start" using div_ceil_step [of "len - start"] by (metis diff_is_0_eq neq0_conv nat.distinct(1))
  then show ?case by (simp add: div_ceil_def)
next
  case (Suc steps)
  then have start: "start < len" by (cases "start < len") (auto simp: div_ceil_def)
  then have steps: "steps = div_ceil (len - (start + 64)) 64" using Suc(2) div_ceil_step [of "len - start"] by simp
  obtain w where w: "rv_word rv start (min (len - start) 64) = Some w"
    "\<forall>n < 64. bit w n \<longleftrightarrow> n < min (len - start) 64 \<and> present rv (start + n)"
    using rv_word_ok [OF assms start] by blast
  show ?case
    using Suc(1) [OF steps] w(1) count_ones_ok [OF w(2)] filter_upt_chunk [OF start, of "present rv"]
    by (simp add: Suc(2) [symmetric] steps [symmetric])
qed

lemma rv_count_ok: "covers rv len \<Longrightarrow> rv_count rv len = Some (length (filter (present rv) [0..<len]))"
  using count_words_ok [of rv len 0] by (auto simp: rv_count_def present_def)

lemma count_boolean_words_ok:
  assumes "covers rv len" and "values_offset + len \<le> 8 * length values"
  shows "count_boolean_words values values_offset rv len (div_ceil (len - start) 64) start =
    Some (length (filter (\<lambda>i. present rv i \<and> bitmap values (values_offset + i)) [start..<len]),
          length (filter (\<lambda>i. present rv i \<and> \<not> bitmap values (values_offset + i)) [start..<len]))"
proof (induction "div_ceil (len - start) 64" arbitrary: start)
  case 0
  then have "len \<le> start" using div_ceil_step [of "len - start"] by (metis diff_is_0_eq neq0_conv nat.distinct(1))
  then show ?case by (simp add: div_ceil_def)
next
  case (Suc steps)
  then have start: "start < len" by (cases "start < len") (auto simp: div_ceil_def)
  then have steps: "steps = div_ceil (len - (start + 64)) 64" using Suc(2) div_ceil_step [of "len - start"] by simp
  let ?width = "min (len - start) 64"
  let ?true = "\<lambda>i. present rv i \<and> bitmap values (values_offset + i)"
  let ?false = "\<lambda>i. present rv i \<and> \<not> bitmap values (values_offset + i)"
  obtain p where p: "rv_word rv start ?width = Some p" "\<forall>n < 64. bit p n \<longleftrightarrow> n < ?width \<and> present rv (start + n)"
    using rv_word_ok [OF assms(1) start] by blast
  have "(values_offset + start) div 8 \<le> length values"
    using assms(2) start div_le_mono [of "values_offset + start" "8 * length values" 8] by simp
  then obtain w where w: "bitmap_word values (values_offset + start) ?width = Some w"
    "\<forall>n < 64. bit w n \<longleftrightarrow> n < ?width \<and> bitmap values (values_offset + start + n)"
    using bitmap_word_ok [of "values_offset + start" "values" ?width] by auto
  have "\<forall>n < 64. bit (w AND p) n \<longleftrightarrow> n < ?width \<and> ?true (start + n)"
    using p(2) w(2) by (auto simp: bit_and_iff add.assoc)
  moreover have "\<forall>n < 64. bit (p AND NOT (w AND p)) n \<longleftrightarrow> n < ?width \<and> ?false (start + n)"
    using p(2) w(2) by (auto simp: bit_and_iff bit_or_iff bit_not_iff add.assoc)
  ultimately have "count_ones (w AND p) = length (filter (\<lambda>n. ?true (start + n)) [0..<?width])"
    "count_ones (p AND NOT (w AND p)) = length (filter (\<lambda>n. ?false (start + n)) [0..<?width])"
    by (simp_all add: count_ones_ok)
  then show ?case
    using Suc(1) [OF steps] p(1) w(1) filter_upt_chunk [OF start, of ?true] filter_upt_chunk [OF start, of ?false]
    by (simp add: Suc(2) [symmetric] steps [symmetric] Let_def)
qed

section \<open>The lane sums\<close>

text \<open>
  What the lane loop relies on: the two halves of a lane, read as integers, give the lane back, and an
  accumulated half is read back exactly as long as it stays within \<open>2^52\<close>. \<open>least\<close> is the smallest
  value of a high half.
\<close>

locale lane_halves =
  fixes shift :: "64 word \<Rightarrow> 64 word" and conv :: "64 word \<Rightarrow> int" and least :: int
  assumes low_half: "v AND 4294967295 = word_of_int (conv v mod 2 ^ 32)"
    and high_half: "shift v = word_of_int (conv v div 2 ^ 32)"
    and high_least: "least \<le> conv v div 2 ^ 32"
    and high_most: "conv v div 2 ^ 32 \<le> 2 ^ 32"
    and read_back: "2 ^ 20 * least \<le> x \<Longrightarrow> x \<le> 2 ^ 52 \<Longrightarrow> conv (word_of_int x) = x"
    and least_nonpos: "least \<le> 0"

lemma mask32: "(v :: 64 word) AND 4294967295 = word_of_int (uint v mod 2 ^ 32)"
proof -
  have "(v :: 64 word) AND 4294967295 = take_bit 32 v"
    by (simp add: take_bit_eq_mask mask_eq_exp_minus_1)
  moreover have "take_bit 32 v = word_of_int (take_bit 32 (uint v))"
    by (auto intro!: bit_word_eqI simp: bit_simps)
  ultimately show ?thesis by (simp only: take_bit_eq_mod)
qed

lemma mask32_signed: "(v :: 64 word) AND 4294967295 = word_of_int (sint v mod 2 ^ 32)"
proof -
  have "take_bit 32 (sint v) = take_bit 32 (uint v)"
    by (rule bit_eqI) (auto simp: min_def bit_simps sint_uint bit_signed_take_bit_iff)
  then show ?thesis by (simp only: mask32 take_bit_eq_mod)
qed

lemma word_of_int_sint: "word_of_int (sint w) = (w :: 64 word)"
  by (simp only: of_int_sint scast_id)

interpretation signed: lane_halves "signed_drop_bit 32" sint "- (2 ^ 31)"
proof
  fix v :: "64 word" and x :: int
  show "v AND 4294967295 = word_of_int (sint v mod 2 ^ 32)" by (rule mask32_signed)
  show "signed_drop_bit 32 v = word_of_int (sint v div 2 ^ 32)"
    using word_of_int_sint [of "signed_drop_bit 32 v"] by (simp only: sint_signed_drop_bit_eq drop_bit_eq_div)
  show "- (2 ^ 31) \<le> sint v div 2 ^ 32" "sint v div 2 ^ 32 \<le> 2 ^ 32"
    using zdiv_mono1 [of "- (2 ^ 63)" "sint v" "2 ^ 32"] zdiv_mono1 [of "sint v" "2 ^ 63" "2 ^ 32"]
      sint_range_size [of v] by (simp_all add: word_size)
  show "sint (word_of_int x :: 64 word) = x" if "2 ^ 20 * - (2 ^ 31) \<le> x" "x \<le> 2 ^ 52"
    using that by (simp add: sint_sbintrunc' signed_take_bit_int_eq_self)
qed simp

interpretation unsigned: lane_halves "drop_bit 32" uint 0
proof
  fix v :: "64 word" and x :: int
  show "v AND 4294967295 = word_of_int (uint v mod 2 ^ 32)" by (rule mask32)
  have "uint (drop_bit 32 v) = drop_bit 32 (uint v)" by (rule bit_eqI) (auto simp: bit_simps dest: bit_imp_le_length)
  then show "drop_bit 32 v = word_of_int (uint v div 2 ^ 32)"
    using word_of_int_uint [of "drop_bit 32 v"] by (simp only: drop_bit_eq_div [where 'a = int])
  show "0 \<le> uint v div 2 ^ 32" "uint v div 2 ^ 32 \<le> 2 ^ 32"
    using zdiv_mono1 [of 0 "uint v" "2 ^ 32"] zdiv_mono1 [of "uint v" "2 ^ 64" "2 ^ 32"]
      uint_range_size [of v] by (simp_all add: word_size)
  show "uint (word_of_int x :: 64 word) = x" if "2 ^ 20 * 0 \<le> x" "x \<le> 2 ^ 52"
    using that by (simp add: uint_word_of_int_eq take_bit_int_eq_self)
qed simp

text \<open>The lanes hold, without wrap-around, halves that amount to \<open>s\<close> after some blocks.\<close>

definition accumulated :: "int \<Rightarrow> nat \<Rightarrow> nat \<Rightarrow> 64 word list \<Rightarrow> 64 word list \<Rightarrow> int \<Rightarrow> bool" where
  "accumulated least width blocks low high s \<longleftrightarrow>
     (\<exists>los his. low = map word_of_int los \<and> high = map word_of_int his \<and> length los = width \<and> length his = width \<and>
       (\<forall>x \<in> set los. 0 \<le> x \<and> x \<le> int blocks * 2 ^ 32) \<and>
       (\<forall>x \<in> set his. int blocks * least \<le> x \<and> x \<le> int blocks * 2 ^ 32) \<and>
       s = sum_list his * 2 ^ 32 + sum_list los)"

lemma map2_of_int:
  "length los = length vs \<Longrightarrow> (\<And>v. f v = word_of_int (g v)) \<Longrightarrow>
     map2 (\<lambda>a v. a + f v) (map word_of_int los) vs = map word_of_int (map2 (\<lambda>x v. x + g v) los vs)"
  for f :: "64 word \<Rightarrow> 64 word"
  by (induction los vs rule: list_induct2) auto

lemma sum_map2:
  "length los = length vs \<Longrightarrow> sum_list (map2 (\<lambda>x v. x + g v) los vs) = sum_list los + sum_list (map g vs)"
  for g :: "'a \<Rightarrow> int"
  by (induction los vs rule: list_induct2) auto

lemma bounds_map2:
  "length los = length vs \<Longrightarrow> (\<And>v. lo \<le> g v \<and> g v \<le> hi) \<Longrightarrow> \<forall>x \<in> set los. n * lo \<le> x \<and> x \<le> n * hi \<Longrightarrow>
     \<forall>x \<in> set (map2 (\<lambda>x v. x + g v) los vs). (n + 1) * lo \<le> x \<and> x \<le> (n + 1) * hi"
  for g :: "'a \<Rightarrow> int"
proof (induction los vs rule: list_induct2)
  case (Cons x los v vs)
  have "lo \<le> g v" "g v \<le> hi" using Cons.prems(1) by blast+
  moreover have "n * lo \<le> x" "x \<le> n * hi" using Cons.prems(2) by simp_all
  ultimately have "(n + 1) * lo \<le> x + g v" "x + g v \<le> (n + 1) * hi" by (simp_all add: algebra_simps)
  moreover have "\<forall>x \<in> set (map2 (\<lambda>x v. x + g v) los vs). (n + 1) * lo \<le> x \<and> x \<le> (n + 1) * hi"
    using Cons.IH Cons.prems by simp
  ultimately show ?case by simp
qed simp

text \<open>The sum of the present values, the reference for the lane loop.\<close>

fun present_sum :: "('a \<Rightarrow> int) \<Rightarrow> run_validity \<Rightarrow> nat \<Rightarrow> 'a list \<Rightarrow> int" where
  "present_sum into rv i [] = 0"
| "present_sum into rv i (v # vs) = (if present rv i then into v else 0) + present_sum into rv (Suc i) vs"

lemma present_sum_append:
  "present_sum into rv i (xs @ ys) = present_sum into rv i xs + present_sum into rv (i + length xs) ys"
  by (induction xs arbitrary: i) auto

lemma present_sum_chunk:
  "present_sum into rv i (take w vs) + present_sum into rv (i + w) (drop w vs) = present_sum into rv i vs"
proof (cases "w \<le> length vs")
  case True
  then show ?thesis using present_sum_append [of into rv i "take w vs" "drop w vs"] by (simp add: min_absorb2)
qed simp

lemma sum_integer_loop_ok:
  "covers rv len \<Longrightarrow> i + length vs \<le> len \<Longrightarrow> sum_integer_loop into rv i vs = Some (present_sum into rv i vs)"
  by (induction vs arbitrary: i) (auto simp: rv_contains_ok)

lemma mask_lanes_ok:
  "covers rv len \<Longrightarrow> i + length vs \<le> len \<Longrightarrow> conv 0 = 0 \<Longrightarrow>
     \<exists>lanes. mask_lanes rv i vs = Some lanes \<and> length lanes = length vs \<and> sum_list (map conv lanes) = present_sum conv rv i vs"
proof (induction vs arbitrary: i)
  case (Cons v vs)
  have "Suc i + length vs \<le> len" using Cons.prems(2) by simp
  then obtain lanes where "mask_lanes rv (Suc i) vs = Some lanes" "length lanes = length vs"
    "sum_list (map conv lanes) = present_sum conv rv (Suc i) vs"
    using Cons.IH [OF Cons.prems(1) _ Cons.prems(3)] by blast
  moreover have "rv_contains rv i = Some (present rv i)" using Cons.prems by (simp add: rv_contains_ok)
  ultimately show ?case using Cons.prems(3) by simp
qed simp

context lane_halves
begin

lemma accumulated_none: "accumulated least width 0 (replicate width 0) (replicate width 0) 0"
  unfolding accumulated_def
  by (intro exI [of _ "replicate width 0"]) (simp add: sum_list_replicate)

lemma conv_half:
  assumes "blocks \<le> 2 ^ 20" and "int blocks * least \<le> x" and "x \<le> int blocks * 2 ^ 32"
  shows "conv (word_of_int x) = x"
proof (rule read_back)
  have "2 ^ 20 * least \<le> int blocks * least" using assms(1) least_nonpos by (intro mult_right_mono_neg) auto
  then show "2 ^ 20 * least \<le> x" using assms(2) by linarith
  have "int blocks * 2 ^ 32 \<le> 2 ^ 20 * 2 ^ 32" using assms(1) by (intro mult_right_mono) auto
  then show "x \<le> 2 ^ 52" using assms(3) by simp
qed

lemma reduce_ints:
  assumes "length los = length his"
    and "\<forall>x \<in> set los. conv (word_of_int x) = x" and "\<forall>x \<in> set his. conv (word_of_int x) = x"
  shows "reduce_halves conv (map word_of_int los) (map word_of_int his) = sum_list his * 2 ^ 32 + sum_list los"
  using assms by (induction los his rule: list_induct2) (auto simp: reduce_halves_def algebra_simps)

lemma reduce_accumulated:
  assumes "accumulated least width blocks low high s" and "blocks \<le> 2 ^ 20"
  shows "reduce_halves conv low high = s"
proof -
  obtain los his where ints: "low = map word_of_int los" "high = map word_of_int his" "length los = length his"
    "\<forall>x \<in> set los. 0 \<le> x \<and> x \<le> int blocks * 2 ^ 32"
    "\<forall>x \<in> set his. int blocks * least \<le> x \<and> x \<le> int blocks * 2 ^ 32"
    "s = sum_list his * 2 ^ 32 + sum_list los"
    using assms(1) unfolding accumulated_def by auto
  have neg: "int blocks * least \<le> 0" using least_nonpos by (simp add: mult_nonneg_nonpos)
  show ?thesis unfolding ints(1,2,6)
  proof (rule reduce_ints [OF ints(3)])
    show "\<forall>x \<in> set los. conv (word_of_int x) = x"
      using ints(4) neg conv_half [OF assms(2)] by (meson order_trans)
    show "\<forall>x \<in> set his. conv (word_of_int x) = x" using ints(5) conv_half [OF assms(2)] by blast
  qed
qed

lemma sum_halves: "sum_list (map (\<lambda>v. conv v div 2 ^ 32) lanes) * 2 ^ 32 + sum_list (map (\<lambda>v. conv v mod 2 ^ 32) lanes) =
    sum_list (map conv lanes)"
  by (induction lanes) (auto simp: algebra_simps)

lemma accumulated_step:
  assumes "accumulated least width blocks low high s" and "length lanes = width"
  shows "accumulated least width (blocks + 1) (map2 (\<lambda>a v. a + (v AND 4294967295)) low lanes)
    (map2 (\<lambda>a v. a + shift v) high lanes) (s + sum_list (map conv lanes))"
proof -
  obtain los his where ints: "low = map word_of_int los" "high = map word_of_int his"
    "length los = length lanes" "length his = length lanes"
    "\<forall>x \<in> set los. int blocks * 0 \<le> x \<and> x \<le> int blocks * 2 ^ 32"
    "\<forall>x \<in> set his. int blocks * least \<le> x \<and> x \<le> int blocks * 2 ^ 32"
    "s = sum_list his * 2 ^ 32 + sum_list los"
    using assms unfolding accumulated_def by auto
  have lo: "0 \<le> conv v mod 2 ^ 32 \<and> conv v mod 2 ^ 32 \<le> 2 ^ 32" for v by (simp add: less_imp_le)
  have hi: "least \<le> conv v div 2 ^ 32 \<and> conv v div 2 ^ 32 \<le> 2 ^ 32" for v using high_least high_most by blast
  let ?los = "map2 (\<lambda>x v. x + conv v mod 2 ^ 32) los lanes"
  let ?his = "map2 (\<lambda>x v. x + conv v div 2 ^ 32) his lanes"
  have "map2 (\<lambda>a v. a + (v AND 4294967295)) low lanes = map word_of_int ?los"
    "map2 (\<lambda>a v. a + shift v) high lanes = map word_of_int ?his"
    unfolding ints(1,2) by (rule map2_of_int [OF ints(3) low_half], rule map2_of_int [OF ints(4) high_half])
  moreover note bounds_map2 [OF ints(3) lo ints(5)] bounds_map2 [OF ints(4) hi ints(6)]
  moreover have "s + sum_list (map conv lanes) = sum_list ?his * 2 ^ 32 + sum_list ?los"
    unfolding sum_map2 [OF ints(3)] sum_map2 [OF ints(4)] ints(7) sum_halves [symmetric] by (simp add: algebra_simps)
  ultimately show ?thesis
    unfolding accumulated_def using ints(3,4) assms(2)
    by (intro exI [of _ ?los] exI [of _ ?his]) (simp add: add.commute)
qed

lemma conv_zero: "conv 0 = 0"
  using read_back [of 0] least_nonpos by simp

lemma sum_blocks_ok:
  assumes "covers rv len" and "0 < width"
  shows "accumulated least width blocks low high s \<Longrightarrow> blocks < 2 ^ 20 \<Longrightarrow> vs = [] \<or> start + length vs \<le> len \<Longrightarrow>
    sum_blocks shift conv width rv start vs low high acc blocks = Some (acc + s + present_sum conv rv start vs)"
proof (induction "length vs" arbitrary: vs start low high acc blocks s rule: less_induct)
  case less
  show ?case
  proof (cases "vs = []")
    case True
    then show ?thesis
      using assms(2) less.prems(1,2) by (simp add: sum_blocks.simps reduce_accumulated)
  next
    case False
    then have "start + min width (length vs) \<le> len" using less.prems(3) by auto
    then obtain taken where taken: "mask_lanes rv start (take width vs) = Some taken" "length taken = min width (length vs)"
      "sum_list (map conv taken) = present_sum conv rv start (take width vs)"
      using mask_lanes_ok [of rv len start "take width vs" conv] assms(1) conv_zero by (auto simp: min.commute)
    let ?lanes = "taken @ replicate (width - length taken) 0"
    let ?low = "map2 (\<lambda>a v. a + (v AND 4294967295)) low ?lanes" and ?high = "map2 (\<lambda>a v. a + shift v) high ?lanes"
    have sum: "sum_list (map conv ?lanes) = present_sum conv rv start (take width vs)"
      using taken(3) by (simp add: conv_zero sum_list_replicate)
    have step: "accumulated least width (blocks + 1) ?low ?high (s + present_sum conv rv start (take width vs))"
      using accumulated_step [OF less.prems(1), of ?lanes] taken(2) unfolding sum by simp
    have shorter: "length (drop width vs) < length vs" using False assms(2) by simp
    have bound: "drop width vs = [] \<or> start + width + length (drop width vs) \<le> len" using less.prems(3) False by auto
    note chunk = present_sum_chunk [of conv rv start width vs]
    have unfold: "sum_blocks shift conv width rv start vs low high acc blocks =
       (if blocks + 1 = 2 ^ 20
        then sum_blocks shift conv width rv (start + width) (drop width vs)
               (replicate width 0) (replicate width 0) (acc + reduce_halves conv ?low ?high) 0
        else sum_blocks shift conv width rv (start + width) (drop width vs) ?low ?high acc (blocks + 1))"
      using False assms(2) taken(1) by (subst sum_blocks.simps) (simp add: Let_def)
    show ?thesis
    proof (cases "blocks + 1 = 2 ^ 20")
      case True
      then have "reduce_halves conv ?low ?high = s + present_sum conv rv start (take width vs)"
        using reduce_accumulated [OF step] by simp
      then show ?thesis
        using less.hyps [OF shorter accumulated_none _ bound] True chunk unfold by (simp add: algebra_simps)
    next
      case False
      then show ?thesis
        using less.hyps [OF shorter step _ bound] less.prems(2) chunk unfold by (simp add: algebra_simps)
    qed
  qed
qed

end

section \<open>Extremes of a run\<close>

definition first_best :: "('a \<Rightarrow> 'a \<Rightarrow> bool) \<Rightarrow> run_validity \<Rightarrow> 'a list \<Rightarrow> nat \<times> 'a \<Rightarrow> bool" where
  "first_best lt rv vs p \<longleftrightarrow>
     (case p of (i, v) \<Rightarrow> i < length vs \<and> present rv i \<and> v = vs ! i \<and>
       (\<forall>j < length vs. present rv j \<longrightarrow> \<not> lt (vs ! j) v) \<and> (\<forall>j < i. present rv j \<longrightarrow> lt v (vs ! j)))"

definition best_of :: "('a \<Rightarrow> 'a \<Rightarrow> bool) \<Rightarrow> run_validity \<Rightarrow> 'a list \<Rightarrow> (nat \<times> 'a) option \<Rightarrow> bool" where
  "best_of lt rv vs b \<longleftrightarrow>
     (case b of None \<Rightarrow> \<forall>j < length vs. \<not> present rv j | Some p \<Rightarrow> first_best lt rv vs p)"

definition better :: "('a \<Rightarrow> 'a \<Rightarrow> bool) \<Rightarrow> nat \<Rightarrow> 'a \<Rightarrow> (nat \<times> 'a) option \<Rightarrow> (nat \<times> 'a) option" where
  "better lt i v b = (case b of Some (_, current) \<Rightarrow> if lt v current then Some (i, v) else b | None \<Rightarrow> Some (i, v))"

lemma best_of_absent: "best_of lt rv vs b \<Longrightarrow> \<not> present rv (length vs) \<Longrightarrow> best_of lt rv (vs @ [v]) b"
  by (auto simp: best_of_def first_best_def nth_append less_Suc_eq split: option.splits)

lemma best_of_present:
  assumes "best_of lt rv vs b" and "present rv (length vs)"
    and trans: "\<And>a b c. lt a b \<Longrightarrow> \<not> lt c b \<Longrightarrow> lt a c" and asym: "\<And>a b. lt a b \<Longrightarrow> \<not> lt b a"
  shows "best_of lt rv (vs @ [v]) (better lt (length vs) v b)"
proof (cases b)
  case None
  then show ?thesis
    using assms(1,2) asym by (auto simp: best_of_def better_def first_best_def nth_append less_Suc_eq)
next
  case (Some p)
  obtain i c where p: "p = (i, c)" by (cases p)
  have best: "i < length vs" "present rv i" "c = vs ! i" "\<And>j. j < length vs \<Longrightarrow> present rv j \<Longrightarrow> \<not> lt (vs ! j) c"
    "\<And>j. j < i \<Longrightarrow> present rv j \<Longrightarrow> lt c (vs ! j)"
    using assms(1) Some p by (auto simp: best_of_def first_best_def)
  show ?thesis
  proof (cases "lt v c")
    case True
    have "lt v (vs ! j)" if "j < length vs" "present rv j" for j by (rule trans [OF True best(4) [OF that]])
    moreover note asym [OF this]
    ultimately show ?thesis
      using True Some p assms(2) asym [of v v] by (auto simp: best_of_def better_def first_best_def nth_append less_Suc_eq)
  next
    case False
    then show ?thesis
      using Some p best by (auto simp: best_of_def better_def first_best_def nth_append less_Suc_eq)
  qed
qed

lemma min_max_loop_ok:
  "covers rv len \<Longrightarrow> length pre + length vs \<le> len \<Longrightarrow> best_of (<) rv pre s \<Longrightarrow> best_of (>) rv pre l \<Longrightarrow>
     \<exists>s' l'. min_max_loop (<) rv (length pre) vs s l = Some (s', l') \<and>
       best_of (<) rv (pre @ vs) s' \<and> best_of (>) rv (pre @ vs) l'"
  for pre :: "'a::linorder list"
proof (induction vs arbitrary: pre s l)
  case (Cons v vs)
  have contains: "rv_contains rv (length pre) = Some (present rv (length pre))"
    using Cons.prems(1,2) by (simp add: rv_contains_ok)
  have len: "length (pre @ [v]) + length vs \<le> len" using Cons.prems(2) by simp
  show ?case
  proof (cases "present rv (length pre)")
    case True
    have "best_of (<) rv (pre @ [v]) (better (<) (length pre) v s)"
      using Cons.prems(3) True by (rule best_of_present) auto
    moreover have "best_of (>) rv (pre @ [v]) (better (>) (length pre) v l)"
      using Cons.prems(4) True by (rule best_of_present) auto
    ultimately show ?thesis
      using Cons.IH [OF Cons.prems(1) len] contains True by (simp add: better_def)
  next
    case False
    then show ?thesis
      using Cons.IH [OF Cons.prems(1) len best_of_absent [OF Cons.prems(3)] best_of_absent [OF Cons.prems(4)]] contains
      by simp
  qed
qed simp

lemma filter_upt_card: "length (filter P [0..<n]) = card {i. i < n \<and> P i}"
  by (simp add: length_filter_conv_card cong: conj_cong)

lemma count_booleans_ok:
  assumes "covers rv len" and "values_offset + len \<le> 8 * length values"
  shows "count_booleans values values_offset rv len =
    Some (length (filter (\<lambda>i. present rv i \<and> bitmap values (values_offset + i)) [0..<len]),
          length (filter (\<lambda>i. present rv i \<and> \<not> bitmap values (values_offset + i)) [0..<len]))"
  using count_boolean_words_ok [OF assms, of 0] by (simp add: count_booleans_def)

lemma sum_i64_ok:
  assumes "covers rv (length values)" and "0 < width"
  shows "sum_i64 width values rv = Some (length (filter (present rv) [0..<length values]), present_sum sint rv 0 values)"
  using signed.sum_blocks_ok [OF assms signed.accumulated_none, where vs = "values" and start = 0]
  by (simp add: sum_i64_def sum_lanes_def rv_count_ok [OF assms(1)])

lemma sum_u64_ok:
  assumes "covers rv (length values)" and "0 < width"
  shows "sum_u64 width values rv = Some (length (filter (present rv) [0..<length values]), present_sum uint rv 0 values)"
  using unsigned.sum_blocks_ok [OF assms unsigned.accumulated_none, where vs = "values" and start = 0]
  by (simp add: sum_u64_def sum_lanes_def rv_count_ok [OF assms(1)])

lemma sum_integer_ok:
  assumes "covers rv (length values)"
  shows "sum_integer into values rv = Some (length (filter (present rv) [0..<length values]), present_sum into rv 0 values)"
  by (simp add: sum_integer_def sum_integer_loop_ok [OF assms] rv_count_ok [OF assms])

section \<open>Properties\<close>

text \<open>
  The word-at-a-time count of a boolean run returns without a panic, and counts exactly the present
  rows whose bit is set and the present rows whose bit is clear, whatever the bit offsets of the value
  bitmap and of the validity bitmap.
\<close>

lemma count_booleans_exact:
  assumes "covers rv len" and "values_offset + len \<le> 8 * length values"
  shows "count_booleans values values_offset rv len =
    Some (card {i. i < len \<and> present rv i \<and> bitmap values (values_offset + i)},
          card {i. i < len \<and> present rv i \<and> \<not> bitmap values (values_offset + i)})"
  using count_booleans_ok [OF assms] by (simp add: filter_upt_card)

text \<open>
  C16: for every lane width, the vectorised sums of signed and of unsigned 64-bit values return without a
  panic, and give the exact sum of the present values, the sum the scalar fold computes: no half-lane wraps
  before it is reduced.
\<close>

theorem lane_sums_exact:
  assumes "covers rv (length values)" and "0 < width"
  shows "sum_i64 width values rv = sum_integer sint values rv \<and>
    sum_u64 width values rv = sum_integer uint values rv \<and>
    sum_integer sint values rv = Some (card {i. i < length values \<and> present rv i}, present_sum sint rv 0 values) \<and>
    sum_integer uint values rv = Some (card {i. i < length values \<and> present rv i}, present_sum uint rv 0 values)"
  using assms by (simp add: sum_i64_ok sum_u64_ok sum_integer_ok filter_upt_card)

theorem lane_sums_exact_witness:
  "sum_i64 2 [5, - 7, 9] \<lparr>rv_bits = Some [6], rv_offset = 0\<rparr> =
     sum_integer sint [5, - 7, 9 :: 64 word] \<lparr>rv_bits = Some [6], rv_offset = 0\<rparr> \<and>
   sum_integer sint [5, - 7, 9 :: 64 word] \<lparr>rv_bits = Some [6], rv_offset = 0\<rparr> = Some (2, 2)"
proof
  show "sum_i64 2 [5, - 7, 9] \<lparr>rv_bits = Some [6], rv_offset = 0\<rparr> =
     sum_integer sint [5, - 7, 9 :: 64 word] \<lparr>rv_bits = Some [6], rv_offset = 0\<rparr>"
    by (rule lane_sums_exact [THEN conjunct1]) (simp_all add: covers_def)
  show "sum_integer sint [5, - 7, 9 :: 64 word] \<lparr>rv_bits = Some [6], rv_offset = 0\<rparr> = Some (2, 2)"
    by code_simp
qed

text \<open>
  The scan for extremes of a totally ordered run returns without a panic. It gives nothing exactly when
  no row is present, and otherwise the earliest row with the least present value and the earliest row with
  the greatest present value.
\<close>

lemma min_max_earliest:
  fixes "values" :: "'a::linorder list"
  assumes "covers rv (length values)"
  shows "\<exists>r. min_max (<) values rv = Some r \<and>
    (case r of None \<Rightarrow> \<forall>i < length values. \<not> present rv i
     | Some (s, l) \<Rightarrow> first_best (<) rv values s \<and> first_best (>) rv values l)"
proof -
  have none: "best_of lt rv [] None" for lt :: "'a \<Rightarrow> 'a \<Rightarrow> bool" by (simp add: best_of_def)
  obtain s l where loop: "min_max_loop (<) rv 0 values None None = Some (s, l)"
    and best: "best_of (<) rv values s" "best_of (>) rv values l"
    using min_max_loop_ok [OF assms, of "[]" "values", OF _ none none] by auto
  then show ?thesis
    by (auto simp: min_max_def best_of_def first_best_def split: option.splits)
qed

end
