(* ===== verification/Finite_Mask.thy ===== *)
theory Finite_Mask
  imports Window_Kernels
begin

text \<open>
  The classification of non-finite floating-point values (crates/simd-kernels/src/window.rs):
  \<open>non_finite_f64\<close>, \<open>non_finite_f32\<close> and \<open>mark_bits\<close>. A float is its IEEE bit pattern, with \<open>m\<close> mantissa
  bits and \<open>e\<close> exponent bits; the comparison with the greatest finite value and the exponent test are read
  off the pattern. The lane loop is proved equal to the scalar classification.
\<close>

unbundle bit_operations_syntax

section \<open>Floats as bit patterns\<close>

definition float_abs :: "nat \<Rightarrow> nat \<Rightarrow> 'w::len word \<Rightarrow> 'w word" where
  "float_abs m e x = take_bit (m + e) x"

definition float_exponent :: "nat \<Rightarrow> nat \<Rightarrow> 'w::len word \<Rightarrow> nat" where
  "float_exponent m e x = unat x div 2 ^ m mod 2 ^ e"

definition is_finite :: "nat \<Rightarrow> nat \<Rightarrow> 'w::len word \<Rightarrow> bool" where
  "is_finite m e x \<longleftrightarrow> float_exponent m e x \<noteq> 2 ^ e - 1"

definition is_nan :: "nat \<Rightarrow> nat \<Rightarrow> 'w::len word \<Rightarrow> bool" where
  "is_nan m e x \<longleftrightarrow> float_exponent m e x = 2 ^ e - 1 \<and> unat x mod 2 ^ m \<noteq> 0"

definition float_max :: "nat \<Rightarrow> nat \<Rightarrow> 'w::len word" where
  "float_max m e = of_nat ((2 ^ e - 1) * 2 ^ m - 1)"

text \<open>Less-or-equal on floats without a sign bit.\<close>

definition float_le :: "nat \<Rightarrow> nat \<Rightarrow> 'w::len word \<Rightarrow> 'w word \<Rightarrow> bool" where
  "float_le m e x y \<longleftrightarrow> \<not> is_nan m e x \<and> \<not> is_nan m e y \<and> x \<le> y"

section \<open>Marking bits\<close>

definition mask_trailing_zeros :: "64 word \<Rightarrow> nat" where
  "mask_trailing_zeros w = length (takeWhile (\<lambda>n. \<not> bit w n) [0..<64])"

lemma lowest_bit_smaller: "(w :: 64 word) \<noteq> 0 \<Longrightarrow> unat (w AND (w - 1)) < unat w"
  using measure_unat [of w] word_and_le1 [of w "w - 1"] word_and_le2 [of "w - 1" w] by (simp add: word_le_nat_alt and.commute)

function mark_bits :: "byte list \<Rightarrow> nat \<Rightarrow> 64 word \<Rightarrow> byte list panics" where
  "mark_bits bits start marks =
     (if marks = 0 then Some bits
      else do {
        let position = start + mask_trailing_zeros marks;
        b \<leftarrow> elem_at bits (position div 8);
        mark_bits (bits[position div 8 := b OR push_bit (position mod 8) 1]) start (marks AND (marks - 1))
      })"
  by pat_completeness auto
termination
  by (relation "measure (\<lambda>(bits, start, marks). unat marks)") (simp_all add: lowest_bit_smaller)

declare mark_bits.simps [simp del]

section \<open>The lane loop and the scalar loop\<close>

fun bitmask :: "nat \<Rightarrow> bool list \<Rightarrow> 64 word" where
  "bitmask i [] = 0"
| "bitmask i (b # bs) = (if b then push_bit i 1 else 0) OR bitmask (Suc i) bs"

function non_finite_chunks ::
  "('f \<Rightarrow> bool) \<Rightarrow> nat \<Rightarrow> 'f list \<Rightarrow> run_validity \<Rightarrow> byte list \<Rightarrow> nat \<Rightarrow> (byte list \<times> nat) panics" where
  "non_finite_chunks below width values rv bits start =
     (if width = 0 \<or> length values < start + width then Some (bits, start)
      else do {
        let lanes = take width (drop start values);
        word \<leftarrow> rv_word rv start width;
        let non_finite = NOT (bitmask 0 (map below lanes)) AND word;
        bits' \<leftarrow> mark_bits bits start non_finite;
        non_finite_chunks below width values rv bits' (start + width)
      })"
  by pat_completeness auto
termination
  by (relation "measure (\<lambda>(below, width, values, rv, bits, start). length values - start)") auto

declare non_finite_chunks.simps [simp del]

fun non_finite_rest :: "('f \<Rightarrow> bool) \<Rightarrow> run_validity \<Rightarrow> nat \<Rightarrow> 'f list \<Rightarrow> byte list \<Rightarrow> byte list panics" where
  "non_finite_rest fin rv i [] bits = Some bits"
| "non_finite_rest fin rv i (v # vs) bits = do {
     valid \<leftarrow> rv_contains rv i;
     bits' \<leftarrow> (if valid \<and> \<not> fin v then mark_bits bits i 1 else Some bits);
     non_finite_rest fin rv (Suc i) vs bits'
   }"

definition non_finite_lanes ::
  "('f \<Rightarrow> bool) \<Rightarrow> ('f \<Rightarrow> bool) \<Rightarrow> nat \<Rightarrow> 'f list \<Rightarrow> run_validity \<Rightarrow> byte list panics" where
  "non_finite_lanes below fin width values rv = do {
     (bits, start) \<leftarrow> non_finite_chunks below width values rv (replicate (div_ceil (length values) 8) 0) 0;
     non_finite_rest fin rv start (drop start values) bits
   }"

definition non_finite_f64 :: "nat \<Rightarrow> 64 word list \<Rightarrow> run_validity \<Rightarrow> byte list panics" where
  "non_finite_f64 = non_finite_lanes (\<lambda>x. float_le 52 11 (float_abs 52 11 x) (float_max 52 11)) (is_finite 52 11)"

definition non_finite_f32 :: "nat \<Rightarrow> 32 word list \<Rightarrow> run_validity \<Rightarrow> byte list panics" where
  "non_finite_f32 = non_finite_lanes (\<lambda>x. float_le 23 8 (float_abs 23 8 x) (float_max 23 8)) (is_finite 23 8)"

fun scalar_marks :: "('f \<Rightarrow> bool) \<Rightarrow> run_validity \<Rightarrow> nat \<Rightarrow> 'f list \<Rightarrow> byte list \<Rightarrow> byte list panics" where
  "scalar_marks fin rv i [] bits = Some bits"
| "scalar_marks fin rv i (v # vs) bits = do {
     valid \<leftarrow> rv_contains rv i;
     if valid \<and> \<not> fin v
     then do {
       b \<leftarrow> elem_at bits (i div 8);
       scalar_marks fin rv (Suc i) vs (bits[i div 8 := b OR push_bit (i mod 8) 1])
     }
     else scalar_marks fin rv (Suc i) vs bits
   }"

definition scalar_non_finite :: "'f list \<Rightarrow> run_validity \<Rightarrow> ('f \<Rightarrow> bool) \<Rightarrow> byte list panics" where
  "scalar_non_finite values rv fin = scalar_marks fin rv 0 values (replicate (div_ceil (length values) 8) 0)"

section \<open>The greatest finite value\<close>

lemma magnitude_le_max:
  fixes a :: nat
  assumes "a < 2 ^ (m + e)" and "0 < e"
  shows "a \<le> (2 ^ e - 1) * 2 ^ m - 1 \<longleftrightarrow> a div 2 ^ m mod 2 ^ e \<noteq> 2 ^ e - 1"
proof -
  have "1 < (2 ^ e :: nat)" using one_less_power [of "2 :: nat" e] assms(2) by simp
  then have "0 < (2 ^ e - 1) * (2 ^ m :: nat)" by simp
  then have "a \<le> (2 ^ e - 1) * 2 ^ m - 1 \<longleftrightarrow> a < (2 ^ e - 1) * 2 ^ m" by linarith
  moreover have "a div 2 ^ m < 2 ^ e" using assms(1) by (simp add: power_add less_mult_imp_div_less mult.commute)
  moreover from this have "a div 2 ^ m \<noteq> 2 ^ e - 1 \<longleftrightarrow> a div 2 ^ m < 2 ^ e - 1" by linarith
  moreover have "a div 2 ^ m < 2 ^ e - 1 \<longleftrightarrow> a < (2 ^ e - 1) * 2 ^ m" by (simp add: div_less_iff_less_mult)
  ultimately show ?thesis by simp
qed

lemma max_magnitude_less: "(2 ^ e - 1) * 2 ^ m - 1 < (2 ^ (m + e) :: nat)"
proof -
  have "(2 ^ e - 1) * 2 ^ m = (2 ^ (m + e) - 2 ^ m :: nat)" by (simp add: power_add algebra_simps)
  moreover have "0 < (2 ^ m :: nat)" "0 < (2 ^ (m + e) :: nat)" by simp_all
  ultimately show ?thesis by linarith
qed

lemma float_max_bits:
  assumes "m + e < LENGTH('w)" and "0 < e"
  shows "unat (float_max m e :: 'w::len word) = (2 ^ e - 1) * 2 ^ m - 1"
proof -
  have "(2 ^ (m + e) :: nat) < 2 ^ LENGTH('w)" using assms(1) by simp
  then have "(2 ^ e - 1) * 2 ^ m - 1 < (2 ^ LENGTH('w) :: nat)"
    using max_magnitude_less [of e m] by (rule order.strict_trans [rotated])
  then show ?thesis unfolding float_max_def unat_of_nat by (rule mod_less)
qed

lemma below_max_is_finite:
  assumes "m + e < LENGTH('w)" and "0 < e"
  shows "float_le m e (float_abs m e x) (float_max m e) \<longleftrightarrow> is_finite m e (x :: 'w::len word)"
proof -
  let ?a = "unat x mod 2 ^ (m + e)"
  have abs: "unat (float_abs m e x) = ?a" by (simp add: float_abs_def unsigned_take_bit_eq take_bit_eq_mod [where 'a = nat])
  have exp: "?a div 2 ^ m mod 2 ^ e = unat x div 2 ^ m mod 2 ^ e"
    by (simp add: power_add mod_mult2_eq)
  have top: "float_abs m e x \<le> float_max m e \<longleftrightarrow> is_finite m e x"
    using magnitude_le_max [of ?a m e] assms(2)
    by (simp add: word_le_nat_alt abs float_max_bits [OF assms] is_finite_def float_exponent_def exp)
  have "is_finite m e (float_max m e :: 'w word)"
    using magnitude_le_max [OF max_magnitude_less assms(2), of m]
    by (simp add: is_finite_def float_exponent_def float_max_bits [OF assms])
  moreover have "is_nan m e y \<Longrightarrow> \<not> is_finite m e y" for y :: "'w word" by (simp add: is_nan_def is_finite_def)
  moreover have "is_finite m e (float_abs m e x) = is_finite m e x"
    by (simp add: is_finite_def float_exponent_def abs exp)
  ultimately show ?thesis using top by (auto simp: float_le_def)
qed

section \<open>Which bits are marked\<close>

lemma clear_lowest_bit:
  fixes w :: "64 word"
  assumes "bit w t" and "\<And>n. n < t \<Longrightarrow> \<not> bit w n"
  shows "bit (w AND (w - 1)) n \<longleftrightarrow> bit w n \<and> n \<noteq> t"
proof -
  let ?u = "unset_bit t w"
  have t: "t < 64" using bit_imp_le_length [OF assms(1)] by simp
  have "?u + 2 ^ t = ?u OR 2 ^ t" using t by (intro disjunctive_add_eq_or bit_word_eqI) (auto simp: bit_simps)
  also have "\<dots> = w" using assms(1) t by (intro bit_word_eqI) (auto simp: bit_simps)
  finally have "w - 1 = ?u + (2 ^ t - 1)" by (metis add_diff_eq)
  also have "\<dots> = ?u + mask t" by (simp only: mask_eq_exp_minus_1)
  also have "\<dots> = ?u OR mask t"
    using assms(2) by (intro disjunctive_add_eq_or bit_word_eqI) (auto simp: bit_simps)
  finally show ?thesis using assms(2) [of n] t by (auto simp: bit_simps dest: bit_imp_le_length)
qed

lemma mask_trailing_zeros_lowest:
  assumes "w \<noteq> 0"
  shows "bit w (mask_trailing_zeros w)" and "n < mask_trailing_zeros w \<Longrightarrow> \<not> bit w n"
proof -
  let ?xs = "takeWhile (\<lambda>n. \<not> bit w n) [0..<64]"
  have "\<exists>k < 64. bit w k" using assms bit_word_eqI [of w 0] by auto
  then obtain k where "bit w k" "k < 64" by blast
  then have "?xs \<noteq> [0..<64]" by (auto simp: takeWhile_eq_all_conv)
  then have short: "length ?xs < length [0..<64]"
    by (metis le_neq_implies_less length_takeWhile_le takeWhile_eq_take take_all order_refl)
  then show "bit w (mask_trailing_zeros w)"
    using nth_length_takeWhile [OF short] by (simp add: mask_trailing_zeros_def)
  show "\<not> bit w n" if "n < mask_trailing_zeros w"
    using set_takeWhileD [OF nth_mem [of n ?xs]] takeWhile_nth [of n "\<lambda>n. \<not> bit w n" "[0..<64]"] that short
    by (simp add: mask_trailing_zeros_def)
qed

text \<open>\<open>bits'\<close> is \<open>bits\<close> with the bits of \<open>P\<close> set.\<close>

definition marked :: "byte list \<Rightarrow> (nat \<Rightarrow> bool) \<Rightarrow> byte list \<Rightarrow> bool" where
  "marked bits P bits' \<longleftrightarrow> length bits' = length bits \<and> (\<forall>q. bitmap bits' q \<longleftrightarrow> bitmap bits q \<or> P q)"

lemma marked_none [simp]: "marked bits (\<lambda>q. False) bits"
  by (simp add: marked_def)

lemma marked_trans: "marked bits P bits' \<Longrightarrow> marked bits' Q bits'' \<Longrightarrow> marked bits (\<lambda>q. P q \<or> Q q) bits''"
  by (auto simp: marked_def)

lemma marked_cong: "marked bits P bits' \<Longrightarrow> (\<And>q. P q \<longleftrightarrow> Q q) \<Longrightarrow> marked bits Q bits'"
  by (simp add: marked_def)

lemma mark_one:
  assumes "p < 8 * length bits"
  shows "marked bits (\<lambda>q. q = p) (bits[p div 8 := bits ! (p div 8) OR push_bit (p mod 8) 1])"
proof -
  have "bit (push_bit (p mod 8) 1 :: byte) n \<longleftrightarrow> n = p mod 8" for n
    by (auto simp: bit_simps)
  moreover have "q = p \<longleftrightarrow> q div 8 = p div 8 \<and> q mod 8 = p mod 8" for q
    by (metis div_mult_mod_eq)
  ultimately show ?thesis
    using assms by (auto simp: marked_def bitmap_def bit_or_iff nth_list_update)
qed

lemma mark_bits_ok:
  "(\<And>n. bit marks n \<Longrightarrow> start + n < 8 * length bits) \<Longrightarrow>
     \<exists>bits'. mark_bits bits start marks = Some bits' \<and> marked bits (\<lambda>q. start \<le> q \<and> bit marks (q - start)) bits'"
proof (induction bits start marks rule: mark_bits.induct)
  case (1 bits start marks)
  show ?case
  proof (cases "marks = 0")
    case False
    let ?t = "mask_trailing_zeros marks" let ?p = "start + mask_trailing_zeros marks"
    let ?bits = "bits[?p div 8 := bits ! (?p div 8) OR push_bit (?p mod 8) 1]"
    note low = mask_trailing_zeros_lowest [OF False]
    have p: "?p < 8 * length bits" using 1(2) low(1) by blast
    then have ix: "elem_at bits (?p div 8) = Some (bits ! (?p div 8))" by (simp add: elem_at_def)
    have rest: "bit (marks AND (marks - 1)) n \<longleftrightarrow> bit marks n \<and> n \<noteq> ?t" for n
      by (rule clear_lowest_bit [OF low])
    have "start + n < 8 * length ?bits" if "bit (marks AND (marks - 1)) n" for n
      using that 1(2) unfolding rest by simp
    then obtain bits' where bits': "mark_bits ?bits start (marks AND (marks - 1)) = Some bits'"
      "marked ?bits (\<lambda>q. start \<le> q \<and> bit (marks AND (marks - 1)) (q - start)) bits'"
      using 1(1) [OF False refl ix] by blast
    have "marked bits (\<lambda>q. start \<le> q \<and> bit marks (q - start)) bits'"
      by (rule marked_cong [OF marked_trans [OF mark_one [OF p] bits'(2)]]) (unfold rest, use low(1) in auto)
    then show ?thesis
      using False ix bits'(1) by (subst mark_bits.simps) simp
  qed (simp add: mark_bits.simps)
qed

lemma marked_unique:
  assumes "marked bits P b" and "marked bits P c"
  shows "b = c"
proof (rule nth_equalityI)
  show len: "length b = length c" using assms by (simp add: marked_def)
  have eq: "bitmap b q = bitmap c q" for q using assms by (simp add: marked_def)
  fix i assume i: "i < length b"
  show "b ! i = c ! i"
  proof (rule bit_word_eqI)
    fix n assume n: "n < LENGTH(8)"
    then have "bitmap xs (8 * i + n) \<longleftrightarrow> i < length xs \<and> bit (xs ! i) n" for xs by (simp add: bitmap_def)
    then show "bit (b ! i) n = bit (c ! i) n" using eq [of "8 * i + n"] i len by simp
  qed
qed

lemma bit_bitmask: "n < 64 \<Longrightarrow> bit (bitmask i bs) n \<longleftrightarrow> i \<le> n \<and> n - i < length bs \<and> bs ! (n - i)"
proof (induction bs arbitrary: i)
  case (Cons b bs)
  have head: "bit (if b then push_bit i 1 else 0 :: 64 word) n \<longleftrightarrow> b \<and> n = i" using Cons.prems by (simp add: bit_exp_iff)
  have bits: "bit (bitmask i (b # bs)) n \<longleftrightarrow> (b \<and> n = i) \<or> (Suc i \<le> n \<and> n - Suc i < length bs \<and> bs ! (n - Suc i))"
    unfolding bitmask.simps bit_or_iff head Cons.IH [OF Cons.prems] by (rule refl)
  consider "n = i" | "n < i" | k where "n = i + Suc k" by (metis less_iff_Suc_add linorder_neqE_nat add_Suc_right)
  then show ?case unfolding bits by cases simp_all
qed simp

definition flagged :: "('f \<Rightarrow> bool) \<Rightarrow> run_validity \<Rightarrow> 'f list \<Rightarrow> nat \<Rightarrow> nat \<Rightarrow> nat \<Rightarrow> bool" where
  "flagged fin rv vs i j q \<longleftrightarrow> i \<le> q \<and> q < j \<and> present rv q \<and> \<not> fin (vs ! q)"

lemma chunk_word_ok:
  assumes "covers rv (length vs)" and "start + width \<le> length vs" and "width \<le> 64"
  obtains w where "rv_word rv start width = Some w"
    "\<And>n. bit (NOT (bitmask 0 (map below (take width (drop start vs)))) AND w) n \<longleftrightarrow>
       flagged below rv vs start (start + width) (start + n)"
proof -
  obtain w where w: "rv_word rv start width = Some w" "\<forall>n < 64. bit w n \<longleftrightarrow> n < width \<and> present rv (start + n)"
    using rv_word_bits [OF assms(1) _ assms(3), of start] assms(2) by auto
  show ?thesis
  proof (rule that [OF w(1)])
    fix n
    show "bit (NOT (bitmask 0 (map below (take width (drop start vs)))) AND w) n \<longleftrightarrow>
       flagged below rv vs start (start + width) (start + n)"
    proof (cases "n < 64")
      case True
      then show ?thesis
        using w(2) assms(2) by (auto simp: bit_and_iff bit_not_iff bit_bitmask flagged_def)
    next
      case False
      then show ?thesis using assms(3) by (auto simp: flagged_def dest: bit_imp_le_length)
    qed
  qed
qed

lemma non_finite_chunks_ok:
  assumes "covers rv (length vs)" and "0 < width" and "width \<le> 64"
  shows "length vs \<le> 8 * length bits \<Longrightarrow> start \<le> length vs \<Longrightarrow>
    \<exists>bits' s. non_finite_chunks below width vs rv bits start = Some (bits', s) \<and> start \<le> s \<and> s \<le> length vs \<and>
      marked bits (flagged below rv vs start s) bits'"
proof (induction "length vs - start" arbitrary: start bits rule: less_induct)
  case less
  show ?case
  proof (cases "start + width \<le> length vs")
    case False
    then show ?thesis
      using less.prems(2) by (subst non_finite_chunks.simps) (auto simp: flagged_def marked_def)
  next
    case True
    obtain w where w: "rv_word rv start width = Some w"
      "\<And>n. bit (NOT (bitmask 0 (map below (take width (drop start vs)))) AND w) n \<longleftrightarrow>
         flagged below rv vs start (start + width) (start + n)"
      using chunk_word_ok [OF assms(1) True assms(3)] by blast
    let ?marks = "NOT (bitmask 0 (map below (take width (drop start vs)))) AND w"
    have "start + n < 8 * length bits" if "bit ?marks n" for n
      using that True less.prems(1) unfolding w(2) flagged_def by linarith
    then obtain b where b: "mark_bits bits start ?marks = Some b" "marked bits (\<lambda>q. start \<le> q \<and> bit ?marks (q - start)) b"
      using mark_bits_ok by blast
    have b_marks: "marked bits (flagged below rv vs start (start + width)) b"
      by (rule marked_cong [OF b(2)]) (auto simp: w(2) flagged_def)
    have "length vs - (start + width) < length vs - start" using True assms(2) by linarith
    moreover have "length vs \<le> 8 * length b" using less.prems(1) b_marks by (simp add: marked_def)
    ultimately obtain bits' s where rest: "non_finite_chunks below width vs rv b (start + width) = Some (bits', s)"
      "start + width \<le> s" "s \<le> length vs" "marked b (flagged below rv vs (start + width) s) bits'"
      using less.hyps True by blast
    have "marked bits (flagged below rv vs start s) bits'"
      by (rule marked_cong [OF marked_trans [OF b_marks rest(4)]]) (use rest(2) in \<open>auto simp: flagged_def\<close>)
    then show ?thesis
      using True assms(2) w(1) b(1) rest(1-3) by (subst non_finite_chunks.simps) (simp add: Let_def)
  qed
qed

lemma mark_single:
  assumes "p < 8 * length bits"
  shows "mark_bits bits p 1 = Some (bits[p div 8 := bits ! (p div 8) OR push_bit (p mod 8) 1])"
proof -
  have "mask_trailing_zeros 1 = 0" by code_simp
  then show ?thesis
    using assms by (subst mark_bits.simps) (simp add: mark_bits.simps elem_at_def)
qed

lemma rest_is_scalar:
  "i + length vs \<le> 8 * length bits \<Longrightarrow> non_finite_rest fin rv i vs bits = scalar_marks fin rv i vs bits"
proof (induction vs arbitrary: i bits)
  case (Cons v vs)
  then show ?case by (cases "rv_contains rv i") (auto simp: mark_single elem_at_def)
qed simp

lemma scalar_marks_ok:
  assumes "covers rv (length vs)"
  shows "i \<le> length vs \<Longrightarrow> length vs \<le> 8 * length bits \<Longrightarrow>
    \<exists>bits'. scalar_marks fin rv i (drop i vs) bits = Some bits' \<and> marked bits (flagged fin rv vs i (length vs)) bits'"
proof (induction "length vs - i" arbitrary: i bits)
  case 0
  then show ?case by (auto simp: flagged_def marked_def)
next
  case (Suc k)
  then have i: "i < length vs" and k: "k = length vs - Suc i" by simp_all
  have drop: "drop i vs = vs ! i # drop (Suc i) vs" using i by (simp add: Cons_nth_drop_Suc)
  let ?bits = "if present rv i \<and> \<not> fin (vs ! i) then bits[i div 8 := bits ! (i div 8) OR push_bit (i mod 8) 1] else bits"
  have bits: "marked bits (\<lambda>q. q = i \<and> present rv i \<and> \<not> fin (vs ! i)) ?bits"
    using mark_one [of i bits] i Suc.prems(2) by (auto simp: marked_def)
  then have "length vs \<le> 8 * length ?bits" using Suc.prems(2) by (simp add: marked_def)
  with i obtain bits' where bits': "scalar_marks fin rv (Suc i) (drop (Suc i) vs) ?bits = Some bits'"
    "marked ?bits (flagged fin rv vs (Suc i) (length vs)) bits'"
    using Suc.hyps(1) [OF k, of ?bits] by auto
  have "marked bits (flagged fin rv vs i (length vs)) bits'"
    by (rule marked_cong [OF marked_trans [OF bits bits'(2)]]) (use i in \<open>auto simp: flagged_def not_less_eq_eq le_antisym dest: le_antisym\<close>)
  moreover have "scalar_marks fin rv i (drop i vs) bits = Some bits'"
    using bits'(1) i Suc.prems(2) unfolding drop by (auto simp: rv_contains_ok [OF assms] elem_at_def split: if_splits)
  ultimately show ?case by blast
qed

lemma non_finite_lanes_scalar:
  assumes "covers rv (length vs)" and "0 < width" and "width \<le> 64"
    and below: "\<And>x. below x \<longleftrightarrow> fin x"
  shows "\<exists>bits. non_finite_lanes below fin width vs rv = Some bits \<and> scalar_non_finite vs rv fin = Some bits \<and>
    marked (replicate (div_ceil (length vs) 8) 0) (flagged fin rv vs 0 (length vs)) bits"
proof -
  let ?zero = "replicate (div_ceil (length vs) 8) 0 :: byte list"
  have room: "length vs \<le> 8 * length ?zero" by (simp add: div_ceil_def) presburger
  have below_fin: "below = fin" using below by blast
  obtain b s where chunks: "non_finite_chunks fin width vs rv ?zero 0 = Some (b, s)" "s \<le> length vs"
    "marked ?zero (flagged fin rv vs 0 s) b"
    using non_finite_chunks_ok [OF assms(1-3) room, of 0 fin] by auto
  then have room_b: "length vs \<le> 8 * length b" using room by (simp add: marked_def)
  obtain bits where rest: "scalar_marks fin rv s (drop s vs) b = Some bits" "marked b (flagged fin rv vs s (length vs)) bits"
    using scalar_marks_ok [OF assms(1) chunks(2) room_b] by blast
  have all: "marked ?zero (flagged fin rv vs 0 (length vs)) bits"
    by (rule marked_cong [OF marked_trans [OF chunks(3) rest(2)]]) (use chunks(2) in \<open>auto simp: flagged_def\<close>)
  have lanes: "non_finite_lanes below fin width vs rv = Some bits"
    using chunks(1,2) room_b rest(1) by (simp add: non_finite_lanes_def below_fin rest_is_scalar)
  obtain bits' where "scalar_non_finite vs rv fin = Some bits'" "marked ?zero (flagged fin rv vs 0 (length vs)) bits'"
    using scalar_marks_ok [OF assms(1) _ room, of 0 fin] by (auto simp: scalar_non_finite_def)
  then show ?thesis using lanes all marked_unique [OF all] by blast
qed

lemma bitmap_zero [simp]: "\<not> bitmap (replicate n 0) q"
  by (simp add: bitmap_def)

text \<open>
  C36: for every lane width up to a word, the vectorised classification of 64-bit and of 32-bit floats
  returns without a panic, and gives the bitmap of the scalar loop: one bit per present value whose
  exponent is all ones, and no other bit.
\<close>

theorem non_finite_lanes_exact:
  assumes "covers rv (length doubles)" and "covers rv (length singles)" and "0 < width" and "width \<le> 64"
  shows "non_finite_f64 width doubles rv = scalar_non_finite doubles rv (is_finite 52 11) \<and>
    non_finite_f32 width singles rv = scalar_non_finite singles rv (is_finite 23 8) \<and>
    (\<exists>bits. non_finite_f64 width doubles rv = Some bits \<and> length bits = div_ceil (length doubles) 8 \<and>
      {q. bitmap bits q} = {q. q < length doubles \<and> present rv q \<and> \<not> is_finite 52 11 (doubles ! q)})"
proof -
  have max64: "float_le 52 11 (float_abs 52 11 x) (float_max 52 11) \<longleftrightarrow> is_finite 52 11 x" for x :: "64 word"
    by (rule below_max_is_finite) simp_all
  have max32: "float_le 23 8 (float_abs 23 8 x) (float_max 23 8) \<longleftrightarrow> is_finite 23 8 x" for x :: "32 word"
    by (rule below_max_is_finite) simp_all
  obtain bits where bits: "non_finite_f64 width doubles rv = Some bits"
    "scalar_non_finite doubles rv (is_finite 52 11) = Some bits"
    "marked (replicate (div_ceil (length doubles) 8) 0) (flagged (is_finite 52 11) rv doubles 0 (length doubles)) bits"
    using non_finite_lanes_scalar [OF assms(1,3,4), where fin = "is_finite 52 11", OF max64] unfolding non_finite_f64_def by blast
  moreover have "non_finite_f32 width singles rv = scalar_non_finite singles rv (is_finite 23 8)"
    using non_finite_lanes_scalar [OF assms(2,3,4), where fin = "is_finite 23 8", OF max32] unfolding non_finite_f32_def by auto
  ultimately show ?thesis by (auto simp: marked_def flagged_def)
qed

theorem non_finite_lanes_exact_witness:
  "non_finite_f64 2 [0x7FF0000000000000, 0, 0x7FF8000000000001] \<lparr>rv_bits = Some [6], rv_offset = 0\<rparr> =
     scalar_non_finite [0x7FF0000000000000, 0, 0x7FF8000000000001 :: 64 word] \<lparr>rv_bits = Some [6], rv_offset = 0\<rparr> (is_finite 52 11) \<and>
   non_finite_f32 2 [0xFF800000, 0xFF800000] \<lparr>rv_bits = Some [6], rv_offset = 0\<rparr> =
     scalar_non_finite [0xFF800000, 0xFF800000 :: 32 word] \<lparr>rv_bits = Some [6], rv_offset = 0\<rparr> (is_finite 23 8)"
  using non_finite_lanes_exact
    [of "\<lparr>rv_bits = Some [6], rv_offset = 0\<rparr>" "[0x7FF0000000000000, 0, 0x7FF8000000000001]" "[0xFF800000, 0xFF800000]" 2]
  by (simp add: covers_def)

end
