(* ===== verification/Active_Graph.thy ===== *)
theory Active_Graph
  imports Prelude "HOL-Library.Multiset" "HOL-Library.Product_Lexorder" "HOL-Library.List_Lexorder"
    "HOL-Library.Char_ord"
begin

text \<open>
  The active graph of a domain (src/registry/graph.rs): its nodes and edges, the impact of a change, the
  drawn targets of a node, and the check that dropped models are not in use.

  The graph itself is a \<open>DiGraph\<close> of the petgraph crate. A graph here is the list of its nodes, the list
  of its edges, and for every node the lists of its outgoing and incoming edges as \<open>edges_directed\<close>
  yields them; \<open>graph_ok\<close> states what petgraph documents of them, and leaves their order open. A
  \<open>BTreeSet\<close> or \<open>HashSet\<close> whose order no result depends on is a list.
\<close>

section \<open>Kinds of models and of edges\<close>

datatype model_kind =
    Schema | WireJsonSchema | WireCborSchema | WireAvroSchema | Codec | Client | Vhost | Branch | Endpoint
  | SignalingProtocol | Generator | Inferencer | WasmProcessor | Ingestor | Reingestor | Relay | Lookup
  | Junction | Deduplicator | Correlator | Reorderer | WindowProcessor | Emitter | Placement | Udf

datatype edge_kind = RequiredBy | SendsTo | CorrelationTimeout | MessageError | MaterializedState

datatype impact_edge_kind =
    ImpactConfigurationDependency | ImpactDataflow | ImpactMessageError | ImpactCorrelationTimeout
  | ImpactMaterializedState

fun is_runtime_flow_edge :: "edge_kind \<Rightarrow> bool" where
  "is_runtime_flow_edge RequiredBy = False"
| "is_runtime_flow_edge MaterializedState = False"
| "is_runtime_flow_edge SendsTo = True"
| "is_runtime_flow_edge CorrelationTimeout = True"
| "is_runtime_flow_edge MessageError = True"

definition is_visible_dataflow_edge :: "edge_kind \<Rightarrow> bool" where
  "is_visible_dataflow_edge k = is_runtime_flow_edge k"

definition propagates_impact_downstream :: "edge_kind \<Rightarrow> bool" where
  "propagates_impact_downstream k \<longleftrightarrow> k \<in> {SendsTo, CorrelationTimeout, MessageError, MaterializedState}"

definition is_configuration_dependency :: "edge_kind \<Rightarrow> bool" where
  "is_configuration_dependency k \<longleftrightarrow> k \<in> {RequiredBy, MaterializedState}"

fun impact_kind :: "edge_kind \<Rightarrow> impact_edge_kind" where
  "impact_kind RequiredBy = ImpactConfigurationDependency"
| "impact_kind SendsTo = ImpactDataflow"
| "impact_kind CorrelationTimeout = ImpactCorrelationTimeout"
| "impact_kind MessageError = ImpactMessageError"
| "impact_kind MaterializedState = ImpactMaterializedState"

section \<open>Nodes and graphs\<close>

type_synonym model_name = string

record node_ref =
  nr_kind :: model_kind
  nr_identifier :: model_name

text \<open>
  Of a node's configuration the graph reads its variant and the branch it declares, and of its resolved
  branching whether there is one.
\<close>

record active_node =
  an_identifier :: model_name
  an_kind :: model_kind
  an_model :: model_kind
  an_branch :: "string option"
  an_resolved :: bool

record edge =
  e_source :: nat
  e_target :: nat
  e_kind :: edge_kind

record active_graph =
  ag_nodes :: "active_node list"
  ag_edges :: "edge list"
  ag_out :: "edge list list"
  ag_in :: "edge list list"
  ag_indices :: "node_ref \<Rightarrow> nat option"

definition node_ref_of :: "active_node \<Rightarrow> node_ref" where
  "node_ref_of node = \<lparr>nr_kind = an_kind node, nr_identifier = an_identifier node\<rparr>"

definition node_weight :: "active_graph \<Rightarrow> nat \<Rightarrow> active_node panics" where
  "node_weight g i = elem_at (ag_nodes g) i"

definition out_edges :: "active_graph \<Rightarrow> nat \<Rightarrow> edge list" where
  "out_edges g i = (if i < length (ag_out g) then ag_out g ! i else [])"

definition in_edges :: "active_graph \<Rightarrow> nat \<Rightarrow> edge list" where
  "in_edges g i = (if i < length (ag_in g) then ag_in g ! i else [])"

definition is_schedulable_model :: "model_kind \<Rightarrow> bool" where
  "is_schedulable_model m \<longleftrightarrow> m \<in> {Generator, Inferencer, Ingestor, Reingestor, Relay, Lookup, Deduplicator,
     Correlator, Reorderer, Junction, WindowProcessor, WasmProcessor, Emitter}"

definition is_dataflow_node :: "active_node \<Rightarrow> bool" where
  "is_dataflow_node node \<longleftrightarrow> an_kind node \<in> {Ingestor, Relay, Generator, Inferencer, WasmProcessor, Reingestor,
     Correlator, Junction, Deduplicator, Reorderer, WindowProcessor, Emitter}"

section \<open>Impact of a change\<close>

datatype branch_coverage = All_branches | Unbranched | All_of_branch string

record node_coverage =
  nc_node :: node_ref
  nc_branches :: "branch_coverage option"

record impact_edge =
  ie_source :: node_coverage
  ie_target :: node_coverage
  ie_kind :: impact_edge_kind

record impact_topology =
  it_nodes :: "node_coverage list"
  it_edges :: "impact_edge list"

text \<open>The configurations that select a branch: relays, and those of \<open>model_branch_selection\<close>.\<close>

definition declared_branch :: "active_node \<Rightarrow> string option" where
  "declared_branch node =
     (if an_model node \<in> {Relay, Generator, Inferencer, WasmProcessor, Deduplicator, Correlator, Junction, Reorderer,
        WindowProcessor}
      then an_branch node else None)"

definition impact_coverage :: "active_node \<Rightarrow> node_coverage" where
  "impact_coverage node =
     (if \<not> is_schedulable_model (an_model node)
      then \<lparr>nc_node = node_ref_of node, nc_branches = None\<rparr>
      else \<lparr>nc_node = node_ref_of node, nc_branches = Some
        (case declared_branch node of
           Some branch \<Rightarrow> All_of_branch branch
         | None \<Rightarrow> if an_resolved node \<and> an_kind node \<in> {Emitter, Reingestor} then All_branches else Unbranched)\<rparr>)"

definition impact_of_edge :: "active_graph \<Rightarrow> edge \<Rightarrow> impact_edge panics" where
  "impact_of_edge g e = do {
     source \<leftarrow> node_weight g (e_source e);
     target \<leftarrow> node_weight g (e_target e);
     Some \<lparr>ie_source = impact_coverage source, ie_target = impact_coverage target, ie_kind = impact_kind (e_kind e)\<rparr>
   }"

definition impact_for_indices :: "active_graph \<Rightarrow> nat list \<Rightarrow> impact_topology panics" where
  "impact_for_indices g indices = do {
     nodes \<leftarrow> those (map (\<lambda>i. map_option impact_coverage (node_weight g i)) indices);
     edges \<leftarrow> those (map (impact_of_edge g)
       (filter (\<lambda>e. e_source e \<in> set indices \<and> e_target e \<in> set indices) (ag_edges g)));
     Some \<lparr>it_nodes = remdups nodes, it_edges = remdups edges\<rparr>
   }"

definition node_impact :: "active_graph \<Rightarrow> node_ref \<Rightarrow> impact_topology panics" where
  "node_impact g seed = impact_for_indices g (case ag_indices g seed of Some i \<Rightarrow> [i] | None \<Rightarrow> [])"

definition nodes_impact :: "active_graph \<Rightarrow> node_ref list \<Rightarrow> impact_topology panics" where
  "nodes_impact g selected = impact_for_indices g (remdups (List.map_filter (ag_indices g) selected))"

text \<open>
  The depth-first closure both closures run. The stack is a list whose head is the last element of the
  \<open>pending\<close> vector, so an \<open>extend\<close> puts its elements in reverse before it.
\<close>

definition successors :: "nat list list \<Rightarrow> nat \<Rightarrow> nat list" where
  "successors succs i = (if i < length succs then succs ! i else [])"

function traverse :: "nat list list \<Rightarrow> nat list \<Rightarrow> nat list \<Rightarrow> nat list" where
  "traverse succs [] selected = selected"
| "traverse succs (i # pending) selected =
     (if i \<in> set selected then traverse succs pending selected
      else traverse succs (rev (successors succs i) @ pending) (i # selected))"
  by pat_completeness auto
termination
proof (relation "measures [\<lambda>(succs, pending, selected). card ({..<length succs} - set selected),
    \<lambda>(succs, pending, selected). length pending]", goal_cases)
  case (3 succs i pending selected)
  show ?case
  proof (cases "i < length succs")
    case True
    then have "{..<length succs} - insert i (set selected) \<subset> {..<length succs} - set selected" using 3 by auto
    then show ?thesis by (simp add: psubset_card_mono)
  next
    case False
    then have "{..<length succs} - insert i (set selected) = {..<length succs} - set selected" by auto
    then show ?thesis using False by (simp add: successors_def)
  qed
qed simp_all

definition downstream_impact :: "active_graph \<Rightarrow> node_ref \<Rightarrow> impact_topology panics" where
  "downstream_impact g seed =
     impact_for_indices g (traverse
       (map (\<lambda>es. map e_target (filter (\<lambda>e. propagates_impact_downstream (e_kind e)) es)) (ag_out g))
       (case ag_indices g seed of Some i \<Rightarrow> [i] | None \<Rightarrow> []) [])"

definition whole_impact :: "active_graph \<Rightarrow> impact_topology panics" where
  "whole_impact g = impact_for_indices g [0..<length (ag_nodes g)]"

definition with_configuration_dependencies :: "active_graph \<Rightarrow> impact_topology \<Rightarrow> impact_topology panics" where
  "with_configuration_dependencies g topology =
     impact_for_indices g (traverse
       (map (\<lambda>es. map e_source (filter (\<lambda>e. is_configuration_dependency (e_kind e)) es)) (ag_in g))
       (rev (List.map_filter (\<lambda>c. ag_indices g (nc_node c)) (it_nodes topology))) [])"

section \<open>Drawn targets\<close>

type_synonym visible_step = "nat \<times> edge_kind"

text \<open>The steps an undrawn node passes on, and the steps a node starts with; each is pushed in order.\<close>

definition visible_steps :: "active_graph \<Rightarrow> nat \<Rightarrow> (edge_kind \<Rightarrow> edge_kind) \<Rightarrow> visible_step list" where
  "visible_steps g i kind =
     map (\<lambda>e. (e_target e, kind (e_kind e))) (filter (\<lambda>e. is_visible_dataflow_edge (e_kind e)) (out_edges g i))"

lemma edge_kind_UNIV: "(UNIV :: edge_kind set) = {RequiredBy, SendsTo, CorrelationTimeout, MessageError, MaterializedState}"
proof -
  have "k \<in> {RequiredBy, SendsTo, CorrelationTimeout, MessageError, MaterializedState}" for k by (cases k) auto
  then show ?thesis by blast
qed

function visible_loop ::
  "active_graph \<Rightarrow> visible_step list \<Rightarrow> visible_step list \<Rightarrow> visible_step list \<Rightarrow> visible_step list panics" where
  "visible_loop g [] visited targets = Some targets"
| "visible_loop g (step # pending) visited targets =
     (if step \<in> set visited then visible_loop g pending visited targets
      else do {
        node \<leftarrow> node_weight g (fst step);
        if is_dataflow_node node then visible_loop g pending (step # visited) (targets @ [step])
        else visible_loop g (rev (visible_steps g (fst step) (\<lambda>_. snd step)) @ pending) (step # visited) targets
      })"
  by pat_completeness auto
termination
proof (relation "measures [\<lambda>(g, pending, visited, targets). card ({..<length (ag_out g)} \<times> UNIV - set visited),
    \<lambda>(g, pending, visited, targets). length pending]", goal_cases)
  case (3 g step pending visited targets node)
  have "card ({..<length (ag_out g)} \<times> UNIV - insert step (set visited)) \<le> card ({..<length (ag_out g)} \<times> UNIV - set visited)"
    by (rule card_mono) (auto simp: edge_kind_UNIV)
  then show ?case by auto
next
  case (4 g step pending visited targets node)
  show ?case
  proof (cases "fst step < length (ag_out g)")
    case True
    then have "{..<length (ag_out g)} \<times> UNIV - insert step (set visited) \<subset> {..<length (ag_out g)} \<times> UNIV - set visited"
      using 4(1) by (cases step) auto
    then show ?thesis by (simp add: psubset_card_mono edge_kind_UNIV)
  next
    case False
    then have "{..<length (ag_out g)} \<times> UNIV - insert step (set visited) = {..<length (ag_out g)} \<times> UNIV - set visited"
      by (cases step) auto
    then show ?thesis using False by (simp add: visible_steps_def out_edges_def)
  qed
qed simp_all

definition visible_dataflow_targets :: "active_graph \<Rightarrow> nat \<Rightarrow> visible_step list panics" where
  "visible_dataflow_targets g source = visible_loop g (rev (visible_steps g source (\<lambda>k. k))) [] []"

section \<open>Dropping models\<close>

datatype registry_error =
    DeleteInUse model_name "model_name list"
  | ConfigurationCycle

fun check_drops :: "active_graph \<Rightarrow> node_ref list \<Rightarrow> node_ref list \<Rightarrow> (registry_error + unit) panics" where
  "check_drops g drops [] = Some (Inr ())"
| "check_drops g drops (key # keys) =
     (case ag_indices g key of
        None \<Rightarrow> check_drops g drops keys
      | Some i \<Rightarrow> do {
          dependents \<leftarrow> those (map (\<lambda>e. node_weight g (e_target e))
            (filter (\<lambda>e. is_configuration_dependency (e_kind e)) (out_edges g i)));
          let blockers = map an_identifier (filter (\<lambda>b. node_ref_of b \<notin> set drops) dependents);
          let blockers = remdups_adj (sort blockers);
          if blockers \<noteq> [] then Some (Inl (DeleteInUse (nr_identifier key) blockers))
          else check_drops g drops keys
        })"

definition ensure_drop_targets_are_not_in_use :: "active_graph \<Rightarrow> node_ref list \<Rightarrow> (registry_error + unit) panics" where
  "ensure_drop_targets_are_not_in_use g drops = check_drops g drops drops"

section \<open>What petgraph keeps\<close>

definition graph_ok :: "active_graph \<Rightarrow> bool" where
  "graph_ok g \<longleftrightarrow>
     length (ag_out g) = length (ag_nodes g) \<and> length (ag_in g) = length (ag_nodes g) \<and>
     (\<forall>e \<in> set (ag_edges g). e_source e < length (ag_nodes g) \<and> e_target e < length (ag_nodes g)) \<and>
     (\<forall>i < length (ag_nodes g). mset (ag_out g ! i) = {#e \<in># mset (ag_edges g). e_source e = i#}) \<and>
     (\<forall>i < length (ag_nodes g). mset (ag_in g ! i) = {#e \<in># mset (ag_edges g). e_target e = i#}) \<and>
     (\<forall>r i. ag_indices g r = Some i \<longleftrightarrow> i < length (ag_nodes g) \<and> node_ref_of (ag_nodes g ! i) = r)"

lemma out_edges_mset:
  assumes "graph_ok g"
  shows "mset (out_edges g i) = {#e \<in># mset (ag_edges g). e_source e = i#}"
proof (cases "i < length (ag_nodes g)")
  case False
  then have "set_mset {#e \<in># mset (ag_edges g). e_source e = i#} = {}" using assms by (auto simp: graph_ok_def)
  then have "{#e \<in># mset (ag_edges g). e_source e = i#} = {#}" by (simp only: set_mset_eq_empty_iff)
  then show ?thesis using False assms by (simp add: out_edges_def graph_ok_def)
qed (use assms in \<open>simp add: out_edges_def graph_ok_def\<close>)

lemma in_edges_mset:
  assumes "graph_ok g"
  shows "mset (in_edges g i) = {#e \<in># mset (ag_edges g). e_target e = i#}"
proof (cases "i < length (ag_nodes g)")
  case False
  then have "set_mset {#e \<in># mset (ag_edges g). e_target e = i#} = {}" using assms by (auto simp: graph_ok_def)
  then have "{#e \<in># mset (ag_edges g). e_target e = i#} = {#}" by (simp only: set_mset_eq_empty_iff)
  then show ?thesis using False assms by (simp add: in_edges_def graph_ok_def)
qed (use assms in \<open>simp add: in_edges_def graph_ok_def\<close>)

lemma out_edges_set: "graph_ok g \<Longrightarrow> set (out_edges g i) = {e \<in> set (ag_edges g). e_source e = i}"
  using out_edges_mset [of g i] by (metis set_mset_filter set_mset_mset)

lemma in_edges_set: "graph_ok g \<Longrightarrow> set (in_edges g i) = {e \<in> set (ag_edges g). e_target e = i}"
  using in_edges_mset [of g i] by (metis set_mset_filter set_mset_mset)

lemma edge_ends:
  "graph_ok g \<Longrightarrow> e \<in> set (ag_edges g) \<Longrightarrow> e_source e < length (ag_nodes g) \<and> e_target e < length (ag_nodes g)"
  by (simp add: graph_ok_def)

lemma indices_iff:
  "graph_ok g \<Longrightarrow> ag_indices g r = Some i \<longleftrightarrow> i < length (ag_nodes g) \<and> node_ref_of (ag_nodes g ! i) = r"
  by (simp add: graph_ok_def)

lemma indices_bound: "graph_ok g \<Longrightarrow> ag_indices g r = Some i \<Longrightarrow> i < length (ag_nodes g)"
  by (simp add: indices_iff)

lemma set_map_filter: "set (List.map_filter f xs) = {y. \<exists>x \<in> set xs. f x = Some y}"
  by (induction xs) (auto simp: map_filter_def)

lemma node_weight_ok: "i < length (ag_nodes g) \<Longrightarrow> node_weight g i = Some (ag_nodes g ! i)"
  by (simp add: node_weight_def elem_at_def)

text \<open>The edges of one kind, as a relation on indices.\<close>

definition edge_rel :: "active_graph \<Rightarrow> (edge_kind \<Rightarrow> bool) \<Rightarrow> (nat \<times> nat) set" where
  "edge_rel g P = {(e_source e, e_target e) | e. e \<in> set (ag_edges g) \<and> P (e_kind e)}"

abbreviation dependencies :: "active_graph \<Rightarrow> (nat \<times> nat) set" where
  "dependencies g \<equiv> edge_rel g is_configuration_dependency"

section \<open>Depth-first search\<close>

text \<open>
  The state of a search from \<open>S\<close>: everything seen or pending is reachable, and what a seen element leads to
  is seen or pending.
\<close>

definition searching :: "('a \<Rightarrow> 'a set) \<Rightarrow> 'a set \<Rightarrow> 'a list \<Rightarrow> 'a set \<Rightarrow> bool" where
  "searching succ S pending seen \<longleftrightarrow>
     S \<subseteq> set pending \<union> seen \<and> set pending \<union> seen \<subseteq> {(x, y). y \<in> succ x}\<^sup>* `` S \<and>
     (\<forall>x \<in> seen. succ x \<subseteq> set pending \<union> seen)"

lemma search_start: "searching succ (set xs) xs {}"
  by (auto simp: searching_def)

lemma search_skip: "searching succ S (x # pending) seen \<Longrightarrow> x \<in> seen \<Longrightarrow> searching succ S pending seen"
  by (auto simp: searching_def)

lemma search_visit:
  assumes "searching succ S (x # pending) seen" and "set ys = succ x"
  shows "searching succ S (ys @ pending) (insert x seen)"
proof -
  have "x \<in> {(x, y). y \<in> succ x}\<^sup>* `` S" using assms(1) by (auto simp: searching_def)
  then have "succ x \<subseteq> {(x, y). y \<in> succ x}\<^sup>* `` S" by (auto intro: rtrancl_into_rtrancl)
  then show ?thesis using assms unfolding searching_def by auto
qed

lemma search_end:
  assumes "searching succ S [] seen"
  shows "seen = {(x, y). y \<in> succ x}\<^sup>* `` S"
proof -
  have closed: "{(x, y). y \<in> succ x} `` seen \<subseteq> seen" and S: "S \<subseteq> seen" using assms by (auto simp: searching_def)
  have "{(x, y). y \<in> succ x}\<^sup>* `` S \<subseteq> {(x, y). y \<in> succ x}\<^sup>* `` seen" using S by blast
  also have "\<dots> = seen" by (rule Image_closed_trancl [OF closed])
  finally show ?thesis using assms by (auto simp: searching_def)
qed

lemma traverse_ok:
  "searching (\<lambda>i. set (successors succs i)) S pending (set selected) \<Longrightarrow>
     set (traverse succs pending selected) = {(i, j). j \<in> set (successors succs i)}\<^sup>* `` S"
proof (induction succs pending selected rule: traverse.induct)
  case (1 succs selected)
  then show ?case using search_end by fastforce
next
  case (2 succs i pending selected)
  show ?case
  proof (cases "i \<in> set selected")
    case True
    then show ?thesis using 2(1) [OF True search_skip [OF 2(3)]] by simp
  next
    case False
    have "searching (\<lambda>i. set (successors succs i)) S (rev (successors succs i) @ pending) (set (i # selected))"
      using search_visit [OF 2(3), of "rev (successors succs i)"] by simp
    then show ?thesis using 2(2) [OF False] False by simp
  qed
qed

lemma those_Some: "(\<And>x. x \<in> set xs \<Longrightarrow> f x = Some (h x)) \<Longrightarrow> those (map f xs) = Some (map h xs)"
  by (induction xs) auto

text \<open>What \<open>impact_for_indices\<close> describes: the selected nodes, and the edges between them.\<close>

definition coverage_at :: "active_graph \<Rightarrow> nat \<Rightarrow> node_coverage" where
  "coverage_at g i = impact_coverage (ag_nodes g ! i)"

definition edge_between :: "active_graph \<Rightarrow> edge \<Rightarrow> impact_edge" where
  "edge_between g e =
     \<lparr>ie_source = coverage_at g (e_source e), ie_target = coverage_at g (e_target e), ie_kind = impact_kind (e_kind e)\<rparr>"

definition describes :: "active_graph \<Rightarrow> nat set \<Rightarrow> impact_topology \<Rightarrow> bool" where
  "describes g I t \<longleftrightarrow> set (it_nodes t) = coverage_at g ` I \<and>
     set (it_edges t) = edge_between g ` {e \<in> set (ag_edges g). e_source e \<in> I \<and> e_target e \<in> I}"

lemma impact_for_indices_ok:
  assumes "set is \<subseteq> {..<length (ag_nodes g)}"
  shows "\<exists>t. impact_for_indices g is = Some t \<and> describes g (set is) t"
proof -
  have "those (map (\<lambda>i. map_option impact_coverage (node_weight g i)) is) = Some (map (coverage_at g) is)"
    by (rule those_Some) (use assms in \<open>auto simp: node_weight_ok coverage_at_def subset_iff\<close>)
  moreover have "those (map (impact_of_edge g) (filter (\<lambda>e. e_source e \<in> set is \<and> e_target e \<in> set is) (ag_edges g))) =
      Some (map (edge_between g) (filter (\<lambda>e. e_source e \<in> set is \<and> e_target e \<in> set is) (ag_edges g)))"
    by (rule those_Some)
      (use assms in \<open>auto simp: impact_of_edge_def edge_between_def node_weight_ok coverage_at_def subset_iff\<close>)
  ultimately show ?thesis by (auto simp: impact_for_indices_def describes_def)
qed

lemma nth_map_out:
  "successors (map (\<lambda>es. map e_target (filter (\<lambda>e. P (e_kind e)) es)) (ag_out g)) i =
    map e_target (filter (\<lambda>e. P (e_kind e)) (out_edges g i))"
  by (simp add: successors_def out_edges_def)

lemma nth_map_in:
  "successors (map (\<lambda>es. map e_source (filter (\<lambda>e. P (e_kind e)) es)) (ag_in g)) i =
    map e_source (filter (\<lambda>e. P (e_kind e)) (in_edges g i))"
  by (simp add: successors_def in_edges_def)

lemma forward_rel:
  "graph_ok g \<Longrightarrow> {(i, j). j \<in> set (map e_target (filter (\<lambda>e. P (e_kind e)) (out_edges g i)))} = edge_rel g P"
  by (auto simp: out_edges_set edge_rel_def)

lemma backward_rel:
  "graph_ok g \<Longrightarrow> {(i, j). j \<in> set (map e_source (filter (\<lambda>e. P (e_kind e)) (in_edges g i)))} = (edge_rel g P)\<inverse>"
  by (auto simp: in_edges_set edge_rel_def)

lemma reach_bounded:
  assumes "R \<subseteq> {..<n} \<times> {..<n}" and "S \<subseteq> {..<n}"
  shows "R\<^sup>* `` S \<subseteq> {..<n :: nat}"
proof
  fix j assume "j \<in> R\<^sup>* `` S"
  then obtain i where "i \<in> S" "(i, j) \<in> R\<^sup>*" by blast
  from this(2,1) show "j \<in> {..<n}" by (induction rule: rtrancl_induct) (use assms in auto)
qed

lemma edge_rel_bounded: "graph_ok g \<Longrightarrow> edge_rel g P \<subseteq> {..<length (ag_nodes g)} \<times> {..<length (ag_nodes g)}"
  using edge_ends by (auto simp: edge_rel_def)

lemma traverse_impact:
  assumes "\<And>i. successors succs i = next_of i" and "{(i, j). j \<in> set (next_of i)} = R"
    and "R \<subseteq> {..<length (ag_nodes g)} \<times> {..<length (ag_nodes g)}" and "set xs \<subseteq> {..<length (ag_nodes g)}"
  shows "\<exists>t. impact_for_indices g (traverse succs xs []) = Some t \<and> describes g (R\<^sup>* `` set xs) t"
proof -
  have "searching (\<lambda>i. set (successors succs i)) (set xs) xs (set [])" using search_start by simp
  then have reach: "set (traverse succs xs []) = R\<^sup>* `` set xs" using traverse_ok assms(1,2) by simp
  have "set (traverse succs xs []) \<subseteq> {..<length (ag_nodes g)}" unfolding reach by (rule reach_bounded [OF assms(3,4)])
  then show ?thesis using impact_for_indices_ok [of "traverse succs xs []" g] unfolding reach by blast
qed

text \<open>
  C38: the two closures of an impact are exact. The downstream impact of a model is the models its
  dataflow and materialized state reach, and adding configuration dependencies to an impact adds exactly
  the models those of the impact depend on, through any number of dependencies. Both describe every edge
  between the models they hold, and neither panics.
\<close>

theorem impact_closures_exact:
  assumes "graph_ok g"
  shows "\<exists>down up.
    downstream_impact g seed = Some down \<and>
    describes g {j. \<exists>i. ag_indices g seed = Some i \<and> (i, j) \<in> (edge_rel g propagates_impact_downstream)\<^sup>*} down \<and>
    with_configuration_dependencies g topology = Some up \<and>
    describes g {j. \<exists>c i. c \<in> set (it_nodes topology) \<and> ag_indices g (nc_node c) = Some i \<and> (j, i) \<in> (dependencies g)\<^sup>*} up"
proof -
  let ?n = "length (ag_nodes g)"
  let ?seeds = "case ag_indices g seed of Some i \<Rightarrow> [i] | None \<Rightarrow> []"
  let ?from = "rev (List.map_filter (\<lambda>c. ag_indices g (nc_node c)) (it_nodes topology))"
  have seeds: "set ?seeds \<subseteq> {..<?n}" "set ?from \<subseteq> {..<?n}"
    using indices_bound [OF assms] by (auto simp: set_map_filter split: option.splits)
  have rev_bounded: "(dependencies g)\<inverse> \<subseteq> {..<?n} \<times> {..<?n}" using edge_rel_bounded [OF assms] by fastforce
  obtain down where down: "downstream_impact g seed = Some down"
    "describes g ((edge_rel g propagates_impact_downstream)\<^sup>* `` set ?seeds) down"
    using traverse_impact [OF nth_map_out [where P = propagates_impact_downstream] forward_rel [OF assms] edge_rel_bounded [OF assms] seeds(1)]
    unfolding downstream_impact_def by blast
  obtain up where up: "with_configuration_dependencies g topology = Some up"
    "describes g (((dependencies g)\<inverse>)\<^sup>* `` set ?from) up"
    using traverse_impact [OF nth_map_in [where P = is_configuration_dependency] backward_rel [OF assms] rev_bounded seeds(2)]
    unfolding with_configuration_dependencies_def by blast
  have eq: "(edge_rel g propagates_impact_downstream)\<^sup>* `` set ?seeds =
      {j. \<exists>i. ag_indices g seed = Some i \<and> (i, j) \<in> (edge_rel g propagates_impact_downstream)\<^sup>*}"
    by (cases "ag_indices g seed") auto
  have eq': "((dependencies g)\<inverse>)\<^sup>* `` set ?from =
      {j. \<exists>c i. c \<in> set (it_nodes topology) \<and> ag_indices g (nc_node c) = Some i \<and> (j, i) \<in> (dependencies g)\<^sup>*}"
    by (auto simp: set_map_filter rtrancl_converse)
  show ?thesis using down up unfolding eq eq' by blast
qed

text \<open>A small domain: a schema, an ingestor, the relay it fills, and a junction that reads the relay.\<close>

definition demo_nodes :: "active_node list" where
  "demo_nodes = map (\<lambda>(name, kind). \<lparr>an_identifier = name, an_kind = kind, an_model = kind, an_branch = None, an_resolved = False\<rparr>)
     [(''s'', Schema), (''i'', Ingestor), (''r'', Relay), (''j'', Junction)]"

definition demo_edges :: "edge list" where
  "demo_edges = map (\<lambda>(s, t, k). \<lparr>e_source = s, e_target = t, e_kind = k\<rparr>)
     [(0, 2, RequiredBy), (1, 2, SendsTo), (2, 3, SendsTo), (2, 3, RequiredBy), (2, 1, RequiredBy)]"

definition demo_graph :: active_graph where
  "demo_graph =
     \<lparr>ag_nodes = demo_nodes, ag_edges = demo_edges,
      ag_out = map (\<lambda>i. filter (\<lambda>e. e_source e = i) demo_edges) [0..<4],
      ag_in = map (\<lambda>i. filter (\<lambda>e. e_target e = i) demo_edges) [0..<4],
      ag_indices = (\<lambda>r. find (\<lambda>i. node_ref_of (demo_nodes ! i) = r) [0..<4])\<rparr>"

lemma find_index:
  assumes "distinct (map f xs)"
  shows "find (\<lambda>i. f (xs ! i) = r) [0..<length xs] = Some i \<longleftrightarrow> i < length xs \<and> f (xs ! i) = r"
proof -
  have "f (xs ! j) \<noteq> f (xs ! i)" if "i < length xs" "j < i" for j
    using nth_eq_iff_index_eq [OF assms, of i j] that by auto
  then show ?thesis by (auto simp: find_Some_iff intro!: exI [of _ i])
qed

lemma demo_graph_ok: "graph_ok demo_graph"
proof -
  have len: "length demo_nodes = 4" by (simp add: demo_nodes_def)
  have "distinct (map node_ref_of demo_nodes)" by (simp add: demo_nodes_def node_ref_of_def)
  from find_index [OF this] have "find (\<lambda>i. node_ref_of (demo_nodes ! i) = r) [0..<4] = Some i \<longleftrightarrow>
      i < 4 \<and> node_ref_of (demo_nodes ! i) = r" for r i by (simp only: len)
  moreover have "\<forall>e \<in> set demo_edges. e_source e < 4 \<and> e_target e < 4" by (simp add: demo_edges_def)
  ultimately show ?thesis by (simp add: graph_ok_def demo_graph_def len)
qed

theorem impact_closures_exact_witness:
  "\<exists>down up.
    downstream_impact demo_graph \<lparr>nr_kind = Ingestor, nr_identifier = ''i''\<rparr> = Some down \<and>
    describes demo_graph {j. \<exists>i. ag_indices demo_graph \<lparr>nr_kind = Ingestor, nr_identifier = ''i''\<rparr> = Some i \<and>
      (i, j) \<in> (edge_rel demo_graph propagates_impact_downstream)\<^sup>*} down \<and>
    with_configuration_dependencies demo_graph down = Some up \<and>
    length (it_nodes down) = 3 \<and> length (it_nodes up) = 4"
proof -
  have lengths: "(do { down \<leftarrow> downstream_impact demo_graph \<lparr>nr_kind = Ingestor, nr_identifier = ''i''\<rparr>;
      up \<leftarrow> with_configuration_dependencies demo_graph down; Some (length (it_nodes down), length (it_nodes up)) }) = Some (3, 4)"
    by code_simp
  obtain down where down: "downstream_impact demo_graph \<lparr>nr_kind = Ingestor, nr_identifier = ''i''\<rparr> = Some down"
    "describes demo_graph {j. \<exists>i. ag_indices demo_graph \<lparr>nr_kind = Ingestor, nr_identifier = ''i''\<rparr> = Some i \<and>
      (i, j) \<in> (edge_rel demo_graph propagates_impact_downstream)\<^sup>*} down"
    using impact_closures_exact [OF demo_graph_ok] by blast
  obtain up where "with_configuration_dependencies demo_graph down = Some up"
    using impact_closures_exact [OF demo_graph_ok, where topology = down] by blast
  then show ?thesis using down lengths by (intro exI [of _ down] exI [of _ up]) simp
qed

section \<open>Drops\<close>

lemma distinct_remdups_adj_sorted: "sorted xs \<Longrightarrow> distinct (remdups_adj xs)"
  by (induction xs rule: remdups_adj.induct) (auto simp: dest: antisym)

text \<open>The names of the models that depend on the one at \<open>i\<close> and are not dropped with it.\<close>

definition blocking :: "active_graph \<Rightarrow> node_ref list \<Rightarrow> nat \<Rightarrow> model_name set" where
  "blocking g drops i =
     {an_identifier (ag_nodes g ! j) | j. (i, j) \<in> dependencies g \<and> node_ref_of (ag_nodes g ! j) \<notin> set drops}"

lemma blockers_ok:
  assumes "graph_ok g"
  shows "\<exists>dependents. those (map (\<lambda>e. node_weight g (e_target e))
      (filter (\<lambda>e. is_configuration_dependency (e_kind e)) (out_edges g i))) = Some dependents \<and>
    set (map an_identifier (filter (\<lambda>b. node_ref_of b \<notin> set drops) dependents)) = blocking g drops i"
proof -
  let ?es = "filter (\<lambda>e. is_configuration_dependency (e_kind e)) (out_edges g i)"
  have "those (map (\<lambda>e. node_weight g (e_target e)) ?es) = Some (map (\<lambda>e. ag_nodes g ! e_target e) ?es)"
    by (rule those_Some) (use edge_ends [OF assms] out_edges_set [OF assms, of i] in \<open>auto simp: node_weight_ok\<close>)
  moreover have "set (map an_identifier (filter (\<lambda>b. node_ref_of b \<notin> set drops) (map (\<lambda>e. ag_nodes g ! e_target e) ?es))) =
      blocking g drops i"
    by (force simp: blocking_def edge_rel_def out_edges_set [OF assms])
  ultimately show ?thesis by blast
qed

lemma check_drops_ok:
  assumes "graph_ok g"
  shows "\<exists>r. check_drops g drops keys = Some r \<and>
    (case r of
       Inr _ \<Rightarrow> \<forall>key \<in> set keys. \<forall>i. ag_indices g key = Some i \<longrightarrow> blocking g drops i = {}
     | Inl e \<Rightarrow> \<exists>key \<in> set keys. \<exists>i blockers. ag_indices g key = Some i \<and> e = DeleteInUse (nr_identifier key) blockers \<and>
         blockers \<noteq> [] \<and> sorted blockers \<and> distinct blockers \<and> set blockers = blocking g drops i)"
proof (induction keys)
  case (Cons key keys)
  show ?case
  proof (cases "ag_indices g key")
    case None
    then show ?thesis using Cons by (fastforce split: sum.splits)
  next
    case (Some i)
    obtain dependents where deps: "those (map (\<lambda>e. node_weight g (e_target e))
        (filter (\<lambda>e. is_configuration_dependency (e_kind e)) (out_edges g i))) = Some dependents"
      "set (map an_identifier (filter (\<lambda>b. node_ref_of b \<notin> set drops) dependents)) = blocking g drops i"
      using blockers_ok [OF assms] by blast
    let ?names = "map an_identifier (filter (\<lambda>b. node_ref_of b \<notin> set drops) dependents)"
    let ?blockers = "remdups_adj (sort ?names)"
    have names: "set ?blockers = blocking g drops i" "sorted ?blockers" "distinct ?blockers"
      using deps(2) by (simp_all add: distinct_remdups_adj_sorted)
    show ?thesis
    proof (cases "?blockers = []")
      case True
      then have "blocking g drops i = {}" using names(1) by (metis set_empty)
      then show ?thesis using Cons Some deps(1) True by (fastforce simp: Let_def split: sum.splits)
    next
      case False
      then have "check_drops g drops (key # keys) = Some (Inl (DeleteInUse (nr_identifier key) ?blockers))"
        using Some deps(1) by (simp add: Let_def)
      then show ?thesis using Some False names by (intro exI conjI) (assumption, auto)
    qed
  qed
qed simp

text \<open>
  C39: dropping models in use is refused. The check never panics. It accepts a set of drops exactly when no
  model that stays depends on a dropped one, and otherwise names a dropped model together with the models
  that stay and depend on it, each once and in order.
\<close>

theorem drop_check_exact:
  assumes "graph_ok g"
  shows "\<exists>r. ensure_drop_targets_are_not_in_use g drops = Some r \<and>
    (case r of
       Inr _ \<Rightarrow> \<forall>key \<in> set drops. \<forall>i. ag_indices g key = Some i \<longrightarrow> blocking g drops i = {}
     | Inl e \<Rightarrow> \<exists>key \<in> set drops. \<exists>i blockers. ag_indices g key = Some i \<and> e = DeleteInUse (nr_identifier key) blockers \<and>
         blockers \<noteq> [] \<and> sorted blockers \<and> distinct blockers \<and> set blockers = blocking g drops i)"
  unfolding ensure_drop_targets_are_not_in_use_def by (rule check_drops_ok [OF assms])

theorem drop_check_exact_witness:
  "\<exists>r. ensure_drop_targets_are_not_in_use demo_graph [\<lparr>nr_kind = Relay, nr_identifier = ''r''\<rparr>] = Some r \<and>
    (case r of
       Inr _ \<Rightarrow> False
     | Inl e \<Rightarrow> \<exists>i blockers. ag_indices demo_graph \<lparr>nr_kind = Relay, nr_identifier = ''r''\<rparr> = Some i \<and>
         e = DeleteInUse ''r'' blockers \<and> blockers = [''i'', ''j''] \<and>
         set blockers = blocking demo_graph [\<lparr>nr_kind = Relay, nr_identifier = ''r''\<rparr>] i)"
proof -
  have "ensure_drop_targets_are_not_in_use demo_graph [\<lparr>nr_kind = Relay, nr_identifier = ''r''\<rparr>] =
      Some (Inl (DeleteInUse ''r'' [''i'', ''j'']))" by code_simp
  then show ?thesis
    using drop_check_exact [OF demo_graph_ok, of "[\<lparr>nr_kind = Relay, nr_identifier = ''r''\<rparr>]"] by auto
qed

section \<open>Drawn targets of a node\<close>

definition drawn :: "active_graph \<Rightarrow> nat \<Rightarrow> bool" where
  "drawn g i = is_dataflow_node (ag_nodes g ! i)"

text \<open>A flow edge out of an undrawn node.\<close>

definition undrawn_rel :: "active_graph \<Rightarrow> (nat \<times> nat) set" where
  "undrawn_rel g = {(i, j) \<in> edge_rel g is_visible_dataflow_edge. \<not> drawn g i}"

definition passes :: "active_graph \<Rightarrow> visible_step \<Rightarrow> visible_step set" where
  "passes g step = (if drawn g (fst step) then {} else set (visible_steps g (fst step) (\<lambda>_. snd step)))"

lemma visible_steps_set:
  "graph_ok g \<Longrightarrow> set (visible_steps g i kind) =
     {(e_target e, kind (e_kind e)) | e. e \<in> set (ag_edges g) \<and> e_source e = i \<and> is_visible_dataflow_edge (e_kind e)}"
  by (auto simp: visible_steps_def out_edges_set)

lemma visible_steps_bounded: "graph_ok g \<Longrightarrow> fst ` set (visible_steps g i kind) \<subseteq> {..<length (ag_nodes g)}"
  using edge_ends by (fastforce simp: visible_steps_set)

lemma visible_loop_ok:
  "graph_ok g \<Longrightarrow> searching (passes g) S pending (set visited) \<Longrightarrow> fst ` set pending \<subseteq> {..<length (ag_nodes g)} \<Longrightarrow>
    distinct targets \<Longrightarrow> set targets = {s \<in> set visited. drawn g (fst s)} \<Longrightarrow>
    \<exists>ts. visible_loop g pending visited targets = Some ts \<and> distinct ts \<and>
      set ts = {s \<in> {(x, y). y \<in> passes g x}\<^sup>* `` S. drawn g (fst s)}"
proof (induction g pending visited targets rule: visible_loop.induct)
  case (1 g visited targets)
  then show ?case using search_end by fastforce
next
  case (2 g step pending visited targets)
  show ?case
  proof (cases "step \<in> set visited")
    case True
    have "fst ` set pending \<subseteq> {..<length (ag_nodes g)}" using 2(6) by simp
    then show ?thesis using 2(1) [OF True 2(4) search_skip [OF 2(5) True] _ 2(7,8)] True by simp
  next
    case False
    let ?node = "ag_nodes g ! fst step"
    have node: "node_weight g (fst step) = Some ?node" using 2(6) by (simp add: node_weight_ok)
    have bounded: "fst ` set pending \<subseteq> {..<length (ag_nodes g)}" using 2(6) by simp
    show ?thesis
    proof (cases "is_dataflow_node ?node")
      case True
      then have "set [] = passes g step" by (simp add: passes_def drawn_def)
      then have "searching (passes g) S pending (set (step # visited))" using search_visit [OF 2(5)] by fastforce
      moreover have "distinct (targets @ [step])" using False 2(7,8) by simp
      moreover have "set (targets @ [step]) = {s \<in> set (step # visited). drawn g (fst s)}"
        using True 2(8) by (auto simp: drawn_def)
      ultimately show ?thesis using 2(2) [OF False node True 2(4) _ bounded] False node True by simp
    next
      case undrawn: False
      let ?next = "rev (visible_steps g (fst step) (\<lambda>_. snd step))"
      have "set ?next = passes g step" using undrawn by (simp add: passes_def drawn_def)
      then have "searching (passes g) S (?next @ pending) (set (step # visited))" using search_visit [OF 2(5)] by fastforce
      moreover have "fst ` set (?next @ pending) \<subseteq> {..<length (ag_nodes g)}"
        using bounded visible_steps_bounded [OF 2(4)] by (simp add: image_Un)
      moreover have "set targets = {s \<in> set (step # visited). drawn g (fst s)}"
        using undrawn 2(8) by (auto simp: drawn_def)
      ultimately show ?thesis using 2(3) [OF False node undrawn 2(4) _ _ 2(7)] False node undrawn by simp
    qed
  qed
qed

lemma passes_star:
  assumes "graph_ok g"
  shows "((i, k), (j, k')) \<in> {(x, y). y \<in> passes g x}\<^sup>* \<longleftrightarrow> k' = k \<and> (i, j) \<in> (undrawn_rel g)\<^sup>*"
proof
  have step: "(j, k') \<in> passes g (i, k) \<longleftrightarrow> k' = k \<and> (i, j) \<in> undrawn_rel g" for i j k k'
    by (auto simp: passes_def visible_steps_set [OF assms] undrawn_rel_def edge_rel_def)
  show "k' = k \<and> (i, j) \<in> (undrawn_rel g)\<^sup>*" if "((i, k), (j, k')) \<in> {(x, y). y \<in> passes g x}\<^sup>*"
    using that by (induction "(j, k')" arbitrary: j k' rule: rtrancl_induct)
      (auto simp: step intro: rtrancl_into_rtrancl)
  show "((i, k), (j, k')) \<in> {(x, y). y \<in> passes g x}\<^sup>*" if "k' = k \<and> (i, j) \<in> (undrawn_rel g)\<^sup>*"
  proof -
    have "(i, j) \<in> (undrawn_rel g)\<^sup>*" and k: "k' = k" using that by simp_all
    from this(1) show ?thesis unfolding k
      by (induction rule: rtrancl_induct) (auto simp: step intro: rtrancl_into_rtrancl)
  qed
qed

text \<open>
  C40: the drawn targets of a node are exact. The search never panics, and returns, each once, the drawn
  nodes that a flow edge out of the node reaches through undrawn nodes only, each with the kind of that
  first edge.
\<close>

theorem visible_targets_exact:
  assumes "graph_ok g"
  shows "\<exists>ts. visible_dataflow_targets g source = Some ts \<and> distinct ts \<and>
    set ts = {(j, e_kind e) | j e. e \<in> set (ag_edges g) \<and> e_source e = source \<and> is_visible_dataflow_edge (e_kind e) \<and>
      (e_target e, j) \<in> (undrawn_rel g)\<^sup>* \<and> drawn g j}"
proof -
  let ?start = "rev (visible_steps g source (\<lambda>k. k))"
  have "fst ` set ?start \<subseteq> {..<length (ag_nodes g)}" using visible_steps_bounded [OF assms] by simp
  then obtain ts where ts: "visible_loop g ?start [] [] = Some ts" "distinct ts"
    "set ts = {s \<in> {(x, y). y \<in> passes g x}\<^sup>* `` set ?start. drawn g (fst s)}"
    using visible_loop_ok [OF assms, of "set ?start" ?start "[]" "[]"] search_start [of "passes g" ?start] by auto
  have "set ts = {(j, e_kind e) | j e. e \<in> set (ag_edges g) \<and> e_source e = source \<and> is_visible_dataflow_edge (e_kind e) \<and>
      (e_target e, j) \<in> (undrawn_rel g)\<^sup>* \<and> drawn g j}"
    unfolding ts(3) set_rev visible_steps_set [OF assms] by (force simp: Image_def passes_star [OF assms])
  then show ?thesis using ts(1,2) unfolding visible_dataflow_targets_def by blast
qed

theorem visible_targets_exact_witness:
  "\<exists>ts. visible_dataflow_targets demo_graph 1 = Some ts \<and> ts = [(2, SendsTo)] \<and>
    set ts = {(j, e_kind e) | j e. e \<in> set (ag_edges demo_graph) \<and> e_source e = 1 \<and> is_visible_dataflow_edge (e_kind e) \<and>
      (e_target e, j) \<in> (undrawn_rel demo_graph)\<^sup>* \<and> drawn demo_graph j}"
proof -
  have "visible_dataflow_targets demo_graph 1 = Some [(2, SendsTo)]" by code_simp
  then show ?thesis using visible_targets_exact [OF demo_graph_ok, of 1] by simp
qed

end
