(* ===== verification/Creation_Order.thy ===== *)
theory Creation_Order
  imports Active_Graph
begin

text \<open>
  The order a domain's models can be created in (src/registry/creation_order.rs), and the refusal of a
  configuration cycle (src/registry/graph.rs). The set of ready models is a sorted list, as the
  \<open>BTreeSet\<close> iterates it; petgraph's cycle test is a parameter.
\<close>

section \<open>Ranks and ready models\<close>

fun creation_rank :: "model_kind \<Rightarrow> nat" where
  "creation_rank Schema = 0"
| "creation_rank WireJsonSchema = 1"
| "creation_rank WireCborSchema = 2"
| "creation_rank WireAvroSchema = 3"
| "creation_rank Codec = 4"
| "creation_rank SignalingProtocol = 5"
| "creation_rank Client = 6"
| "creation_rank Vhost = 7"
| "creation_rank Endpoint = 8"
| "creation_rank Branch = 9"
| "creation_rank Udf = 10"
| "creation_rank Lookup = 11"
| "creation_rank Relay = 12"
| "creation_rank Ingestor = 13"
| "creation_rank Reingestor = 14"
| "creation_rank Generator = 15"
| "creation_rank Junction = 16"
| "creation_rank Deduplicator = 17"
| "creation_rank Correlator = 18"
| "creation_rank Reorderer = 19"
| "creation_rank WindowProcessor = 20"
| "creation_rank Inferencer = 21"
| "creation_rank WasmProcessor = 22"
| "creation_rank Emitter = 23"
| "creation_rank Placement = 24"

text \<open>Rank, name and index, compared in this order.\<close>

type_synonym ready_entry = "nat \<times> model_name \<times> nat"

definition ready_model :: "active_graph \<Rightarrow> nat \<Rightarrow> ready_entry panics" where
  "ready_model g i = do {
     node \<leftarrow> node_weight g i;
     Some (creation_rank (an_kind node), an_identifier node, i)
   }"

definition node_ref_at :: "active_graph \<Rightarrow> nat \<Rightarrow> node_ref panics" where
  "node_ref_at g i = map_option node_ref_of (node_weight g i)"

definition tree_insert :: "'a::linorder \<Rightarrow> 'a list \<Rightarrow> 'a list" where
  "tree_insert x xs = (if x \<in> set xs then xs else insort x xs)"

section \<open>The order\<close>

definition configuration_edges :: "edge list \<Rightarrow> edge list" where
  "configuration_edges es = filter (\<lambda>e. is_configuration_dependency (e_kind e)) es"

text \<open>Releasing the dependents of a model that was just created. One that waits for nothing more is ready.\<close>

definition mark_ready :: "active_graph \<Rightarrow> nat \<Rightarrow> nat \<Rightarrow> ready_entry list \<Rightarrow> ready_entry list panics" where
  "mark_ready g dependent remaining ready =
     (if remaining = 0 then map_option (\<lambda>m. tree_insert m ready) (ready_model g dependent) else Some ready)"

fun release :: "active_graph \<Rightarrow> edge list \<Rightarrow> nat list \<Rightarrow> ready_entry list \<Rightarrow> (nat list \<times> ready_entry list) panics" where
  "release g [] waiting ready = Some (waiting, ready)"
| "release g (e # es) waiting ready =
     (if \<not> is_configuration_dependency (e_kind e) then release g es waiting ready
      else do {
        remaining \<leftarrow> elem_at waiting (e_target e);
        remaining \<leftarrow> checked_sub remaining 1;
        ready' \<leftarrow> mark_ready g (e_target e) remaining ready;
        release g es (waiting[e_target e := remaining]) ready'
      })"

lemma length_tree_insert: "length (tree_insert x xs) \<le> length xs + 1"
  by (simp add: tree_insert_def)

lemma release_shrinks:
  "release g es waiting ready = Some (waiting', ready') \<Longrightarrow>
     sum_list waiting' + length ready' \<le> sum_list waiting + length ready"
proof (induction es arbitrary: waiting ready)
  case (Cons e es)
  show ?case
  proof (cases "is_configuration_dependency (e_kind e)")
    case True
    let ?t = "e_target e"
    obtain r next_ready where step: "e_target e < length waiting" "checked_sub (waiting ! ?t) 1 = Some r"
      "mark_ready g ?t r ready = Some next_ready"
      and "release g es (waiting[?t := r]) next_ready = Some (waiting', ready')"
      using Cons.prems True by (auto simp: bind_eq_Some_conv elem_at_def split: if_splits)
    then have rest: "release g es (waiting[?t := waiting ! ?t - 1]) next_ready = Some (waiting', ready')"
      by (simp add: panic_simps)
    have t: "?t < length waiting" "0 < waiting ! ?t" using step(1,2) by (auto simp: panic_simps)
    have ready: "length next_ready \<le> length ready + 1" 
      using step(3) length_tree_insert by (auto simp: mark_ready_def split: if_splits)
    have "sum_list (waiting[?t := waiting ! ?t - 1]) + 1 = sum_list waiting"
      using t elem_le_sum_list [OF t(1)] by (simp add: sum_list_update)
    then show ?thesis using Cons.IH [OF rest] ready by linarith
  next
    case False
    then show ?thesis using Cons by simp
  qed
qed simp

text \<open>The loop over the ready models, least first.\<close>

function create_loop ::
  "active_graph \<Rightarrow> nat list \<Rightarrow> ready_entry list \<Rightarrow> node_ref list \<Rightarrow> node_ref list panics" where
  "create_loop g waiting [] order = Some order"
| "create_loop g waiting (m # ready) order = do {
     created \<leftarrow> node_ref_at g (snd (snd m));
     (waiting', ready') \<leftarrow> release g (out_edges g (snd (snd m))) waiting ready;
     create_loop g waiting' ready' (order @ [created])
   }"
  by pat_completeness auto
termination
  by (relation "measure (\<lambda>(g, waiting, ready, order). sum_list waiting + length ready)")
    (auto dest: release_shrinks)

definition creation_order_of :: "active_graph \<Rightarrow> node_ref list option panics" where
  "creation_order_of g = do {
     let waiting = map (\<lambda>i. length (configuration_edges (in_edges g i))) [0..<length (ag_nodes g)];
     models \<leftarrow> those (map (ready_model g) (filter (\<lambda>i. waiting ! i = 0) [0..<length (ag_nodes g)]));
     order \<leftarrow> create_loop g waiting (fold tree_insert models []) [];
     Some (if length order \<noteq> length (ag_nodes g) then None else Some order)
   }"

definition creation_order :: "('s \<Rightarrow> registry_error + active_graph) \<Rightarrow> 's \<Rightarrow> (registry_error + node_ref list) panics" where
  "creation_order from_scheduled_models schedule =
     (case from_scheduled_models schedule of
        Inl e \<Rightarrow> Some (Inl e)
      | Inr graph \<Rightarrow> map_option
          (\<lambda>r. case r of Some order \<Rightarrow> Inr order | None \<Rightarrow> Inl ConfigurationCycle) (creation_order_of graph))"

text \<open>\<open>has_required_by_cycle\<close>: the configuration edges of the graph, given to petgraph's cycle test.\<close>

definition has_required_by_cycle :: "(nat \<Rightarrow> (nat \<times> nat) list \<Rightarrow> bool) \<Rightarrow> active_graph \<Rightarrow> bool" where
  "has_required_by_cycle is_cyclic_directed g =
     is_cyclic_directed (length (ag_nodes g)) (map (\<lambda>e. (e_source e, e_target e)) (configuration_edges (ag_edges g)))"

section \<open>The loop invariant\<close>

definition model_at :: "active_graph \<Rightarrow> nat \<Rightarrow> ready_entry" where
  "model_at g i = (creation_rank (an_kind (ag_nodes g ! i)), an_identifier (ag_nodes g ! i), i)"

text \<open>The number of configuration edges into \<open>t\<close> among \<open>es\<close>, and of those from models not created yet.\<close>

definition into :: "edge list \<Rightarrow> nat \<Rightarrow> nat" where
  "into es t = length (filter (\<lambda>e. is_configuration_dependency (e_kind e) \<and> e_target e = t) es)"

definition missing :: "active_graph \<Rightarrow> nat set \<Rightarrow> nat \<Rightarrow> nat" where
  "missing g D t = into (filter (\<lambda>e. e_source e \<notin> D) (ag_edges g)) t"

text \<open>\<open>es\<close> are the edges out of the last created model that are still to be released.\<close>

definition creating :: "active_graph \<Rightarrow> nat set \<Rightarrow> edge list \<Rightarrow> nat list \<Rightarrow> ready_entry list \<Rightarrow> bool" where
  "creating g D es waiting ready \<longleftrightarrow>
     D \<subseteq> {..<length (ag_nodes g)} \<and> length waiting = length (ag_nodes g) \<and>
     (\<forall>t < length (ag_nodes g). waiting ! t = missing g D t + into es t) \<and> (\<forall>t \<in> D. waiting ! t = 0) \<and>
     sorted ready \<and> distinct ready \<and> set ready = model_at g ` {t. t < length (ag_nodes g) \<and> t \<notin> D \<and> waiting ! t = 0}"

lemma model_at_inj [simp]: "model_at g i = model_at g j \<longleftrightarrow> i = j"
  by (auto simp: model_at_def)

lemma snd_model_at [simp]: "snd (snd (model_at g i)) = i"
  by (simp add: model_at_def)

lemma ready_model_ok: "i < length (ag_nodes g) \<Longrightarrow> ready_model g i = Some (model_at g i)"
  by (simp add: ready_model_def node_weight_ok model_at_def)

lemma tree_insert_ok:
  "sorted xs \<Longrightarrow> distinct xs \<Longrightarrow>
     sorted (tree_insert x xs) \<and> distinct (tree_insert x xs) \<and> set (tree_insert x xs) = insert x (set xs)"
  by (auto simp: tree_insert_def sorted_insort distinct_insort set_insort_key)

lemma into_Cons: "into (e # es) t = (if is_configuration_dependency (e_kind e) \<and> e_target e = t then 1 else 0) + into es t"
  by (simp add: into_def)

lemma release_ok:
  "creating g D es waiting ready \<Longrightarrow> (\<forall>e \<in> set es. e_target e < length (ag_nodes g)) \<Longrightarrow>
     \<exists>waiting' ready'. release g es waiting ready = Some (waiting', ready') \<and> creating g D [] waiting' ready'"
proof (induction es arbitrary: waiting ready)
  case (Cons e es)
  show ?case
  proof (cases "is_configuration_dependency (e_kind e)")
    case False
    then have "creating g D es waiting ready" using Cons.prems(1) by (simp add: creating_def into_Cons)
    then show ?thesis using Cons False by simp
  next
    case True
    let ?t = "e_target e" 
    define r where "r = waiting ! e_target e - 1"
    let ?waiting = "waiting[e_target e := r]"
    have t: "?t < length (ag_nodes g)" using Cons.prems(2) by simp
    have pos: "0 < waiting ! ?t" using Cons.prems(1) t True by (simp add: creating_def into_Cons)
    then have notin: "?t \<notin> D" using Cons.prems(1) by (auto simp: creating_def)
    let ?ready = "if r = 0 then tree_insert (model_at g ?t) ready else ready"
    have old: "length waiting = length (ag_nodes g)" "sorted ready" "distinct ready"
      "set ready = model_at g ` {u. u < length (ag_nodes g) \<and> u \<notin> D \<and> waiting ! u = 0}"
      "\<forall>u < length (ag_nodes g). waiting ! u = missing g D u + into (e # es) u" "\<forall>u \<in> D. waiting ! u = 0"
      "D \<subseteq> {..<length (ag_nodes g)}"
      using Cons.prems(1) unfolding creating_def by blast+
    have get: "?waiting ! u = (if u = ?t then r else waiting ! u)" if "u < length (ag_nodes g)" for u
      using that old(1) by (simp add: nth_list_update)
    have counts: "\<forall>u < length (ag_nodes g). ?waiting ! u = missing g D u + into es u"
    proof (intro allI impI)
      fix u assume u: "u < length (ag_nodes g)"
      have "waiting ! u = missing g D u + into (e # es) u" using old(5) u by blast
      moreover have "waiting ! ?t = Suc r" using pos by (simp add: r_def)
      ultimately show "?waiting ! u = missing g D u + into es u" using True by (auto simp: get [OF u] into_Cons)
    qed
    have zero: "\<forall>u \<in> D. ?waiting ! u = 0" using old(6) notin by (metis nth_list_update_neq)
    have "{u. u < length (ag_nodes g) \<and> u \<notin> D \<and> ?waiting ! u = 0} =
        (if r = 0 then insert ?t else id) {u. u < length (ag_nodes g) \<and> u \<notin> D \<and> waiting ! u = 0}"
      using t notin pos old(1) by (auto simp: nth_list_update split: if_splits)
    then have "sorted ?ready \<and> distinct ?ready \<and>
        set ?ready = model_at g ` {u. u < length (ag_nodes g) \<and> u \<notin> D \<and> ?waiting ! u = 0}"
      using tree_insert_ok [OF old(2,3)] old(2-4) by simp
    then have "creating g D es ?waiting ?ready"
      unfolding creating_def using old(1,7) counts zero by simp
    moreover have "mark_ready g ?t (r) ready = Some ?ready" by (simp add: mark_ready_def ready_model_ok t)
    ultimately show ?thesis
      using Cons.IH [of ?waiting ?ready] Cons.prems(2) True t old(1) pos by (simp add: elem_at_def checked_sub_def r_def)
  qed
qed (auto simp: creating_def)

lemma into_out_edges:
  assumes "graph_ok g"
  shows "into (out_edges g x) t = into (filter (\<lambda>e. e_source e = x) (ag_edges g)) t"
proof -
  have "mset (out_edges g x) = mset (filter (\<lambda>e. e_source e = x) (ag_edges g))"
    by (simp add: out_edges_mset [OF assms])
  then have "mset (filter P (out_edges g x)) = mset (filter P (filter (\<lambda>e. e_source e = x) (ag_edges g)))" for P
    by (simp only: mset_filter)
  then show ?thesis unfolding into_def by (rule mset_eq_length)
qed

lemma into_partition:
  "x \<notin> D \<Longrightarrow> into (filter (\<lambda>e. e_source e \<notin> D) es) t =
     into (filter (\<lambda>e. e_source e \<notin> insert x D) es) t + into (filter (\<lambda>e. e_source e = x) es) t"
  by (induction es) (auto simp: into_def)

lemma missing_insert:
  "graph_ok g \<Longrightarrow> x \<notin> D \<Longrightarrow> missing g D t = missing g (insert x D) t + into (out_edges g x) t"
  by (simp add: missing_def into_out_edges into_partition)

lemma missing_zero: "missing g D t = 0 \<longleftrightarrow> (\<forall>s. (s, t) \<in> dependencies g \<longrightarrow> s \<in> D)"
  by (auto simp: missing_def into_def filter_empty_conv edge_rel_def)

text \<open>The next model of the order: ready, and least among the ready ones.\<close>

definition chosen :: "active_graph \<Rightarrow> nat set \<Rightarrow> nat \<Rightarrow> bool" where
  "chosen g D x \<longleftrightarrow> x < length (ag_nodes g) \<and> x \<notin> D \<and> (\<forall>s. (s, x) \<in> dependencies g \<longrightarrow> s \<in> D) \<and>
     (\<forall>t < length (ag_nodes g). t \<notin> D \<and> (\<forall>s. (s, t) \<in> dependencies g \<longrightarrow> s \<in> D) \<longrightarrow> model_at g x \<le> model_at g t)"

lemma pop_ok:
  assumes "graph_ok g" and "creating g D [] waiting (m # ready)"
  obtains x where "m = model_at g x" and "chosen g D x" and "creating g (insert x D) (out_edges g x) waiting ready"
proof -
  have inv: "D \<subseteq> {..<length (ag_nodes g)}" "length waiting = length (ag_nodes g)"
    "\<forall>t < length (ag_nodes g). waiting ! t = missing g D t" "\<forall>t \<in> D. waiting ! t = 0" "sorted (m # ready)" "distinct (m # ready)"
    "set (m # ready) = model_at g ` {t. t < length (ag_nodes g) \<and> t \<notin> D \<and> waiting ! t = 0}"
    using assms(2) by (simp_all add: creating_def into_def)
  obtain x where x: "m = model_at g x" "x < length (ag_nodes g)" "x \<notin> D" "waiting ! x = 0" using inv(7) by auto
  have least: "m \<le> model_at g t" if "t < length (ag_nodes g)" "t \<notin> D" "waiting ! t = 0" for t
  proof -
    have "model_at g t \<in> set (m # ready)" unfolding inv(7) using that by blast
    then show ?thesis using inv(5) by auto
  qed
  have waits: "waiting ! t = 0 \<longleftrightarrow> (\<forall>s. (s, t) \<in> dependencies g \<longrightarrow> s \<in> D)" if "t < length (ag_nodes g)" for t
    using inv(3) that missing_zero [of g D t] by simp
  have "\<forall>s. (s, x) \<in> dependencies g \<longrightarrow> s \<in> D" using waits [OF x(2)] x(4) by simp
  moreover have "\<forall>t < length (ag_nodes g). t \<notin> D \<and> (\<forall>s. (s, t) \<in> dependencies g \<longrightarrow> s \<in> D) \<longrightarrow> model_at g x \<le> model_at g t"
    using least waits unfolding x(1) by blast
  ultimately have chosen: "chosen g D x" using x(2,3) unfolding chosen_def by blast
  let ?T = "{t. t < length (ag_nodes g) \<and> t \<notin> D \<and> waiting ! t = 0}"
  have "insert m (set ready) = model_at g ` ?T" "m \<notin> set ready" using inv(6,7) by simp_all
  then have "set ready = model_at g ` ?T - {model_at g x}" unfolding x(1) by blast
  also have "\<dots> = model_at g ` (?T - {x})" by auto
  also have "?T - {x} = {t. t < length (ag_nodes g) \<and> t \<notin> insert x D \<and> waiting ! t = 0}" by blast
  finally have "creating g (insert x D) (out_edges g x) waiting ready"
    using inv(1-6) x missing_insert [OF assms(1) x(3)] by (simp add: creating_def)
  then show ?thesis using that x(1) chosen by blast
qed

inductive built :: "active_graph \<Rightarrow> nat list \<Rightarrow> bool" for g where
  built_none: "built g []"
| built_next: "built g is \<Longrightarrow> chosen g (set is) x \<Longrightarrow> built g (is @ [x])"

lemma create_loop_ok:
  "graph_ok g \<Longrightarrow> creating g (set is) [] waiting ready \<Longrightarrow> built g is \<Longrightarrow> order = map (\<lambda>i. node_ref_of (ag_nodes g ! i)) is \<Longrightarrow>
     \<exists>created. create_loop g waiting ready order = Some (map (\<lambda>i. node_ref_of (ag_nodes g ! i)) created) \<and> built g created \<and>
       (\<forall>t < length (ag_nodes g). t \<notin> set created \<longrightarrow> missing g (set created) t \<noteq> 0)"
proof (induction g waiting ready order arbitrary: "is" rule: create_loop.induct)
  case (1 g waiting order)
  have "\<forall>t < length (ag_nodes g). t \<notin> set is \<longrightarrow> missing g (set is) t \<noteq> 0"
    using 1(2) by (auto simp: creating_def into_def)
  then show ?case using 1 by auto
next
  case (2 g waiting m ready order)
  obtain x where x: "m = model_at g x" "chosen g (set is) x" "creating g (insert x (set is)) (out_edges g x) waiting ready"
    using pop_ok [OF 2(2,3)] by blast
  have "\<forall>e \<in> set (out_edges g x). e_target e < length (ag_nodes g)"
    using edge_ends [OF 2(2)] out_edges_set [OF 2(2)] by auto
  then obtain waiting' ready' where rel: "release g (out_edges g x) waiting ready = Some (waiting', ready')"
    "creating g (set (is @ [x])) [] waiting' ready'"
    using release_ok [OF x(3)] by auto
  have ref: "node_ref_at g (snd (snd m)) = Some (node_ref_of (ag_nodes g ! x))"
    using x(1,2) by (simp add: node_ref_at_def node_weight_ok chosen_def)
  have "built g (is @ [x])" using built_next 2(4) x(2) by blast
  then show ?case
    using 2(1) [OF ref _ _ 2(2) rel(2)] rel(1) x(1) ref 2(5) by simp
qed

section \<open>The order is complete exactly without a cycle\<close>

lemma built_distinct: "built g is \<Longrightarrow> distinct is \<and> set is \<subseteq> {..<length (ag_nodes g)}"
  by (induction rule: built.induct) (auto simp: chosen_def)

lemma built_chosen: "built g is \<Longrightarrow> k < length is \<Longrightarrow> chosen g (set (take k is)) (is ! k)"
  by (induction rule: built.induct) (auto simp: nth_append less_Suc_eq)

lemma built_acyclic:
  assumes "graph_ok g" and "built g is" and "set is = {..<length (ag_nodes g)}"
  shows "acyclic (dependencies g)"
proof -
  have "\<forall>i \<in> set is. \<exists>k < length is. is ! k = i" by (simp add: in_set_conv_nth)
  then obtain pos where pos: "\<forall>i \<in> set is. pos i < length is \<and> is ! pos i = i" by metis
  have "pos s < pos t" if dep: "(s, t) \<in> dependencies g" for s t
  proof -
    have t: "t \<in> set is" using dep edge_rel_bounded [OF assms(1)] assms(3) by auto
    then have "chosen g (set (take (pos t) is)) t" using built_chosen [OF assms(2), of "pos t"] pos by simp
    then have "s \<in> set (take (pos t) is)" using dep unfolding chosen_def by blast
    then obtain j where j: "j < pos t" "j < length is" "s = is ! j" by (auto simp: in_set_conv_nth)
    then have "pos s = j" using pos built_distinct [OF assms(2)] nth_eq_iff_index_eq [of "is" "pos s" j] by simp
    then show ?thesis using j(1) by simp
  qed
  then show ?thesis by (intro acyclicI_order [where f = "\<lambda>i. - int (pos i)"]) simp
qed

lemma stuck_cyclic:
  assumes "graph_ok g" and "D \<subseteq> {..<length (ag_nodes g)}" and "D \<noteq> {..<length (ag_nodes g)}"
    and "\<forall>t < length (ag_nodes g). t \<notin> D \<longrightarrow> missing g D t \<noteq> 0"
  shows "\<not> acyclic (dependencies g)"
proof
  assume "acyclic (dependencies g)"
  moreover have "finite (dependencies g)"
    using edge_rel_bounded [OF assms(1)] by (rule finite_subset) simp
  ultimately have "wf (dependencies g)" by (rule finite_acyclic_wf [rotated])
  moreover obtain u where "u \<in> {..<length (ag_nodes g)} - D" using assms(2,3) by blast
  ultimately obtain z where z: "z \<in> {..<length (ag_nodes g)} - D"
    "\<And>s. (s, z) \<in> dependencies g \<Longrightarrow> s \<notin> {..<length (ag_nodes g)} - D" by (rule wfE_min) blast
  have "missing g D z = 0"
    unfolding missing_zero using z(2) edge_rel_bounded [OF assms(1)] by blast
  then show False using assms(4) z(1) by auto
qed

lemma fold_tree_insert:
  "sorted xs \<Longrightarrow> distinct xs \<Longrightarrow> sorted (fold tree_insert ms xs) \<and> distinct (fold tree_insert ms xs) \<and>
     set (fold tree_insert ms xs) = set ms \<union> set xs"
proof (induction ms arbitrary: xs)
  case (Cons m ms)
  then show ?case using Cons.IH [of "tree_insert m xs"] tree_insert_ok [of xs m] by simp
qed simp

lemma waiting_is_missing:
  assumes "graph_ok g"
  shows "length (configuration_edges (in_edges g t)) = missing g {} t"
proof -
  have "mset (configuration_edges (in_edges g t)) =
      mset (filter (\<lambda>e. is_configuration_dependency (e_kind e) \<and> e_target e = t) (ag_edges g))"
    by (simp add: configuration_edges_def in_edges_mset [OF assms] filter_filter_mset conj_commute)
  then show ?thesis unfolding missing_def into_def by (simp add: mset_eq_length)
qed

lemma creation_order_of_ok:
  assumes "graph_ok g"
  shows "\<exists>created r. creation_order_of g = Some r \<and> built g created \<and>
    (if acyclic (dependencies g)
     then set created = {..<length (ag_nodes g)} \<and> r = Some (map (\<lambda>i. node_ref_of (ag_nodes g ! i)) created) else r = None)"
proof -
  let ?n = "length (ag_nodes g)"
  define waiting where "waiting = map (\<lambda>i. length (configuration_edges (in_edges g i))) [0..<?n]"
  define zero where "zero = filter (\<lambda>i. waiting ! i = 0) [0..<?n]"
  define ready where "ready = fold tree_insert (map (model_at g) zero) []"
  have models: "those (map (ready_model g) zero) = Some (map (model_at g) zero)"
    by (rule those_Some) (simp add: ready_model_ok zero_def)
  have counts: "length waiting = ?n" "\<forall>t < ?n. waiting ! t = missing g {} t"
    by (simp_all add: waiting_def waiting_is_missing [OF assms])
  have "set zero = {t. t < ?n \<and> waiting ! t = 0}" by (auto simp: zero_def)
  then have "sorted ready" "distinct ready" "set ready = model_at g ` {t. t < ?n \<and> waiting ! t = 0}"
    using fold_tree_insert [of "[]" "map (model_at g) zero"] by (simp_all add: ready_def)
  then have "creating g (set []) [] waiting ready" using counts by (simp add: creating_def into_def)
  from create_loop_ok [OF assms this built_none]
  obtain created where created: "create_loop g waiting ready [] = Some (map (\<lambda>i. node_ref_of (ag_nodes g ! i)) created)"
    "built g created" "\<forall>t < ?n. t \<notin> set created \<longrightarrow> missing g (set created) t \<noteq> 0"
    by auto
  have dist: "distinct created" "set created \<subseteq> {..<?n}" using built_distinct [OF created(2)] by simp_all
  then have full: "length created = ?n \<longleftrightarrow> set created = {..<?n}"
    by (metis card_lessThan card_subset_eq distinct_card finite_lessThan)
  have "set created = {..<?n} \<longleftrightarrow> acyclic (dependencies g)"
    using built_acyclic [OF assms created(2)] stuck_cyclic [OF assms dist(2) _ created(3)] by blast
  then show ?thesis
    using models created(1,2) full
    by (intro exI [of _ created]) (simp add: creation_order_of_def Let_def waiting_def [symmetric] zero_def [symmetric] ready_def [symmetric])
qed

section \<open>Properties\<close>

text \<open>
  C8: the creation order never panics. It is absent exactly when the configuration dependencies have a
  cycle. Otherwise it lists every model once, each after every model it depends on, and each time the
  least, by rank and then by name, of the models whose dependencies were all listed before.
\<close>

theorem creation_order_topological:
  assumes "graph_ok g"
  shows "\<exists>r. creation_order_of g = Some r \<and>
    (case r of
       None \<Rightarrow> \<not> acyclic (dependencies g)
     | Some order \<Rightarrow> acyclic (dependencies g) \<and>
         (\<exists>is. order = map (\<lambda>i. node_ref_of (ag_nodes g ! i)) is \<and> distinct is \<and> set is = {..<length (ag_nodes g)} \<and>
           (\<forall>k < length is. chosen g (set (take k is)) (is ! k))))"
proof -
  obtain created r where r: "creation_order_of g = Some r" "built g created"
    "if acyclic (dependencies g)
     then set created = {..<length (ag_nodes g)} \<and> r = Some (map (\<lambda>i. node_ref_of (ag_nodes g ! i)) created) else r = None"
    using creation_order_of_ok [OF assms] by blast
  then show ?thesis
    using built_distinct [OF r(2)] built_chosen [OF r(2)] by (cases "acyclic (dependencies g)") auto
qed

theorem creation_order_topological_witness:
  "\<exists>r. creation_order_of demo_graph = Some r \<and>
    r = Some (map (\<lambda>(k, n). \<lparr>nr_kind = k, nr_identifier = n\<rparr>) [(Schema, ''s''), (Relay, ''r''), (Ingestor, ''i''), (Junction, ''j'')]) \<and>
    (case r of
       None \<Rightarrow> False
     | Some order \<Rightarrow> acyclic (dependencies demo_graph))"
proof -
  have "creation_order_of demo_graph =
    Some (Some (map (\<lambda>(k, n). \<lparr>nr_kind = k, nr_identifier = n\<rparr>) [(Schema, ''s''), (Relay, ''r''), (Ingestor, ''i''), (Junction, ''j'')]))"
    by code_simp
  then show ?thesis using creation_order_topological [OF demo_graph_ok] by auto
qed

text \<open>
  C37: the registry's cycle test decides whether a domain's models can be ordered. With a cycle test that
  tells whether a directed graph has a cycle, ordering the models of a built graph fails exactly with the
  configuration-cycle error, and exactly for the graphs the cycle test refuses.
\<close>

theorem cycle_test_decides_order:
  assumes "\<And>n es. is_cyclic_directed n es \<longleftrightarrow> \<not> acyclic (set es)"
    and "from_scheduled_models schedule = Inr g" and "graph_ok g"
  shows "\<exists>r. creation_order from_scheduled_models schedule = Some r \<and>
    (case r of Inl e \<Rightarrow> e = ConfigurationCycle \<and> has_required_by_cycle is_cyclic_directed g
     | Inr order \<Rightarrow> \<not> has_required_by_cycle is_cyclic_directed g \<and> length order = length (ag_nodes g))"
proof -
  have "set (map (\<lambda>e. (e_source e, e_target e)) (configuration_edges (ag_edges g))) = dependencies g"
    by (auto simp: configuration_edges_def edge_rel_def)
  then have test: "has_required_by_cycle is_cyclic_directed g \<longleftrightarrow> \<not> acyclic (dependencies g)"
    using assms(1) by (simp add: has_required_by_cycle_def)
  obtain created r where r: "creation_order_of g = Some r" "built g created"
    "if acyclic (dependencies g)
     then set created = {..<length (ag_nodes g)} \<and> r = Some (map (\<lambda>i. node_ref_of (ag_nodes g ! i)) created) else r = None"
    using creation_order_of_ok [OF assms(3)] by blast
  have "length created = length (ag_nodes g)" if "set created = {..<length (ag_nodes g)}"
    using that built_distinct [OF r(2)] distinct_card [of created] by simp
  then show ?thesis
    using r(1,3) assms(2) test by (cases "acyclic (dependencies g)") (auto simp: creation_order_def)
qed

text \<open>A domain whose two relays depend on each other.\<close>

definition cyclic_graph :: active_graph where
  "cyclic_graph =
     \<lparr>ag_nodes = map (\<lambda>name. \<lparr>an_identifier = name, an_kind = Relay, an_model = Relay, an_branch = None, an_resolved = False\<rparr>) [''a'', ''b''],
      ag_edges = [\<lparr>e_source = 0, e_target = 1, e_kind = RequiredBy\<rparr>, \<lparr>e_source = 1, e_target = 0, e_kind = RequiredBy\<rparr>],
      ag_out = [[\<lparr>e_source = 0, e_target = 1, e_kind = RequiredBy\<rparr>], [\<lparr>e_source = 1, e_target = 0, e_kind = RequiredBy\<rparr>]],
      ag_in = [[\<lparr>e_source = 1, e_target = 0, e_kind = RequiredBy\<rparr>], [\<lparr>e_source = 0, e_target = 1, e_kind = RequiredBy\<rparr>]],
      ag_indices = (\<lambda>r. if r = \<lparr>nr_kind = Relay, nr_identifier = ''a''\<rparr> then Some 0
        else if r = \<lparr>nr_kind = Relay, nr_identifier = ''b''\<rparr> then Some 1 else None)\<rparr>"

lemma cyclic_graph_ok: "graph_ok cyclic_graph"
  by (auto simp: graph_ok_def cyclic_graph_def node_ref_of_def less_Suc_eq)

theorem cycle_test_decides_order_witness:
  "\<exists>r. creation_order Inr cyclic_graph = Some r \<and> r = Inl ConfigurationCycle \<and>
    (case r of Inl e \<Rightarrow> has_required_by_cycle (\<lambda>n es. \<not> acyclic (set es)) cyclic_graph | Inr order \<Rightarrow> False)"
proof -
  have "creation_order Inr cyclic_graph = Some (Inl ConfigurationCycle)" by code_simp
  then show ?thesis
    using cycle_test_decides_order [of "\<lambda>n es. \<not> acyclic (set es)" Inr cyclic_graph cyclic_graph, OF refl refl cyclic_graph_ok]
    by auto
qed

end
