(* ===== verification/Confirmation_Window.thy ===== *)
theory Confirmation_Window
  imports Prelude "HOL-Library.Multiset"
begin

text \<open>
  The confirmation window a brokered emitter publishes through in \<open>MODE ACK\<close>
  (crates/connector/src/confirmation_window.rs), with the publish outcome it settles
  (crates/connector/src/emitter.rs).

  The future a driver answers through, and the runtime that waits for it, are not code of the repository.
  They are two functions: \<open>poll now a\<close> is what a read of the answer \<open>a\<close> at an instant gives, and
  \<open>wait now deadline a\<close> is what \<open>timeout_at\<close> gives, with the instant it returns at. Nothing is assumed of
  them, so the theorems hold for every broker and every interleaving of answers and deadlines. An instant
  is an integer, and \<open>latest\<close> the last one of the monotonic clock.
\<close>

section \<open>Outcomes\<close>

datatype emitter_write_error = NotInitialized string | Publish string | Commit string | Misconfigured string

datatype window_error = AnswerTimedOut nanos | DeadlineOutOfRange nanos

record report =
  rp_error :: emitter_write_error
  rp_cause :: "window_error option"

datatype broker_verdict = Confirmed | Rejected string

type_synonym broker_answer = "report + broker_verdict"

text \<open>The message error of a refused record; its random reference is left out.\<close>

datatype message_error_code = External | Validation
datatype message_error_operation = Publish_operation | Encode_operation | Values_operation

record 'id rejected_member =
  rm_id :: 'id
  rm_code :: message_error_code
  rm_operation :: message_error_operation
  rm_message :: string
  rm_occurred_at :: int

definition external_rejection :: "'id \<Rightarrow> int \<Rightarrow> string \<Rightarrow> 'id rejected_member" where
  "external_rejection i occurred_at message =
     \<lparr>rm_id = i, rm_code = External, rm_operation = Publish_operation, rm_message = message, rm_occurred_at = occurred_at\<rparr>"

record 'id per_record_outcome =
  po_delivered :: "'id list"
  po_rejected :: "'id rejected_member list"
  po_error :: "report option"

definition empty_outcome :: "'id per_record_outcome" where
  "empty_outcome = \<lparr>po_delivered = [], po_rejected = [], po_error = None\<rparr>"

definition deliver :: "'id \<Rightarrow> 'id per_record_outcome \<Rightarrow> 'id per_record_outcome" where
  "deliver i out = out\<lparr>po_delivered := po_delivered out @ [i]\<rparr>"

definition reject :: "'id rejected_member \<Rightarrow> 'id per_record_outcome \<Rightarrow> 'id per_record_outcome" where
  "reject r out = out\<lparr>po_rejected := po_rejected out @ [r]\<rparr>"

definition fail_outcome :: "report \<Rightarrow> 'id per_record_outcome \<Rightarrow> 'id per_record_outcome" where
  "fail_outcome e out = out\<lparr>po_error := Some e\<rparr>"

section \<open>The window\<close>

record ack_confirmation =
  ac_max_in_flight :: nat
  ac_timeout :: nanos

record ('id, 'a) in_flight =
  if_record :: 'id
  if_occurred_at :: int
  if_deadline :: instant
  if_answer :: 'a

record ('id, 'a) confirmation_window =
  cw_connector :: string
  cw_settings :: ack_confirmation
  cw_in_flight :: "('id, 'a) in_flight list"
  cw_outcome :: "'id per_record_outcome"

definition window_new :: "string \<Rightarrow> ack_confirmation \<Rightarrow> ('id, 'a) confirmation_window" where
  "window_new connector settings =
     \<lparr>cw_connector = connector, cw_settings = settings, cw_in_flight = [], cw_outcome = empty_outcome\<rparr>"

definition window_reject :: "'id rejected_member \<Rightarrow> ('id, 'a) confirmation_window \<Rightarrow> ('id, 'a) confirmation_window" where
  "window_reject r w = w\<lparr>cw_outcome := reject r (cw_outcome w)\<rparr>"

fun settle_record :: "('id, 'a) in_flight \<Rightarrow> broker_verdict \<Rightarrow> 'id per_record_outcome \<Rightarrow> 'id per_record_outcome" where
  "settle_record f Confirmed out = deliver (if_record f) out"
| "settle_record f (Rejected message) out = reject (external_rejection (if_record f) (if_occurred_at f) message) out"

definition stopped :: "('id, 'a) confirmation_window \<Rightarrow> window_error \<Rightarrow> report" where
  "stopped w e = \<lparr>rp_error = Publish (cw_connector w), rp_cause = Some e\<rparr>"

definition settle_oldest ::
  "(instant \<Rightarrow> instant \<Rightarrow> 'a \<Rightarrow> broker_answer option \<times> instant) \<Rightarrow> instant \<Rightarrow> ('id, 'a) confirmation_window \<Rightarrow>
   ((report + unit) \<times> ('id, 'a) confirmation_window \<times> instant) panics" where
  "settle_oldest wait now w =
     (case cw_in_flight w of
        [] \<Rightarrow> panic
      | oldest # rest \<Rightarrow> Some
          (case wait now (if_deadline oldest) (if_answer oldest) of
             (None, now') \<Rightarrow> (Inl (stopped w (AnswerTimedOut (ac_timeout (cw_settings w)))), w, now')
           | (Some (Inl failure), now') \<Rightarrow> (Inl failure, w\<lparr>cw_in_flight := rest\<rparr>, now')
           | (Some (Inr verdict), now') \<Rightarrow>
               (Inr (), w\<lparr>cw_in_flight := rest, cw_outcome := settle_record oldest verdict (cw_outcome w)\<rparr>, now')))"

definition window_admit ::
  "(instant \<Rightarrow> instant \<Rightarrow> 'a \<Rightarrow> broker_answer option \<times> instant) \<Rightarrow> instant \<Rightarrow> instant \<Rightarrow> 'id \<Rightarrow> int \<Rightarrow> 'a \<Rightarrow>
   ('id, 'a) confirmation_window \<Rightarrow> ((report + unit) \<times> ('id, 'a) confirmation_window \<times> instant) panics" where
  "window_admit wait latest now i occurred_at answer w =
     (let timeout = ac_timeout (cw_settings w); deadline = now + int timeout in
      if latest < deadline then Some (Inl (stopped w (DeadlineOutOfRange timeout)), w, now)
      else
        let w' = w\<lparr>cw_in_flight := cw_in_flight w @
          [\<lparr>if_record = i, if_occurred_at = occurred_at, if_deadline = deadline, if_answer = answer\<rparr>]\<rparr> in
        if length (cw_in_flight w') < ac_max_in_flight (cw_settings w') then Some (Inr (), w', now)
        else settle_oldest wait now w')"

definition settle_next ::
  "(instant \<Rightarrow> instant \<Rightarrow> 'a \<Rightarrow> broker_answer option \<times> instant) \<Rightarrow> instant \<Rightarrow> ('id, 'a) confirmation_window \<Rightarrow>
   ((report + 'id option) \<times> ('id, 'a) confirmation_window \<times> instant) panics" where
  "settle_next wait now w =
     (case cw_in_flight w of
        [] \<Rightarrow> Some (Inr None, w, now)
      | oldest # _ \<Rightarrow> do {
          (r, w', now') \<leftarrow> settle_oldest wait now w;
          Some (case r of Inl e \<Rightarrow> Inl e | Inr _ \<Rightarrow> Inr (Some (if_record oldest)), w', now')
        })"

fun settle_given :: "(instant \<Rightarrow> 'a \<Rightarrow> broker_answer option) \<Rightarrow> instant \<Rightarrow> ('id, 'a) in_flight list \<Rightarrow>
    'id per_record_outcome \<Rightarrow> 'id per_record_outcome" where
  "settle_given poll now [] out = out"
| "settle_given poll now (f # fs) out = settle_given poll now fs
     (case poll now (if_answer f) of
        None \<Rightarrow> out
      | Some (Inr verdict) \<Rightarrow> settle_record f verdict out
      | Some (Inl _) \<Rightarrow> out)"

definition fail ::
  "(instant \<Rightarrow> 'a \<Rightarrow> broker_answer option) \<Rightarrow> instant \<Rightarrow> report \<Rightarrow> ('id, 'a) confirmation_window \<Rightarrow> 'id per_record_outcome" where
  "fail poll now failure w = fail_outcome failure (settle_given poll now (cw_in_flight w) (cw_outcome w))"

lemma settle_oldest_pops:
  "settle_oldest wait now w = Some (Inr u, w', now') \<Longrightarrow> length (cw_in_flight w') < length (cw_in_flight w)"
  by (auto simp: settle_oldest_def split: list.splits prod.splits option.splits sum.splits)

function finish ::
  "(instant \<Rightarrow> instant \<Rightarrow> 'a \<Rightarrow> broker_answer option \<times> instant) \<Rightarrow> (instant \<Rightarrow> 'a \<Rightarrow> broker_answer option) \<Rightarrow>
   instant \<Rightarrow> ('id, 'a) confirmation_window \<Rightarrow> 'id per_record_outcome panics" where
  "finish wait poll now w =
     (if cw_in_flight w = [] then Some (cw_outcome w)
      else case settle_oldest wait now w of
        None \<Rightarrow> panic
      | Some (Inl failure, w', now') \<Rightarrow> Some (fail poll now' failure w')
      | Some (Inr _, w', now') \<Rightarrow> finish wait poll now' w')"
  by pat_completeness auto
termination
  by (relation "measure (\<lambda>(wait, poll, now, w). length (cw_in_flight w))") (auto dest: settle_oldest_pops)

declare finish.simps [simp del]

section \<open>A publish\<close>

text \<open>
  The states a publish goes through: the records handed over with their answers, the records the driver
  refused at once, the window, the time, and the failure that ends the publish, after which nothing but
  \<open>fail\<close> is called. Time passes between operations.
\<close>

inductive publishing ::
  "(instant \<Rightarrow> instant \<Rightarrow> 'a \<Rightarrow> broker_answer option \<times> instant) \<Rightarrow> instant \<Rightarrow> string \<Rightarrow> ack_confirmation \<Rightarrow>
   ('id \<times> 'a) list \<Rightarrow> 'id rejected_member list \<Rightarrow> ('id, 'a) confirmation_window \<Rightarrow> instant \<Rightarrow> report option \<Rightarrow> bool"
  for wait latest connector settings where
  Start: "publishing wait latest connector settings [] [] (window_new connector settings) now None"
| Pass: "publishing wait latest connector settings hs rs w now None \<Longrightarrow> now \<le> now' \<Longrightarrow>
    publishing wait latest connector settings hs rs w now' None"
| Refuse: "publishing wait latest connector settings hs rs w now None \<Longrightarrow>
    publishing wait latest connector settings hs (rs @ [r]) (window_reject r w) now None"
| Admit_ok: "publishing wait latest connector settings hs rs w now None \<Longrightarrow>
    window_admit wait latest now i at a w = Some (Inr u, w', now') \<Longrightarrow>
    publishing wait latest connector settings (hs @ [(i, a)]) rs w' now' None"
| Admit_fails: "publishing wait latest connector settings hs rs w now None \<Longrightarrow>
    window_admit wait latest now i at a w = Some (Inl e, w', now') \<Longrightarrow>
    publishing wait latest connector settings (hs @ [(i, a)]) rs w' now' (Some e)"
| Settle_ok: "publishing wait latest connector settings hs rs w now None \<Longrightarrow>
    settle_next wait now w = Some (Inr settled, w', now') \<Longrightarrow>
    publishing wait latest connector settings hs rs w' now' None"
| Settle_fails: "publishing wait latest connector settings hs rs w now None \<Longrightarrow>
    settle_next wait now w = Some (Inl e, w', now') \<Longrightarrow>
    publishing wait latest connector settings hs rs w' now' (Some e)"
| Driver_fails: "publishing wait latest connector settings hs rs w now None \<Longrightarrow>
    publishing wait latest connector settings hs rs w now (Some e)"

definition publish_end ::
  "(instant \<Rightarrow> instant \<Rightarrow> 'a \<Rightarrow> broker_answer option \<times> instant) \<Rightarrow> (instant \<Rightarrow> 'a \<Rightarrow> broker_answer option) \<Rightarrow>
   instant \<Rightarrow> report option \<Rightarrow> ('id, 'a) confirmation_window \<Rightarrow> 'id per_record_outcome panics" where
  "publish_end wait poll now failure w =
     (case failure of None \<Rightarrow> finish wait poll now w | Some e \<Rightarrow> Some (fail poll now e w))"

section \<open>Accounting for every record\<close>

text \<open>A verdict the broker gave, read by waiting or by a poll.\<close>

definition answered ::
  "(instant \<Rightarrow> instant \<Rightarrow> 'a \<Rightarrow> broker_answer option \<times> instant) \<Rightarrow> (instant \<Rightarrow> 'a \<Rightarrow> broker_answer option) \<Rightarrow>
   'a \<Rightarrow> broker_verdict \<Rightarrow> bool" where
  "answered wait poll a v \<longleftrightarrow>
     (\<exists>t. poll t a = Some (Inr v)) \<or> (\<exists>t d. fst (wait t d a) = Some (Inr v))"

definition pairs :: "('id, 'a) in_flight list \<Rightarrow> ('id \<times> 'a) list" where
  "pairs fs = map (\<lambda>f. (if_record f, if_answer f)) fs"

text \<open>
  Every record handed over is confirmed, rejected, still in flight or lost, and the outcome names the
  confirmed ones and, beside the driver's own refusals, the rejected ones.
\<close>

definition accounts ::
  "(instant \<Rightarrow> instant \<Rightarrow> 'a \<Rightarrow> broker_answer option \<times> instant) \<Rightarrow> (instant \<Rightarrow> 'a \<Rightarrow> broker_answer option) \<Rightarrow>
   ('id \<times> 'a) list \<Rightarrow> 'id rejected_member list \<Rightarrow> ('id, 'a) in_flight list \<Rightarrow> 'id per_record_outcome \<Rightarrow>
   ('id \<times> 'a) list \<Rightarrow> bool" where
  "accounts wait poll hs rs fs out lost \<longleftrightarrow> (\<exists>conf rej.
     mset hs = mset conf + mset rej + mset (pairs fs) + mset lost \<and>
     po_delivered out = map fst conf \<and> mset (map rm_id (po_rejected out)) = mset (map rm_id rs) + mset (map fst rej) \<and>
     (\<forall>p \<in> set conf. answered wait poll (snd p) Confirmed) \<and> (\<forall>p \<in> set rej. \<exists>m. answered wait poll (snd p) (Rejected m)))"

lemma accounts_lose:
  "accounts wait poll hs rs (f # fs) out lost \<Longrightarrow> accounts wait poll hs rs fs out ((if_record f, if_answer f) # lost)"
  by (auto simp: accounts_def pairs_def)

lemma accounts_settle:
  assumes "accounts wait poll hs rs (f # fs) out lost" and "answered wait poll (if_answer f) v"
  shows "accounts wait poll hs rs fs (settle_record f v out) lost"
proof -
  obtain conf rej where old: "mset hs = mset conf + mset rej + mset (pairs (f # fs)) + mset lost"
    "po_delivered out = map fst conf" "mset (map rm_id (po_rejected out)) = mset (map rm_id rs) + mset (map fst rej)"
    "\<forall>p \<in> set conf. answered wait poll (snd p) Confirmed" "\<forall>p \<in> set rej. \<exists>m. answered wait poll (snd p) (Rejected m)"
    using assms(1) unfolding accounts_def by blast
  let ?p = "(if_record f, if_answer f)"
  show ?thesis
  proof (cases v)
    case Confirmed
    then show ?thesis unfolding accounts_def using old assms(2)
      by (intro exI [of _ "conf @ [?p]"] exI [of _ rej]) (simp add: deliver_def pairs_def)
  next
    case (Rejected message)
    then show ?thesis unfolding accounts_def using old assms(2)
      by (intro exI [of _ conf] exI [of _ "rej @ [?p]"]) (auto simp: reject_def external_rejection_def pairs_def)
  qed
qed

lemma accounts_given:
  "accounts wait poll hs rs fs out lost \<Longrightarrow> \<exists>lost'. accounts wait poll hs rs [] (settle_given poll now fs out) lost'"
proof (induction fs arbitrary: out lost)
  case (Cons f fs)
  show ?case
  proof (cases "\<exists>v. poll now (if_answer f) = Some (Inr v)")
    case True
    then obtain v where v: "poll now (if_answer f) = Some (Inr v)" by blast
    then have "answered wait poll (if_answer f) v" by (auto simp: answered_def)
    then show ?thesis using Cons.IH [OF accounts_settle [OF Cons.prems]] v by simp
  next
    case False
    then have "settle_given poll now (f # fs) out = settle_given poll now fs out"
      by (auto split: option.splits sum.splits)
    then show ?thesis using Cons.IH [OF accounts_lose [OF Cons.prems]] by simp
  qed
qed auto

lemma settle_oldest_accounts:
  assumes "accounts wait poll hs rs (cw_in_flight w) (cw_outcome w) lost" and "settle_oldest wait now w = Some (r, w', now')"
  shows "\<exists>lost'. accounts wait poll hs rs (cw_in_flight w') (cw_outcome w') lost' \<and> (lost' = lost \<or> (\<exists>e. r = Inl e))"
proof (cases "cw_in_flight w")
  case Nil
  then show ?thesis using assms(2) by (simp add: settle_oldest_def)
next
  case (Cons f fs)
  obtain ans t where wait: "wait now (if_deadline f) (if_answer f) = (ans, t)" by (cases "wait now (if_deadline f) (if_answer f)")
  consider "ans = None" | e where "ans = Some (Inl e)" | v where "ans = Some (Inr v)" by (metis option.exhaust sum.exhaust)
  then show ?thesis
  proof cases
    case 1
    then show ?thesis using assms wait Cons by (auto simp: settle_oldest_def)
  next
    case 2
    then show ?thesis
      using accounts_lose [OF assms(1) [unfolded Cons]] assms(2) wait Cons by (auto simp: settle_oldest_def)
  next
    case 3
    then have "answered wait poll (if_answer f) v" unfolding answered_def using wait by (metis fst_conv)
    then show ?thesis
      using accounts_settle [OF assms(1) [unfolded Cons]] assms(2) wait Cons 3 by (auto simp: settle_oldest_def)
  qed
qed

lemma accounts_take:
  "accounts wait poll hs rs fs out lost \<Longrightarrow> accounts wait poll (hs @ [(if_record f, if_answer f)]) rs (fs @ [f]) out lost"
  unfolding accounts_def pairs_def by (elim exE conjE, intro exI conjI) (assumption | simp)+

lemma accounts_untaken:
  "accounts wait poll hs rs fs out lost \<Longrightarrow> accounts wait poll (hs @ [p]) rs fs out (p # lost)"
  unfolding accounts_def by (elim exE conjE, intro exI conjI) (assumption | simp)+

lemma accounts_reject:
  "accounts wait poll hs rs fs out lost \<Longrightarrow> accounts wait poll hs (rs @ [r]) fs (reject r out) lost"
  unfolding accounts_def reject_def by (elim exE conjE, intro exI conjI) (assumption | simp)+

lemma admit_accounts:
  assumes "accounts wait poll hs rs (cw_in_flight w) (cw_outcome w) lost" and "window_admit wait latest now i at a w = Some (r, w', now')"
  shows "\<exists>lost'. accounts wait poll (hs @ [(i, a)]) rs (cw_in_flight w') (cw_outcome w') lost' \<and> (lost' = lost \<or> (\<exists>e. r = Inl e))"
proof (cases "latest < now + int (ac_timeout (cw_settings w))")
  case True
  then show ?thesis using accounts_untaken [OF assms(1)] assms(2) by (auto simp: window_admit_def Let_def)
next
  case False
  let ?f = "\<lparr>if_record = i, if_occurred_at = at, if_deadline = now + int (ac_timeout (cw_settings w)), if_answer = a\<rparr>"
  let ?w = "w\<lparr>cw_in_flight := cw_in_flight w @ [?f]\<rparr>"
  have taken: "accounts wait poll (hs @ [(i, a)]) rs (cw_in_flight ?w) (cw_outcome ?w) lost"
    using accounts_take [OF assms(1), of ?f] by simp
  show ?thesis
  proof (cases "length (cw_in_flight ?w) < ac_max_in_flight (cw_settings ?w)")
    case True
    then show ?thesis using taken assms(2) False by (auto simp: window_admit_def Let_def)
  next
    case full: False
    then have "settle_oldest wait now ?w = Some (r, w', now')" using assms(2) False by (simp add: window_admit_def Let_def)
    then show ?thesis by (rule settle_oldest_accounts [OF taken])
  qed
qed

lemma settle_next_accounts:
  assumes "accounts wait poll hs rs (cw_in_flight w) (cw_outcome w) lost" and "settle_next wait now w = Some (r, w', now')"
  shows "\<exists>lost'. accounts wait poll hs rs (cw_in_flight w') (cw_outcome w') lost' \<and> (lost' = lost \<or> (\<exists>e. r = Inl e))"
proof (cases "cw_in_flight w")
  case Nil
  then show ?thesis using assms by (auto simp: settle_next_def)
next
  case (Cons f fs)
  obtain q where "settle_oldest wait now w = Some (q, w', now')" "r = (case q of Inl e \<Rightarrow> Inl e | Inr _ \<Rightarrow> Inr (Some (if_record f)))"
    using assms(2) Cons by (auto simp: settle_next_def bind_eq_Some_conv)
  then show ?thesis using settle_oldest_accounts [OF assms(1)] by fastforce
qed

lemma po_error_settle [simp]: "po_error (settle_record f v out) = po_error out"
  by (cases v) (simp_all add: deliver_def reject_def)

lemma settle_oldest_error:
  "settle_oldest wait now w = Some (r, w', now') \<Longrightarrow> po_error (cw_outcome w') = po_error (cw_outcome w)"
  by (auto simp: settle_oldest_def split: list.splits prod.splits option.splits sum.splits)

lemma admit_error:
  "window_admit wait latest now i at a w = Some (r, w', now') \<Longrightarrow> po_error (cw_outcome w') = po_error (cw_outcome w)"
  by (auto simp: window_admit_def Let_def dest: settle_oldest_error split: if_splits)

lemma settle_next_error:
  "settle_next wait now w = Some (r, w', now') \<Longrightarrow> po_error (cw_outcome w') = po_error (cw_outcome w)"
  by (auto simp: settle_next_def bind_eq_Some_conv dest: settle_oldest_error split: list.splits)

lemma publishing_accounts:
  "publishing wait latest connector settings hs rs w now failure \<Longrightarrow>
     po_error (cw_outcome w) = None \<and>
     (\<exists>lost. accounts wait poll hs rs (cw_in_flight w) (cw_outcome w) lost \<and> (failure = None \<longrightarrow> lost = []))"
proof (induction rule: publishing.induct)
  case (Start now)
  then show ?case by (simp add: window_new_def empty_outcome_def accounts_def pairs_def)
next
  case (Refuse hs rs w now r)
  then show ?case using accounts_reject by (fastforce simp: window_reject_def reject_def)
next
  case (Admit_ok hs rs w now i at a u w' now')
  then show ?case using admit_accounts [of wait poll] admit_error by fastforce
next
  case (Admit_fails hs rs w now i at a e w' now')
  then show ?case using admit_accounts [of wait poll] admit_error by fastforce
next
  case (Settle_ok hs rs w now settled w' now')
  then show ?case using settle_next_accounts [of wait poll] settle_next_error by fastforce
next
  case (Settle_fails hs rs w now e w' now')
  then show ?case using settle_next_accounts [of wait poll] settle_next_error by fastforce
qed auto

lemma po_error_given [simp]: "po_error (settle_given poll now fs out) = po_error out"
  by (induction fs arbitrary: out) (auto split: option.splits sum.splits)

lemma fail_accounts:
  assumes "accounts wait poll hs rs (cw_in_flight w) (cw_outcome w) lost"
  shows "\<exists>lost'. accounts wait poll hs rs [] (fail poll now e w) lost'"
  using accounts_given [OF assms, of now] by (simp add: fail_def fail_outcome_def accounts_def)

lemma finish_accounts:
  "accounts wait poll hs rs (cw_in_flight w) (cw_outcome w) [] \<Longrightarrow> po_error (cw_outcome w) = None \<Longrightarrow>
     \<exists>out lost. finish wait poll now w = Some out \<and> accounts wait poll hs rs [] out lost \<and> (po_error out = None \<longrightarrow> lost = [])"
proof (induction wait poll now w rule: finish.induct)
  case (1 wait poll now w)
  show ?case
  proof (cases "cw_in_flight w = []")
    case True
    then show ?thesis using 1(2) by (subst finish.simps) auto
  next
    case False
    then have "settle_oldest wait now w \<noteq> None" by (simp add: settle_oldest_def del: not_None_eq split: list.splits)
    then obtain r w' now' where old: "settle_oldest wait now w = Some (r, w', now')" by (metis not_None_eq prod_cases3)
    obtain lost' where acc: "accounts wait poll hs rs (cw_in_flight w') (cw_outcome w') lost'" "lost' = [] \<or> (\<exists>e. r = Inl e)"
      using settle_oldest_accounts [OF 1(2) old] by blast
    have err: "po_error (cw_outcome w') = None" using settle_oldest_error [OF old] 1(3) by simp
    show ?thesis
    proof (cases r)
      case (Inl e)
      have "finish wait poll now w = Some (fail poll now' e w')" using False old Inl by (subst finish.simps) simp
      moreover have "po_error (fail poll now' e w') \<noteq> None" by (simp add: fail_def fail_outcome_def)
      ultimately show ?thesis using fail_accounts [OF acc(1), of now' e] by auto
    next
      case (Inr u)
      have "finish wait poll now w = finish wait poll now' w'" using False old Inr by (subst finish.simps) simp
      then show ?thesis using 1(1) [OF False old [unfolded Inr]] acc Inr err by auto
    qed
  qed
qed

text \<open>The outcome settles a record by a verdict: it names the record as delivered, or rejected with the message.\<close>

definition settled_as :: "('id, 'a) in_flight \<Rightarrow> broker_verdict \<Rightarrow> 'id per_record_outcome \<Rightarrow> bool" where
  "settled_as f v out =
     (case v of Confirmed \<Rightarrow> if_record f \<in> set (po_delivered out)
      | Rejected m \<Rightarrow> external_rejection (if_record f) (if_occurred_at f) m \<in> set (po_rejected out))"

lemma settled_as_settle: "settled_as f v (settle_record f v out)"
  by (cases v) (simp_all add: settled_as_def deliver_def reject_def)

lemma settled_as_keeps: "settled_as g u out \<Longrightarrow> settled_as g u (settle_record f v out)"
  by (cases v) (auto simp: settled_as_def deliver_def reject_def split: broker_verdict.splits)

lemma settled_as_given: "settled_as g u out \<Longrightarrow> settled_as g u (settle_given poll now fs out)"
  by (induction fs arbitrary: out) (auto simp: settled_as_keeps split: option.splits sum.splits)

lemma given_settled:
  "f \<in> set fs \<Longrightarrow> poll now (if_answer f) = Some (Inr v) \<Longrightarrow> settled_as f v (settle_given poll now fs out)"
  by (induction fs arbitrary: out)
    (auto simp: settled_as_given settled_as_settle split: option.splits sum.splits)

lemma settled_as_fail_outcome [simp]: "settled_as f v (fail_outcome e out) = settled_as f v out"
  by (cases v) (simp_all add: settled_as_def fail_outcome_def)

lemma fail_settles:
  "settled_as g u (cw_outcome w) \<Longrightarrow> settled_as g u (fail poll now e w)"
  "f \<in> set (cw_in_flight w) \<Longrightarrow> poll now (if_answer f) = Some (Inr v) \<Longrightarrow> settled_as f v (fail poll now e w)"
  by (simp_all add: fail_def settled_as_given given_settled)

text \<open>
  What a publish that fails with \<open>e\<close> at the instant \<open>t\<close> did to the records \<open>fs\<close> of its window: of a
  first part, oldest first, it read each answer by waiting, and settled the record by it unless the
  answer was the failure itself; of the rest, it settled every record whose answer was given at \<open>t\<close>.
\<close>

definition waited_for ::
  "(instant \<Rightarrow> instant \<Rightarrow> 'a \<Rightarrow> broker_answer option \<times> instant) \<Rightarrow> report \<Rightarrow> 'id per_record_outcome \<Rightarrow>
   ('id, 'a) in_flight \<Rightarrow> bool" where
  "waited_for wait e out f \<longleftrightarrow> (\<exists>t answer. fst (wait t (if_deadline f) (if_answer f)) = Some answer \<and>
     (case answer of Inl e' \<Rightarrow> e' = e | Inr v \<Rightarrow> settled_as f v out))"

definition fails_settled ::
  "(instant \<Rightarrow> instant \<Rightarrow> 'a \<Rightarrow> broker_answer option \<times> instant) \<Rightarrow> (instant \<Rightarrow> 'a \<Rightarrow> broker_answer option) \<Rightarrow>
   ('id, 'a) in_flight list \<Rightarrow> instant \<Rightarrow> report \<Rightarrow> 'id per_record_outcome \<Rightarrow> bool" where
  "fails_settled wait poll fs t e out \<longleftrightarrow> (\<exists>waited rest. fs = waited @ rest \<and>
     (\<forall>f \<in> set waited. waited_for wait e out f) \<and>
     (\<forall>f \<in> set rest. \<forall>v. poll t (if_answer f) = Some (Inr v) \<longrightarrow> settled_as f v out))"

lemma fails_settled_fail: "fails_settled wait poll (cw_in_flight w) t e (fail poll t e w)"
  unfolding fails_settled_def by (rule exI [of _ "[]"]) (auto intro: fail_settles(2))

lemma fails_settled_Cons:
  assumes "fails_settled wait poll fs t e out" and "waited_for wait e out f"
  shows "fails_settled wait poll (f # fs) t e out"
proof -
  obtain waited rest where "fs = waited @ rest" "\<forall>f \<in> set waited. waited_for wait e out f"
    "\<forall>f \<in> set rest. \<forall>v. poll t (if_answer f) = Some (Inr v) \<longrightarrow> settled_as f v out"
    using assms(1) unfolding fails_settled_def by blast
  then show ?thesis
    unfolding fails_settled_def by (intro exI [of _ "f # waited"] exI [of _ rest]) (simp add: assms(2))
qed

lemma waited_forI:
  "fst (wait t (if_deadline f) (if_answer f)) = Some (Inl e) \<Longrightarrow> waited_for wait e out f"
  "fst (wait t (if_deadline f) (if_answer f)) = Some (Inr v) \<Longrightarrow> settled_as f v out \<Longrightarrow> waited_for wait e out f"
  unfolding waited_for_def by (rule exI [of _ t], simp)+

text \<open>What one wait does to the window, by its answer.\<close>

lemma settle_oldest_answers:
  assumes "cw_in_flight w = f # fs" and "settle_oldest wait now w = Some (r, w', now')"
  shows "now' = snd (wait now (if_deadline f) (if_answer f)) \<and>
    (case fst (wait now (if_deadline f) (if_answer f)) of
       None \<Rightarrow> w' = w \<and> (\<exists>e. r = Inl e)
     | Some (Inl e) \<Rightarrow> r = Inl e \<and> cw_in_flight w' = fs \<and> cw_outcome w' = cw_outcome w
     | Some (Inr v) \<Rightarrow> r = Inr () \<and> cw_in_flight w' = fs \<and> cw_outcome w' = settle_record f v (cw_outcome w))"
  using assms by (auto simp: settle_oldest_def split: prod.splits option.splits sum.splits)

lemma settle_oldest_fails:
  assumes "cw_in_flight w = f # fs" and "settle_oldest wait now w = Some (Inl e, w', now')"
  shows "cw_outcome w' = cw_outcome w \<and> fails_settled wait poll (cw_in_flight w) now' e (fail poll now' e w')"
proof -
  note answers = settle_oldest_answers [OF assms]
  have "fails_settled wait poll (cw_in_flight w) now' e (fail poll now' e w')"
  proof (cases "fst (wait now (if_deadline f) (if_answer f))")
    case None
    then show ?thesis using answers fails_settled_fail [of wait poll w' now' e] by simp
  next
    case (Some answer)
    then have "answer = Inl e" "cw_in_flight w' = fs" using answers by (auto split: sum.splits)
    moreover from this Some have "waited_for wait e (fail poll now' e w') f" by (auto intro: waited_forI(1))
    ultimately show ?thesis
      using fails_settled_Cons fails_settled_fail [of wait poll w' now' e] assms(1) by metis
  qed
  then show ?thesis using answers by (auto split: option.splits sum.splits)
qed

lemma finish_fails_settled:
  fixes w :: "('id, 'a) confirmation_window"
  shows "finish wait poll now w = Some out \<Longrightarrow> po_error (cw_outcome w) = None \<Longrightarrow>
     (\<forall>(g :: ('id, 'a) in_flight) u. settled_as g u (cw_outcome w) \<longrightarrow> settled_as g u out) \<and>
     (\<forall>e. po_error out = Some e \<longrightarrow> (\<exists>t f t'. f \<in> set (cw_in_flight w) \<and>
        t = snd (wait t' (if_deadline f) (if_answer f)) \<and> fails_settled wait poll (cw_in_flight w) t e out))"
proof (induction wait poll now w rule: finish.induct)
  case (1 wait poll now w)
  show ?case
  proof (cases "cw_in_flight w")
    case Nil
    then show ?thesis using 1(2,3) finish.simps [of wait poll now w] by simp
  next
    case (Cons f fs)
    then have "settle_oldest wait now w \<noteq> None" by (simp add: settle_oldest_def)
    then obtain r w' now' where old: "settle_oldest wait now w = Some (r, w', now')" by (metis not_None_eq prod_cases3)
    note answers = settle_oldest_answers [OF Cons old]
    show ?thesis
    proof (cases r)
      case (Inl e)
      have out: "out = fail poll now' e w'"
        using finish.simps [of wait poll now w] Cons old Inl 1(2) by simp
      note settle_oldest_fails [OF Cons old [unfolded Inl], of poll]
      moreover have "po_error out = Some e" by (simp add: out fail_def fail_outcome_def)
      ultimately show ?thesis using answers Cons out fail_settles(1) [of _ _ w'] by auto
    next
      case (Inr u)
      obtain v where v: "fst (wait now (if_deadline f) (if_answer f)) = Some (Inr v)"
        and w': "cw_in_flight w' = fs" "cw_outcome w' = settle_record f v (cw_outcome w)"
        using answers Inr by (auto split: option.splits sum.splits)
      have "finish wait poll now' w' = Some out"
        using finish.simps [of wait poll now w] Cons old Inr 1(2) by simp
      from 1(1) [OF _ old [unfolded Inr] refl refl refl this] have IH:
        "\<And>(g :: ('id, 'a) in_flight) u. settled_as g u (cw_outcome w') \<Longrightarrow> settled_as g u out"
        "\<And>e. po_error out = Some e \<Longrightarrow> \<exists>t f t'. f \<in> set fs \<and>
          t = snd (wait t' (if_deadline f) (if_answer f)) \<and> fails_settled wait poll fs t e out"
        using Cons w' 1(3) by auto
      have "settled_as f v out" using IH(1) w'(2) settled_as_settle by metis
      then have "waited_for wait e out f" for e using v by (intro waited_forI(2) [of wait now f v])
      then show ?thesis
        using IH w'(2) settled_as_keeps fails_settled_Cons Cons by (metis list.set_intros(2))
    qed
  qed
qed

lemma settle_oldest_bounds:
  assumes "settle_oldest wait now w = Some (r, w', now')"
  shows "cw_settings w' = cw_settings w" and "set (cw_in_flight w') \<subseteq> set (cw_in_flight w)"
    and "length (cw_in_flight w') \<le> length (cw_in_flight w)"
    and "r = Inr u \<Longrightarrow> length (cw_in_flight w') < length (cw_in_flight w)"
  using assms by (auto simp: settle_oldest_def split: list.splits prod.splits option.splits sum.splits)

definition within :: "instant \<Rightarrow> ack_confirmation \<Rightarrow> ('id, 'a) confirmation_window \<Rightarrow> bool" where
  "within latest settings w \<longleftrightarrow> cw_settings w = settings \<and> length (cw_in_flight w) \<le> ac_max_in_flight settings \<and>
     (\<forall>f \<in> set (cw_in_flight w). if_deadline f \<le> latest)"

lemma within_settle_oldest: "within latest settings w \<Longrightarrow> settle_oldest wait now w = Some (r, w', now') \<Longrightarrow> within latest settings w'"
  using settle_oldest_bounds [of wait now w r w' now'] by (fastforce simp: within_def)

lemma within_settle_next:
  assumes "within latest settings w" and "length (cw_in_flight w) < ac_max_in_flight settings"
    and "settle_next wait now w = Some (r, w', now')"
  shows "within latest settings w' \<and> length (cw_in_flight w') < ac_max_in_flight settings"
proof (cases "cw_in_flight w")
  case Nil
  then show ?thesis using assms by (auto simp: settle_next_def)
next
  case (Cons f fs)
  then obtain q where q: "settle_oldest wait now w = Some (q, w', now')"
    using assms(3) by (auto simp: settle_next_def bind_eq_Some_conv)
  then show ?thesis using within_settle_oldest [OF assms(1) q] settle_oldest_bounds(3) [OF q] assms(2) by simp
qed

lemma within_admit:
  assumes "within latest settings w" and "length (cw_in_flight w) < ac_max_in_flight settings"
    and "window_admit wait latest now i at a w = Some (r, w', now')"
  shows "within latest settings w' \<and> (r = Inr u \<longrightarrow> length (cw_in_flight w') < ac_max_in_flight settings)"
proof (cases "latest < now + int (ac_timeout (cw_settings w))")
  case True
  then show ?thesis using assms by (auto simp: window_admit_def Let_def)
next
  case False
  let ?f = "\<lparr>if_record = i, if_occurred_at = at, if_deadline = now + int (ac_timeout (cw_settings w)), if_answer = a\<rparr>"
  let ?w = "w\<lparr>cw_in_flight := cw_in_flight w @ [?f]\<rparr>"
  have taken: "within latest settings ?w" using assms(1,2) False by (auto simp: within_def)
  show ?thesis
  proof (cases "length (cw_in_flight ?w) < ac_max_in_flight (cw_settings ?w)")
    case True
    then show ?thesis using taken assms(1,3) False by (auto simp: window_admit_def Let_def within_def)
  next
    case full: False
    then have q: "settle_oldest wait now ?w = Some (r, w', now')" using assms(3) False by (simp add: window_admit_def Let_def)
    then show ?thesis
      using within_settle_oldest [OF taken q] settle_oldest_bounds(4) [OF q] assms(2) by auto
  qed
qed

lemma publishing_within:
  assumes "0 < ac_max_in_flight settings"
  shows "publishing wait latest connector settings hs rs w now failure \<Longrightarrow>
    within latest settings w \<and> (failure = None \<longrightarrow> length (cw_in_flight w) < ac_max_in_flight settings)"
proof (induction rule: publishing.induct)
  case (Start now)
  then show ?case using assms by (simp add: window_new_def within_def)
next
  case (Refuse hs rs w now r)
  then show ?case by (simp add: window_reject_def within_def)
next
  case (Admit_ok hs rs w now i at a u w' now')
  then show ?case using within_admit [of latest settings w wait now i at a] by blast
next
  case (Admit_fails hs rs w now i at a e w' now')
  then show ?case using within_admit [of latest settings w wait now i at a] by blast
next
  case (Settle_ok hs rs w now settled w' now')
  then show ?case using within_settle_next [of latest settings w wait now] by blast
next
  case (Settle_fails hs rs w now e w' now')
  then show ?case using within_settle_next [of latest settings w wait now] by blast
qed auto

section \<open>Properties\<close>

text \<open>
  C9: a publish accounts for every record. However the broker answers, ending the publish does not panic,
  and every record handed over is exactly one of: delivered, and then the broker confirmed it; rejected, and
  then the broker refused it; or unresolved. The records the driver refused at once are rejected too. A
  publish without a failure leaves nothing unresolved. A publish that fails, at an admission, in the driver
  or while it finishes, settles every record of the window by the answer it read while waiting, the failed
  answer apart, and every other one whose answer was already given at the instant of the failure.
\<close>

theorem publish_accounts_for_every_record:
  assumes "publishing wait latest connector settings hs rs w now failure"
  shows "\<exists>out unresolved. publish_end wait poll now failure w = Some out \<and>
    accounts wait poll hs rs [] out unresolved \<and> (po_error out = None \<longrightarrow> unresolved = []) \<and>
    (\<forall>e. po_error out = Some e \<longrightarrow>
       (case failure of
          Some e' \<Rightarrow> e = e' \<and> (\<forall>f \<in> set (cw_in_flight w). \<forall>v.
            poll now (if_answer f) = Some (Inr v) \<longrightarrow> settled_as f v out)
        | None \<Rightarrow> \<exists>t f t'. f \<in> set (cw_in_flight w) \<and> t = snd (wait t' (if_deadline f) (if_answer f)) \<and>
            fails_settled wait poll (cw_in_flight w) t e out))"
proof -
  obtain lost where inv: "po_error (cw_outcome w) = None" "accounts wait poll hs rs (cw_in_flight w) (cw_outcome w) lost"
    "failure = None \<longrightarrow> lost = []"
    using publishing_accounts [OF assms, of poll] by blast
  show ?thesis
  proof (cases failure)
    case None
    then obtain out unresolved where out: "finish wait poll now w = Some out"
      "accounts wait poll hs rs [] out unresolved" "po_error out = None \<longrightarrow> unresolved = []"
      using finish_accounts [of wait poll hs rs w now] inv by auto
    with finish_fails_settled [OF out(1) inv(1)] None show ?thesis
      by (intro exI [of _ out] exI [of _ unresolved]) (simp add: publish_end_def)
  next
    case (Some e)
    obtain lost' where "accounts wait poll hs rs [] (fail poll now e w) lost'" using fail_accounts [OF inv(2)] by blast
    moreover have "po_error (fail poll now e w) = Some e" by (simp add: fail_def fail_outcome_def)
    ultimately show ?thesis
      using Some fail_settles(2) [of _ w poll now]
      by (intro exI [of _ "fail poll now e w"] exI [of _ lost']) (simp add: publish_end_def)
  qed
qed

text \<open>A broker that gives each answer at a fixed instant.\<close>

definition demo_poll :: "instant \<Rightarrow> instant \<times> broker_answer \<Rightarrow> broker_answer option" where
  "demo_poll now a = (if fst a \<le> now then Some (snd a) else None)"

definition demo_wait :: "instant \<Rightarrow> instant \<Rightarrow> instant \<times> broker_answer \<Rightarrow> broker_answer option \<times> instant" where
  "demo_wait now deadline a =
     (if fst a \<le> max now deadline then (Some (snd a), max now (fst a)) else (None, max now deadline))"

definition demo_settings :: ack_confirmation where
  "demo_settings = \<lparr>ac_max_in_flight = 3, ac_timeout = 5\<rparr>"

definition demo_window :: "(nat, instant \<times> broker_answer) confirmation_window" where
  "demo_window = \<lparr>cw_connector = ''nats'', cw_settings = demo_settings,
     cw_in_flight =
       [\<lparr>if_record = 1, if_occurred_at = 0, if_deadline = 5, if_answer = (9, Inr Confirmed)\<rparr>,
        \<lparr>if_record = 2, if_occurred_at = 0, if_deadline = 5, if_answer = (4, Inr (Rejected ''full''))\<rparr>],
     cw_outcome = empty_outcome\<rparr>"

lemma demo_publishing:
  "publishing demo_wait 100 ''nats'' demo_settings [(1, 9, Inr Confirmed), (2, 4, Inr (Rejected ''full''))] [] demo_window 0 None"
proof -
  let ?w = "window_new ''nats'' demo_settings :: (nat, instant \<times> broker_answer) confirmation_window"
  have "publishing demo_wait 100 ''nats'' demo_settings [] [] ?w 0 None" by (rule Start)
  from Admit_ok [OF this, of 1 0 "(9, Inr Confirmed)" "()"]
  have "publishing demo_wait 100 ''nats'' demo_settings [(1, 9, Inr Confirmed)] []
      (?w\<lparr>cw_in_flight := [\<lparr>if_record = 1, if_occurred_at = 0, if_deadline = 5, if_answer = (9, Inr Confirmed)\<rparr>]\<rparr>) 0 None"
    by (simp add: window_admit_def window_new_def demo_settings_def)
  from Admit_ok [OF this, of 2 0 "(4, Inr (Rejected ''full''))" "()" demo_window 0] show ?thesis
    by (simp add: window_admit_def window_new_def demo_settings_def demo_window_def Let_def)
qed

text \<open>
  The first record's answer misses its deadline while the publish finishes; the second record, whose
  refusal has arrived by then, is settled.
\<close>

theorem publish_accounts_for_every_record_witness:
  "\<exists>out e t unresolved. publish_end demo_wait demo_poll 0 None demo_window = Some out \<and>
    po_delivered out = [] \<and> map rm_id (po_rejected out) = [2] \<and>
    po_error out = Some e \<and> rp_cause e = Some (AnswerTimedOut 5) \<and>
    fails_settled demo_wait demo_poll (cw_in_flight demo_window) t e out \<and>
    accounts demo_wait demo_poll [(1, 9, Inr Confirmed), (2, 4, Inr (Rejected ''full''))] [] [] out unresolved"
proof -
  have "\<exists>out e. publish_end demo_wait demo_poll 0 None demo_window = Some out \<and>
      po_delivered out = [] \<and> map rm_id (po_rejected out) = [2] \<and>
      po_error out = Some e \<and> rp_cause e = Some (AnswerTimedOut 5)"
    by (simp add: publish_end_def finish.simps settle_oldest_def demo_wait_def demo_poll_def demo_window_def
        demo_settings_def stopped_def fail_def fail_outcome_def empty_outcome_def reject_def external_rejection_def)
  then show ?thesis using publish_accounts_for_every_record [OF demo_publishing, of demo_poll] by fastforce
qed

text \<open>
  The window is bounded. With a positive \<open>MAX\<close>, at most \<open>MAX\<close> records ever await their answers, fewer
  than \<open>MAX\<close> whenever the next record may be handed over, and every deadline is within the clock's range.
\<close>

lemma window_never_exceeds_max:
  assumes "publishing wait latest connector settings hs rs w now failure" and "0 < ac_max_in_flight settings"
  shows "length (cw_in_flight w) \<le> ac_max_in_flight settings \<and>
    (failure = None \<longrightarrow> length (cw_in_flight w) < ac_max_in_flight settings) \<and>
    (\<forall>f \<in> set (cw_in_flight w). if_deadline f \<le> latest)"
  using publishing_within [OF assms(2,1)] by (simp add: within_def)

end
