(* ===== verification/Window_Arguments.thy ===== *)
theory Window_Arguments
  imports Finite_Mask "HOL-Library.Char_ord" "HOL-Library.List_Lexorder" "HOL-Library.Product_Lexorder"
begin

text \<open>
  The argument columns a window reads (src/runtime/window_accumulator/arguments.rs): the typed values of
  one column with its null bitmap, the run of values the kernels fold, the folds themselves and the order of
  two present values.

  An Arrow array is its values, its number of rows and its optional null bitmap; integers keep their width and
  floats are IEEE bit patterns. \<open>ARRAY\<close> and \<open>VEC\<close> values, which a window only passes through, have no value here.
  The order of floats is the one the code documents for \<open>OrderedFloat\<close>: not-a-number above every other value and
  both zeros equal.
\<close>

unbundle bit_operations_syntax

section \<open>Columns\<close>

datatype data_type =
  UInt8 | Int8 | UInt16 | Int16 | UInt32 | Int32 | UInt64 | Int64 | Float32 | Float64 | Boolean | Utf8 | Timestamp_Nanosecond | Nested

datatype argument_values =
  UInt8_values "8 word list" | Int8_values "8 word list"
| UInt16_values "16 word list" | Int16_values "16 word list"
| UInt32_values "32 word list" | Int32_values "32 word list"
| UInt64_values "64 word list" | Int64_values "64 word list"
| Float32_values "32 word list" | Float64_values "64 word list"
| Boolean_values "byte list" nat
| Utf8_values "string list"
| Timestamp_values "64 word list"
| Passthrough

record null_buffer =
  nb_validity :: "byte list"
  nb_offset :: nat

record argument_column =
  ac_nulls :: "null_buffer option"
  ac_rows :: nat
  ac_values :: argument_values

datatype typed_run =
  UInt8_run "8 word list" run_validity | Int8_run "8 word list" run_validity
| UInt16_run "16 word list" run_validity | Int16_run "16 word list" run_validity
| UInt32_run "32 word list" run_validity | Int32_run "32 word list" run_validity
| UInt64_run "64 word list" run_validity | Int64_run "64 word list" run_validity
| Float32_run "32 word list" run_validity | Float64_run "64 word list" run_validity

definition validity :: "argument_column \<Rightarrow> nat \<Rightarrow> run_validity" where
  "validity c start =
     (case ac_nulls c of
        Some nulls \<Rightarrow> \<lparr>rv_bits = Some (nb_validity nulls), rv_offset = nb_offset nulls + start\<rparr>
      | None \<Rightarrow> \<lparr>rv_bits = None, rv_offset = 0\<rparr>)"

definition number_run :: "argument_column \<Rightarrow> nat \<Rightarrow> nat \<Rightarrow> typed_run panics" where
  "number_run c s e = (let valid = validity c s in
     case ac_values c of
       UInt8_values vs \<Rightarrow> do { run \<leftarrow> slice_range vs s e; Some (UInt8_run run valid) }
     | Int8_values vs \<Rightarrow> do { run \<leftarrow> slice_range vs s e; Some (Int8_run run valid) }
     | UInt16_values vs \<Rightarrow> do { run \<leftarrow> slice_range vs s e; Some (UInt16_run run valid) }
     | Int16_values vs \<Rightarrow> do { run \<leftarrow> slice_range vs s e; Some (Int16_run run valid) }
     | UInt32_values vs \<Rightarrow> do { run \<leftarrow> slice_range vs s e; Some (UInt32_run run valid) }
     | Int32_values vs \<Rightarrow> do { run \<leftarrow> slice_range vs s e; Some (Int32_run run valid) }
     | UInt64_values vs \<Rightarrow> do { run \<leftarrow> slice_range vs s e; Some (UInt64_run run valid) }
     | Int64_values vs \<Rightarrow> do { run \<leftarrow> slice_range vs s e; Some (Int64_run run valid) }
     | Float32_values vs \<Rightarrow> do { run \<leftarrow> slice_range vs s e; Some (Float32_run run valid) }
     | Float64_values vs \<Rightarrow> do { run \<leftarrow> slice_range vs s e; Some (Float64_run run valid) }
     | _ \<Rightarrow> panic)"

fun integer_sum :: "nat \<Rightarrow> typed_run \<Rightarrow> (nat \<times> int) panics" where
  "integer_sum width (UInt8_run vs valid) = sum_integer uint vs valid"
| "integer_sum width (Int8_run vs valid) = sum_integer sint vs valid"
| "integer_sum width (UInt16_run vs valid) = sum_integer uint vs valid"
| "integer_sum width (Int16_run vs valid) = sum_integer sint vs valid"
| "integer_sum width (UInt32_run vs valid) = sum_integer uint vs valid"
| "integer_sum width (Int32_run vs valid) = sum_integer sint vs valid"
| "integer_sum width (UInt64_run vs valid) = sum_u64 width vs valid"
| "integer_sum width (Int64_run vs valid) = sum_i64 width vs valid"
| "integer_sum width (Float32_run vs valid) = panic"
| "integer_sum width (Float64_run vs valid) = panic"

definition boolean_counts :: "argument_column \<Rightarrow> nat \<Rightarrow> nat \<Rightarrow> (nat \<times> nat) panics" where
  "boolean_counts c s e =
     (case ac_values c of
        Boolean_values bits offset \<Rightarrow> count_booleans bits (offset + s) (validity c s) (e - s)
      | _ \<Rightarrow> panic)"

definition is_present :: "argument_column \<Rightarrow> nat \<Rightarrow> bool panics" where
  "is_present c row =
     (case ac_nulls c of
        None \<Rightarrow> Some True
      | Some nulls \<Rightarrow> if row < ac_rows c then rv_contains (validity c 0) row else panic)"

section \<open>Extremes and order\<close>

text \<open>
  The rank of a float in the order of \<open>OrderedFloat\<close>, and \<open>PartialOrd\<close> on floats, in which not-a-number compares
  to nothing.
\<close>

definition float_rank :: "nat \<Rightarrow> nat \<Rightarrow> 'w::len word \<Rightarrow> int" where
  "float_rank m e x =
     (if is_nan m e x then 2 ^ (m + e)
      else if bit x (m + e) then - uint (float_abs m e x) else uint (float_abs m e x))"

definition float_less :: "nat \<Rightarrow> nat \<Rightarrow> 'w::len word \<Rightarrow> 'w word \<Rightarrow> bool" where
  "float_less m e x y \<longleftrightarrow> \<not> is_nan m e x \<and> \<not> is_nan m e y \<and> float_rank m e x < float_rank m e y"

definition offsets_of :: "((nat \<times> 'a) \<times> nat \<times> 'a) option panics \<Rightarrow> (nat \<times> nat) option panics" where
  "offsets_of r = map_option (map_option (\<lambda>(low, high). (fst low, fst high))) r"

fun extreme_offsets :: "typed_run \<Rightarrow> (nat \<times> nat) option panics" where
  "extreme_offsets (UInt8_run vs valid) = offsets_of (min_max (\<lambda>x y. uint x < uint y) vs valid)"
| "extreme_offsets (Int8_run vs valid) = offsets_of (min_max (\<lambda>x y. sint x < sint y) vs valid)"
| "extreme_offsets (UInt16_run vs valid) = offsets_of (min_max (\<lambda>x y. uint x < uint y) vs valid)"
| "extreme_offsets (Int16_run vs valid) = offsets_of (min_max (\<lambda>x y. sint x < sint y) vs valid)"
| "extreme_offsets (UInt32_run vs valid) = offsets_of (min_max (\<lambda>x y. uint x < uint y) vs valid)"
| "extreme_offsets (Int32_run vs valid) = offsets_of (min_max (\<lambda>x y. sint x < sint y) vs valid)"
| "extreme_offsets (UInt64_run vs valid) = offsets_of (min_max (\<lambda>x y. uint x < uint y) vs valid)"
| "extreme_offsets (Int64_run vs valid) = offsets_of (min_max (\<lambda>x y. sint x < sint y) vs valid)"
| "extreme_offsets (Float32_run vs valid) = offsets_of (min_max (float_less 23 8) vs valid)"
| "extreme_offsets (Float64_run vs valid) = offsets_of (min_max (float_less 52 11) vs valid)"

fun value_type :: "argument_values \<Rightarrow> data_type" where
  "value_type (UInt8_values vs) = UInt8"
| "value_type (Int8_values vs) = Int8"
| "value_type (UInt16_values vs) = UInt16"
| "value_type (Int16_values vs) = Int16"
| "value_type (UInt32_values vs) = UInt32"
| "value_type (Int32_values vs) = Int32"
| "value_type (UInt64_values vs) = UInt64"
| "value_type (Int64_values vs) = Int64"
| "value_type (Float32_values vs) = Float32"
| "value_type (Float64_values vs) = Float64"
| "value_type (Boolean_values bits offset) = Boolean"
| "value_type (Utf8_values vs) = Utf8"
| "value_type (Timestamp_values vs) = Timestamp_Nanosecond"
| "value_type Passthrough = Nested"

definition numeric_type :: "data_type \<Rightarrow> bool" where
  "numeric_type t \<longleftrightarrow> t \<notin> {Boolean, Utf8, Timestamp_Nanosecond, Nested}"

definition numeric_extreme_rows :: "argument_column \<Rightarrow> nat \<Rightarrow> nat \<Rightarrow> (nat \<times> nat) option panics" where
  "numeric_extreme_rows c s e =
     (if \<not> numeric_type (value_type (ac_values c)) then Some None
      else do {
        run \<leftarrow> number_run c s e;
        extremes \<leftarrow> extreme_offsets run;
        Some (map_option (\<lambda>(smallest, largest). (s + smallest, s + largest)) extremes)
      })"

datatype ordering = Less | Equal | Greater

definition cmp :: "'a::linorder \<Rightarrow> 'a \<Rightarrow> ordering" where
  "cmp a b = (if a < b then Less else if a = b then Equal else Greater)"

lemma cmp_iff [simp]: "cmp a b = Less \<longleftrightarrow> a < b" "cmp a b = Equal \<longleftrightarrow> a = b" "cmp a b = Greater \<longleftrightarrow> b < a"
  by (auto simp: cmp_def)

text \<open>
  The key by which two present values of one type are ordered: a number, or the bytes of a string. Reading past
  the array is a panic, and so is comparing values that a window only passes through.
\<close>

fun value_key :: "argument_values \<Rightarrow> nat \<Rightarrow> (int \<times> string) panics" where
  "value_key (UInt8_values vs) i = do { v \<leftarrow> elem_at vs i; Some (uint v, []) }"
| "value_key (Int8_values vs) i = do { v \<leftarrow> elem_at vs i; Some (sint v, []) }"
| "value_key (UInt16_values vs) i = do { v \<leftarrow> elem_at vs i; Some (uint v, []) }"
| "value_key (Int16_values vs) i = do { v \<leftarrow> elem_at vs i; Some (sint v, []) }"
| "value_key (UInt32_values vs) i = do { v \<leftarrow> elem_at vs i; Some (uint v, []) }"
| "value_key (Int32_values vs) i = do { v \<leftarrow> elem_at vs i; Some (sint v, []) }"
| "value_key (UInt64_values vs) i = do { v \<leftarrow> elem_at vs i; Some (uint v, []) }"
| "value_key (Int64_values vs) i = do { v \<leftarrow> elem_at vs i; Some (sint v, []) }"
| "value_key (Float32_values vs) i = do { v \<leftarrow> elem_at vs i; Some (float_rank 23 8 v, []) }"
| "value_key (Float64_values vs) i = do { v \<leftarrow> elem_at vs i; Some (float_rank 52 11 v, []) }"
| "value_key (Boolean_values bits offset) i = do {
     b \<leftarrow> elem_at bits ((offset + i) div 8);
     Some (of_bool (bit b ((offset + i) mod 8)), [])
   }"
| "value_key (Utf8_values vs) i = do { v \<leftarrow> elem_at vs i; Some (0, v) }"
| "value_key (Timestamp_values vs) i = do { v \<leftarrow> elem_at vs i; Some (sint v, []) }"
| "value_key Passthrough i = panic"

definition column_compare :: "argument_column \<Rightarrow> nat \<Rightarrow> argument_column \<Rightarrow> nat \<Rightarrow> ordering panics" where
  "column_compare c row other other_row =
     (if value_type (ac_values c) \<noteq> value_type (ac_values other) then panic
      else do {
        left \<leftarrow> value_key (ac_values c) row;
        right \<leftarrow> value_key (ac_values other) other_row;
        Some (cmp left right)
      })"

section \<open>What a column holds\<close>

definition present_at :: "argument_column \<Rightarrow> nat \<Rightarrow> bool" where
  "present_at c row = present (validity c 0) row"

fun integer_at :: "argument_values \<Rightarrow> nat \<Rightarrow> int" where
  "integer_at (UInt8_values vs) i = uint (vs ! i)"
| "integer_at (Int8_values vs) i = sint (vs ! i)"
| "integer_at (UInt16_values vs) i = uint (vs ! i)"
| "integer_at (Int16_values vs) i = sint (vs ! i)"
| "integer_at (UInt32_values vs) i = uint (vs ! i)"
| "integer_at (Int32_values vs) i = sint (vs ! i)"
| "integer_at (UInt64_values vs) i = uint (vs ! i)"
| "integer_at (Int64_values vs) i = sint (vs ! i)"
| "integer_at _ i = 0"

fun integer_values :: "argument_values \<Rightarrow> bool" where
  "integer_values (UInt8_values vs) = True"
| "integer_values (Int8_values vs) = True"
| "integer_values (UInt16_values vs) = True"
| "integer_values (Int16_values vs) = True"
| "integer_values (UInt32_values vs) = True"
| "integer_values (Int32_values vs) = True"
| "integer_values (UInt64_values vs) = True"
| "integer_values (Int64_values vs) = True"
| "integer_values _ = False"

fun boolean_values :: "argument_values \<Rightarrow> bool" where
  "boolean_values (Boolean_values bits offset) = True"
| "boolean_values _ = False"

fun boolean_at :: "argument_values \<Rightarrow> nat \<Rightarrow> bool" where
  "boolean_at (Boolean_values bits offset) i = bitmap bits (offset + i)"
| "boolean_at _ i = False"

text \<open>An Arrow array holds a value for each of its rows, and its bitmaps reach its last row.\<close>

fun values_cover :: "argument_values \<Rightarrow> nat \<Rightarrow> bool" where
  "values_cover (UInt8_values vs) n = (length vs = n)"
| "values_cover (Int8_values vs) n = (length vs = n)"
| "values_cover (UInt16_values vs) n = (length vs = n)"
| "values_cover (Int16_values vs) n = (length vs = n)"
| "values_cover (UInt32_values vs) n = (length vs = n)"
| "values_cover (Int32_values vs) n = (length vs = n)"
| "values_cover (UInt64_values vs) n = (length vs = n)"
| "values_cover (Int64_values vs) n = (length vs = n)"
| "values_cover (Float32_values vs) n = (length vs = n)"
| "values_cover (Float64_values vs) n = (length vs = n)"
| "values_cover (Boolean_values bits offset) n = (offset + n \<le> 8 * length bits)"
| "values_cover (Utf8_values vs) n = (length vs = n)"
| "values_cover (Timestamp_values vs) n = (length vs = n)"
| "values_cover Passthrough n = True"

definition column_ok :: "argument_column \<Rightarrow> bool" where
  "column_ok c \<longleftrightarrow> values_cover (ac_values c) (ac_rows c) \<and> covers (validity c 0) (ac_rows c)"

section \<open>Runs read the rows they name\<close>

lemma present_validity: "present (validity c s) i = present_at c (s + i)"
  by (simp add: present_at_def present_def validity_def add.assoc split: option.split)

lemma covers_validity: "column_ok c \<Longrightarrow> s \<le> e \<Longrightarrow> e \<le> ac_rows c \<Longrightarrow> covers (validity c s) (e - s)"
  by (auto simp: column_ok_def covers_def validity_def split: option.splits)

lemma is_present_ok: "column_ok c \<Longrightarrow> row < ac_rows c \<Longrightarrow> is_present c row = Some (present_at c row)"
  by (auto simp: is_present_def present_at_def column_ok_def rv_contains_ok present_def validity_def split: option.splits)

lemma map_upt_shift: "map (\<lambda>i. s + i) [0..<n] = [s..<s + n]"
  by (rule nth_equalityI) simp_all

lemma filter_shift: "map (\<lambda>i. s + i) (filter (\<lambda>i. P (s + i)) [0..<n]) = filter P [s..<s + n]"
  by (simp add: filter_map o_def flip: map_upt_shift)

lemma present_sum_filter:
  "present_sum conv rv i vs = sum_list (map (\<lambda>j. conv (vs ! j)) (filter (\<lambda>j. present rv (i + j)) [0..<length vs]))"
proof (induction vs rule: rev_induct)
  case (snoc v vs)
  let ?rows = "filter (\<lambda>j. present rv (i + j)) [0..<length vs]"
  have "map (\<lambda>j. conv ((vs @ [v]) ! j)) ?rows = map (\<lambda>j. conv (vs ! j)) ?rows"
    by (auto simp: nth_append)
  then have "sum_list (map (\<lambda>j. conv ((vs @ [v]) ! j)) ?rows) = sum_list (map (\<lambda>j. conv (vs ! j)) ?rows)" by (rule arg_cong)
  with snoc show ?case by (simp add: present_sum_append)
qed simp

lemma run_count:
  "s \<le> e \<Longrightarrow> length (filter (\<lambda>i. present (validity c s) i) [0..<e - s]) = length (filter (present_at c) [s..<e])"
  using arg_cong [OF filter_shift [of s "present_at c" "e - s"], of length] by (simp add: present_validity)

lemma run_sum:
  assumes "s \<le> e" and "e \<le> length vs"
  shows "present_sum conv (validity c s) 0 (take (e - s) (drop s vs)) =
    sum_list (map (\<lambda>i. conv (vs ! i)) (filter (present_at c) [s..<e]))"
proof -
  have "present_sum conv (validity c s) 0 (take (e - s) (drop s vs)) =
      sum_list (map (\<lambda>j. conv (vs ! (s + j))) (filter (\<lambda>j. present_at c (s + j)) [0..<e - s]))"
    using assms by (simp add: present_sum_filter present_validity) (auto intro!: arg_cong [of _ _ sum_list])
  also have "\<dots> = sum_list (map (\<lambda>i. conv (vs ! i)) (map (\<lambda>j. s + j) (filter (\<lambda>j. present_at c (s + j)) [0..<e - s])))"
    by (simp add: o_def)
  also have "\<dots> = sum_list (map (\<lambda>i. conv (vs ! i)) (filter (present_at c) [s..<e]))"
    using assms(1) by (simp only: filter_shift le_add_diff_inverse)
  finally show ?thesis .
qed

lemma integer_at_fun:
  "integer_at (UInt8_values a) = (\<lambda>i. uint (a ! i))" "integer_at (Int8_values a) = (\<lambda>i. sint (a ! i))"
  "integer_at (UInt16_values b) = (\<lambda>i. uint (b ! i))" "integer_at (Int16_values b) = (\<lambda>i. sint (b ! i))"
  "integer_at (UInt32_values d) = (\<lambda>i. uint (d ! i))" "integer_at (Int32_values d) = (\<lambda>i. sint (d ! i))"
  "integer_at (UInt64_values l) = (\<lambda>i. uint (l ! i))" "integer_at (Int64_values l) = (\<lambda>i. sint (l ! i))"
  by (simp_all add: fun_eq_iff)

lemmas run_sums = integer_at_fun sum_integer_ok sum_i64_ok sum_u64_ok run_count run_sum

lemma integer_sum_ok:
  assumes ok: "column_ok c" and ints: "integer_values (ac_values c)" and range: "s \<le> e" "e \<le> ac_rows c" and width: "0 < width"
  shows "do { run \<leftarrow> number_run c s e; integer_sum width run } =
    Some (length (filter (present_at c) [s..<e]), sum_list (map (integer_at (ac_values c)) (filter (present_at c) [s..<e])))"
proof -
  have "covers (validity c s) (e - s)" using covers_validity ok range by blast
  then show ?thesis
    using ok ints range width
    by (cases "ac_values c") (simp_all add: number_run_def slice_range_def column_ok_def run_sums)
qed

lemma boolean_counts_ok:
  assumes ok: "column_ok c" and bools: "boolean_values (ac_values c)" and range: "s \<le> e" "e \<le> ac_rows c"
  shows "boolean_counts c s e =
    Some (length (filter (\<lambda>i. present_at c i \<and> boolean_at (ac_values c) i) [s..<e]),
          length (filter (\<lambda>i. present_at c i \<and> \<not> boolean_at (ac_values c) i) [s..<e]))"
proof (cases "ac_values c")
  case (Boolean_values bits offset)
  have cov: "covers (validity c s) (e - s)" using covers_validity ok range by blast
  have "offset + s + (e - s) \<le> 8 * length bits" using ok range Boolean_values by (simp add: column_ok_def)
  then show ?thesis
    using count_booleans_ok [OF cov] range
      arg_cong [OF filter_shift [of s "\<lambda>i. present_at c i \<and> bitmap bits (offset + i)" "e - s"], of length]
      arg_cong [OF filter_shift [of s "\<lambda>i. present_at c i \<and> \<not> bitmap bits (offset + i)" "e - s"], of length]
    by (simp add: boolean_counts_def Boolean_values present_validity add.assoc)
qed (use bools in simp_all)

lemma min_max_loop_within:
  assumes "covers rv len" and "i + length vs \<le> len"
    and "\<And>j v. s = Some (j, v) \<Longrightarrow> j < len \<and> present rv j" and "\<And>j v. l = Some (j, v) \<Longrightarrow> j < len \<and> present rv j"
  shows "\<exists>s' l'. min_max_loop lt rv i vs s l = Some (s', l') \<and>
    (\<forall>j v. s' = Some (j, v) \<longrightarrow> j < len \<and> present rv j) \<and> (\<forall>j v. l' = Some (j, v) \<longrightarrow> j < len \<and> present rv j)"
  using assms(2-)
proof (induction vs arbitrary: i s l)
  case (Cons v vs)
  have contains: "rv_contains rv i = Some (present rv i)" using Cons.prems(1) assms(1) by (simp add: rv_contains_ok)
  show ?case
  proof (cases "present rv i")
    case True
    let ?s = "case s of Some (_, current) \<Rightarrow> if lt v current then Some (i, v) else s | None \<Rightarrow> Some (i, v)"
    let ?l = "case l of Some (_, current) \<Rightarrow> if lt current v then Some (i, v) else l | None \<Rightarrow> Some (i, v)"
    have i: "Suc i + length vs \<le> len" "i < len" using Cons.prems(1) by simp_all
    have s: "j < len \<and> present rv j" if "?s = Some (j, w)" for j w
      using that Cons.prems(2) True i(2) by (auto split: option.splits if_splits)
    have l: "j < len \<and> present rv j" if "?l = Some (j, w)" for j w
      using that Cons.prems(3) True i(2) by (auto split: option.splits if_splits)
    have "min_max_loop lt rv i (v # vs) s l = min_max_loop lt rv (Suc i) vs ?s ?l" using contains True by simp
    then show ?thesis using Cons.IH [of "Suc i" ?s ?l, OF i(1) s l] by (simp only:)
  next
    case False
    then show ?thesis using contains Cons.prems Cons.IH [of "Suc i" s l] by simp
  qed
qed auto

lemma min_max_within:
  assumes "covers rv (length vs)"
  shows "\<exists>r. offsets_of (min_max lt vs rv) = Some r \<and>
    (case r of None \<Rightarrow> True | Some (i, j) \<Rightarrow> i < length vs \<and> present rv i \<and> j < length vs \<and> present rv j)"
proof -
  obtain s l where "min_max_loop lt rv 0 vs None None = Some (s, l)"
    "\<forall>j v. s = Some (j, v) \<longrightarrow> j < length vs \<and> present rv j" "\<forall>j v. l = Some (j, v) \<longrightarrow> j < length vs \<and> present rv j"
    using min_max_loop_within [OF assms, where i = 0 and vs = vs and s = None and l = None and lt = lt] by auto
  then show ?thesis by (cases s; cases l) (auto simp: min_max_def offsets_of_def)
qed

lemma numeric_extreme_rows_ok:
  assumes ok: "column_ok c" and range: "s \<le> e" "e \<le> ac_rows c"
  shows "\<exists>r. numeric_extreme_rows c s e = Some r \<and>
    (case r of None \<Rightarrow> True | Some (i, j) \<Rightarrow> s \<le> i \<and> i < e \<and> present_at c i \<and> s \<le> j \<and> j < e \<and> present_at c j)"
proof (cases "numeric_type (value_type (ac_values c))")
  case True
  have cov: "covers (validity c s) (e - s)" using covers_validity ok range by blast
  have within: "\<exists>r. offsets_of (min_max lt (take (e - s) (drop s vs)) (validity c s)) = Some r \<and>
      (case r of None \<Rightarrow> True | Some (i, j) \<Rightarrow> i < e - s \<and> present_at c (s + i) \<and> j < e - s \<and> present_at c (s + j))"
    if "length vs = ac_rows c" for lt :: "'v \<Rightarrow> 'v \<Rightarrow> bool" and vs
  proof -
    have len: "length (take (e - s) (drop s vs)) = e - s" using that range by simp
    from min_max_within [of "validity c s" "take (e - s) (drop s vs)" lt, unfolded len present_validity, OF cov] show ?thesis .
  qed
  have "\<exists>nr. number_run c s e = Some nr \<and> (\<exists>r. extreme_offsets nr = Some r \<and>
      (case r of None \<Rightarrow> True | Some (i, j) \<Rightarrow> i < e - s \<and> present_at c (s + i) \<and> j < e - s \<and> present_at c (s + j)))"
    using True ok range
    by (cases "ac_values c") (simp_all add: number_run_def slice_range_def column_ok_def numeric_type_def within)
  then obtain nr r where nr: "number_run c s e = Some nr" "extreme_offsets nr = Some r"
    "case r of None \<Rightarrow> True | Some (i, j) \<Rightarrow> i < e - s \<and> present_at c (s + i) \<and> j < e - s \<and> present_at c (s + j)"
    by blast
  then show ?thesis using True by (cases r) (auto simp: numeric_extreme_rows_def)
qed (simp add: numeric_extreme_rows_def)

end
