(* ===== verification/Window_Rows.thy ===== *)
theory Window_Rows
  imports Window_Arguments
begin

text \<open>
  The rows a window retains and how they are grouped into runs
  (src/runtime/window_accumulator/mod.rs): \<open>WindowRow\<close>, \<open>WindowRowRun\<close> and the iterator \<open>RetainedRuns\<close>.

  A row's argument columns are shared with the other rows of its batch. \<open>Arc::ptr_eq\<close> compares the address of
  the shared columns, here the number \<open>wr_batch\<close>; two rows with the same address hold the same columns. The
  iterator is the list of the runs it yields. \<open>usize\<close> is 64 bits wide.
\<close>

section \<open>Rows and runs\<close>

record window_arguments =
  wa_first :: argument_column
  wa_second :: "argument_column option"

record window_row =
  wr_sequence :: nat
  wr_timestamp :: int
  wr_batch :: nat
  wr_arguments :: "window_arguments list"
  wr_row :: nat

record row_run =
  rr_arguments :: "window_arguments list"
  rr_start :: nat
  rr_end :: nat
  rr_first_position :: nat

definition run_demand :: "row_run \<Rightarrow> nat \<Rightarrow> window_arguments panics" where
  "run_demand run demand = elem_at (rr_arguments run) demand"

fun positioned_from :: "nat \<Rightarrow> nat \<Rightarrow> nat list \<Rightarrow> (nat \<times> nat) list panics" where
  "positioned_from first offset [] = Some []"
| "positioned_from first offset (row # rows) = do {
     position \<leftarrow> checked_add u64_max first offset;
     rest \<leftarrow> positioned_from first (Suc offset) rows;
     Some ((row, position) # rest)
   }"

definition positioned_rows :: "row_run \<Rightarrow> (nat \<times> nat) list panics" where
  "positioned_rows run = positioned_from (rr_first_position run) 0 [rr_start run..<rr_end run]"

function extend_run :: "window_row list \<Rightarrow> nat \<Rightarrow> nat \<Rightarrow> nat \<Rightarrow> nat \<Rightarrow> (nat \<times> nat) panics" where
  "extend_run rows end batch run_end next_row =
     (if run_end < end then do {
        candidate \<leftarrow> elem_at rows run_end;
        if wr_batch candidate \<noteq> batch \<or> wr_row candidate \<noteq> next_row then Some (run_end, next_row)
        else do {
          run_end' \<leftarrow> checked_add u64_max run_end 1;
          next_row' \<leftarrow> checked_add u64_max next_row 1;
          extend_run rows end batch run_end' next_row'
        }
      } else Some (run_end, next_row))"
  by pat_completeness auto
termination
  by (relation "measure (\<lambda>(rows, end, batch, run_end, next_row). end - run_end)") (auto simp: panic_simps)

declare extend_run.simps [simp del]

lemma extend_run_later: "extend_run rows end batch run_end next_row = Some (e, n) \<Longrightarrow> run_end \<le> e"
proof (induction rows "end" batch run_end next_row rule: extend_run.induct)
  case (1 rows "end" batch run_end next_row)
  from 1(2) 1(1) [of "rows ! run_end" "Suc run_end" "Suc next_row"] show ?case
    by (subst (asm) extend_run.simps)
      (auto simp: panic_simps elem_at_def split: if_splits Option.bind_splits dest: Suc_leD)
qed

function retained_runs :: "window_row list \<Rightarrow> nat \<Rightarrow> nat \<Rightarrow> row_run list panics" where
  "retained_runs rows start end =
     (if end \<le> start then Some []
      else do {
        first \<leftarrow> elem_at rows start;
        run_end \<leftarrow> checked_add u64_max start 1;
        next_row \<leftarrow> checked_add u64_max (wr_row first) 1;
        (run_end', next_row') \<leftarrow> extend_run rows end (wr_batch first) run_end next_row;
        runs \<leftarrow> retained_runs rows run_end' end;
        Some (\<lparr>rr_arguments = wr_arguments first, rr_start = wr_row first, rr_end = next_row', rr_first_position = start\<rparr> # runs)
      })"
  by pat_completeness auto
termination
  by (relation "measure (\<lambda>(rows, start, end). end - start)") (auto simp: panic_simps dest!: extend_run_later)

declare retained_runs.simps [simp del]

section \<open>What a window's rows hold\<close>

text \<open>
  The rows are held in memory, so there are fewer than \<open>2^63\<close> of them and their indexes are below the width of
  \<open>usize\<close>. A row holds an argument column for each of the demands, and lies within them.
\<close>

definition arguments_ok :: "window_arguments \<Rightarrow> nat \<Rightarrow> bool" where
  "arguments_ok args row \<longleftrightarrow>
     column_ok (wa_first args) \<and> row < ac_rows (wa_first args) \<and>
     (case wa_second args of None \<Rightarrow> True | Some c \<Rightarrow> column_ok c \<and> row < ac_rows c)"

definition row_ok :: "nat \<Rightarrow> window_row \<Rightarrow> bool" where
  "row_ok demands r \<longleftrightarrow>
     wr_row r < u64_max \<and> length (wr_arguments r) = demands \<and> (\<forall>args \<in> set (wr_arguments r). arguments_ok args (wr_row r))"

definition rows_ok :: "nat \<Rightarrow> window_row list \<Rightarrow> bool" where
  "rows_ok demands rows \<longleftrightarrow>
     length rows < 2 ^ 63 \<and> (\<forall>r \<in> set rows. row_ok demands r) \<and>
     (\<forall>r \<in> set rows. \<forall>r' \<in> set rows. wr_batch r = wr_batch r' \<longrightarrow> wr_arguments r = wr_arguments r')"

definition run_positions :: "row_run \<Rightarrow> nat list" where
  "run_positions run = [rr_first_position run..<rr_first_position run + (rr_end run - rr_start run)]"

definition placed :: "window_row list \<Rightarrow> row_run \<Rightarrow> bool" where
  "placed rows run \<longleftrightarrow> rr_start run < rr_end run \<and>
     (\<forall>i < rr_end run - rr_start run.
        wr_arguments (rows ! (rr_first_position run + i)) = rr_arguments run \<and>
        wr_row (rows ! (rr_first_position run + i)) = rr_start run + i)"

section \<open>The runs are the rows they were asked for\<close>

lemma position_bound: "rows_ok demands rows \<Longrightarrow> p < length rows \<Longrightarrow> Suc p \<le> u64_max"
  by (simp add: rows_ok_def u64_max_def)

lemma row_bound: "rows_ok demands rows \<Longrightarrow> p < length rows \<Longrightarrow> Suc (wr_row (rows ! p)) \<le> u64_max"
  using nth_mem [of p rows] by (auto simp: rows_ok_def row_ok_def Suc_le_eq)

lemma extend_run_ok:
  assumes "rows_ok demands rows" and "end \<le> length rows" and "run_end \<le> end" and "next_row \<le> u64_max"
  shows "\<exists>k. extend_run rows end batch run_end next_row = Some (run_end + k, next_row + k) \<and> run_end + k \<le> end \<and>
    (\<forall>i < k. wr_batch (rows ! (run_end + i)) = batch \<and> wr_row (rows ! (run_end + i)) = next_row + i)"
  using assms(3,4)
proof (induction "end - run_end" arbitrary: run_end next_row)
  case 0
  then show ?case by (intro exI [of _ 0]) (subst extend_run.simps, simp)
next
  case (Suc n)
  then have lt: "run_end < end" by simp
  then have mem: "rows ! run_end \<in> set rows" using assms(2) by simp
  show ?case
  proof (cases "wr_batch (rows ! run_end) = batch \<and> wr_row (rows ! run_end) = next_row")
    case True
    have bounds: "Suc run_end \<le> u64_max" "Suc next_row \<le> u64_max"
      using position_bound row_bound assms(1,2) lt True by (metis less_le_trans)+
    have "n = end - Suc run_end" "Suc run_end \<le> end" using Suc(2) lt by simp_all
    from Suc(1) [OF this bounds(2)]
    obtain k where k: "extend_run rows end batch (Suc run_end) (Suc next_row) = Some (Suc run_end + k, Suc next_row + k)"
      "Suc run_end + k \<le> end"
      "\<forall>i < k. wr_batch (rows ! (Suc run_end + i)) = batch \<and> wr_row (rows ! (Suc run_end + i)) = Suc next_row + i"
      by blast
    have "\<forall>i < Suc k. wr_batch (rows ! (run_end + i)) = batch \<and> wr_row (rows ! (run_end + i)) = next_row + i"
      using k(3) True by (auto simp: less_Suc_eq_0_disj)
    then show ?thesis
      using k(1,2) True bounds lt assms(2)
      by (intro exI [of _ "Suc k"]) (simp add: extend_run.simps [of rows "end" batch run_end] elem_at_def checked_add_def)
  next
    case False
    then show ?thesis
      using lt assms(2) by (intro exI [of _ 0]) (subst extend_run.simps, simp add: elem_at_def)
  qed
qed

lemma retained_runs_ok:
  assumes "rows_ok demands rows" and "end \<le> length rows" and "start \<le> end"
  shows "\<exists>runs. retained_runs rows start end = Some runs \<and> concat (map run_positions runs) = [start..<end] \<and>
    list_all (placed rows) runs"
  using assms(3)
proof (induction "end - start" arbitrary: start rule: less_induct)
  case less
  show ?case
  proof (cases "start < end")
    case True
    let ?first = "rows ! start"
    have mem: "?first \<in> set rows" using True assms(2) by simp
    have bounds: "Suc start \<le> u64_max" "Suc (wr_row ?first) \<le> u64_max"
      using position_bound row_bound assms(1,2) True by (metis less_le_trans)+
    obtain k where k: "extend_run rows end (wr_batch ?first) (Suc start) (Suc (wr_row ?first)) = Some (Suc start + k, Suc (wr_row ?first) + k)"
      "Suc start + k \<le> end"
      "\<forall>i < k. wr_batch (rows ! (Suc start + i)) = wr_batch ?first \<and> wr_row (rows ! (Suc start + i)) = Suc (wr_row ?first) + i"
      using extend_run_ok [OF assms(1,2), of "Suc start" "Suc (wr_row ?first)" "wr_batch ?first"] True bounds by auto
    have "end - (Suc start + k) < end - start" using True by linarith
    from less(1) [OF this k(2)]
    obtain runs where runs: "retained_runs rows (Suc start + k) end = Some runs"
      "concat (map run_positions runs) = [Suc start + k..<end]" "list_all (placed rows) runs"
      by blast
    define run where "run = \<lparr>rr_arguments = wr_arguments ?first, rr_start = wr_row ?first, rr_end = Suc (wr_row ?first) + k, rr_first_position = start\<rparr>"
    have same: "wr_arguments (rows ! (start + i)) = wr_arguments ?first \<and> wr_row (rows ! (start + i)) = wr_row ?first + i" if "i < Suc k" for i
    proof (cases i)
      case (Suc j)
      then have row: "wr_batch (rows ! (start + i)) = wr_batch ?first" "wr_row (rows ! (start + i)) = wr_row ?first + i"
        using that k(3) [rule_format, of j] by simp_all
      have "rows ! (start + i) \<in> set rows" using that k(2) assms(2) by simp
      then have "wr_arguments (rows ! (start + i)) = wr_arguments ?first"
        using row(1) mem assms(1) unfolding rows_ok_def by blast
      with row(2) show ?thesis by simp
    qed simp
    have "placed rows run" using same by (simp add: placed_def run_def)
    moreover have "run_positions run @ [Suc start + k..<end] = [start..<end]"
      using k(2) upt_add_eq_append [of start "Suc start + k" "end - (Suc start + k)"] by (simp add: run_positions_def run_def)
    moreover have "retained_runs rows start end = Some (run # runs)"
      using True bounds assms(2) k(1) runs(1)
      by (simp add: retained_runs.simps [of rows start] elem_at_def checked_add_def run_def)
    ultimately show ?thesis using runs(2,3) by (intro exI [of _ "run # runs"]) simp
  next
    case False
    then have "retained_runs rows start end = Some []" by (subst retained_runs.simps) simp
    then show ?thesis using False by simp
  qed
qed

end
