(* ===== verification/Window_Counts.thy ===== *)
theory Window_Counts
  imports Window_Rows
begin

text \<open>
  The accumulators a window retracts by subtraction (src/runtime/window_accumulator/counts.rs and sums.rs):
  \<open>RowCounter\<close>, \<open>TruthCounter\<close> and \<open>IntegerSum\<close>, and the results they evaluate to.

  The locales are the contract the window relies on: \<open>admitting\<close>, that admitting a run adds its rows to what the
  accumulator counts, and \<open>retractable\<close>, that retracting the oldest run takes them out again. The accumulators
  that read a column are interpreted as \<open>retractable\<close>, the row counter as \<open>admitting\<close>. An \<open>i128\<close> is an \<open>int\<close> whose checked operations test the width.
\<close>

section \<open>Results\<close>

text \<open>The functions of the floating-point and sketch accumulators are \<open>Other_Function\<close>.\<close>

datatype aggregate_function =
  Count | Count_If | Bool_And | Bool_Or | Sum | First | Last | Min | Max | Arg_Min | Arg_Max | Other_Function

datatype aggregate_value =
  Int64_array int
| Boolean_array "bool option"
| Integer_array data_type int
| Null_array data_type
| Slice_array argument_column nat

datatype aggregate_error = Sum_Overflow data_type | Snapshot_Accumulator nat

section \<open>Row counter\<close>

record row_counter =
  rc_rows :: nat

definition row_counter_admit :: "row_counter \<Rightarrow> nat \<Rightarrow> row_counter panics" where
  "row_counter_admit c rows = do {
     total \<leftarrow> checked_add u64_max (rc_rows c) rows;
     Some \<lparr>rc_rows = total\<rparr>
   }"

definition row_counter_retract :: "row_counter \<Rightarrow> nat \<Rightarrow> row_counter panics" where
  "row_counter_retract c rows = do {
     total \<leftarrow> checked_sub (rc_rows c) rows;
     Some \<lparr>rc_rows = total\<rparr>
   }"

definition i64_limit :: nat where
  "i64_limit = 9223372036854775807"

definition row_counter_evaluate :: "row_counter \<Rightarrow> aggregate_value panics" where
  "row_counter_evaluate c = do {
     rows \<leftarrow> try_from i64_limit (rc_rows c);
     Some (Int64_array (int rows))
   }"

section \<open>Truth counter\<close>

record truth_counter =
  tc_true_rows :: nat
  tc_false_rows :: nat

definition truth_counter_admit :: "truth_counter \<Rightarrow> argument_column \<Rightarrow> nat \<Rightarrow> nat \<Rightarrow> truth_counter panics" where
  "truth_counter_admit c column s e = do {
     (trues, falses) \<leftarrow> boolean_counts column s e;
     t \<leftarrow> checked_add u64_max (tc_true_rows c) trues;
     f \<leftarrow> checked_add u64_max (tc_false_rows c) falses;
     Some \<lparr>tc_true_rows = t, tc_false_rows = f\<rparr>
   }"

definition truth_counter_retract :: "truth_counter \<Rightarrow> argument_column \<Rightarrow> nat \<Rightarrow> nat \<Rightarrow> truth_counter panics" where
  "truth_counter_retract c column s e = do {
     (trues, falses) \<leftarrow> boolean_counts column s e;
     t \<leftarrow> checked_sub (tc_true_rows c) trues;
     f \<leftarrow> checked_sub (tc_false_rows c) falses;
     Some \<lparr>tc_true_rows = t, tc_false_rows = f\<rparr>
   }"

definition truth_counter_evaluate :: "truth_counter \<Rightarrow> aggregate_function \<Rightarrow> aggregate_value panics" where
  "truth_counter_evaluate c function = do {
     counted \<leftarrow> checked_add u64_max (tc_true_rows c) (tc_false_rows c);
     case function of
       Count_If \<Rightarrow> do { t \<leftarrow> try_from i64_limit (tc_true_rows c); Some (Int64_array (int t)) }
     | Bool_And \<Rightarrow> Some (Boolean_array (if counted = 0 then None else Some (tc_false_rows c = 0)))
     | Bool_Or \<Rightarrow> Some (Boolean_array (if counted = 0 then None else Some (tc_true_rows c > 0)))
     | _ \<Rightarrow> panic
   }"

section \<open>Integer sum\<close>

record integer_total =
  it_values :: nat
  it_sum :: int

definition i128_fits :: "int \<Rightarrow> bool" where
  "i128_fits x \<longleftrightarrow> - (2 ^ 127) \<le> x \<and> x < 2 ^ 127"

definition checked_i128 :: "int \<Rightarrow> int panics" where
  "checked_i128 x = (if i128_fits x then Some x else panic)"

definition integer_total_admit :: "nat \<Rightarrow> integer_total \<Rightarrow> argument_column \<Rightarrow> nat \<Rightarrow> nat \<Rightarrow> integer_total panics" where
  "integer_total_admit width t column s e = do {
     run \<leftarrow> number_run column s e;
     (count, sum) \<leftarrow> integer_sum width run;
     n \<leftarrow> checked_add u64_max (it_values t) count;
     total \<leftarrow> checked_i128 (it_sum t + sum);
     Some \<lparr>it_values = n, it_sum = total\<rparr>
   }"

definition integer_total_retract :: "nat \<Rightarrow> integer_total \<Rightarrow> argument_column \<Rightarrow> nat \<Rightarrow> nat \<Rightarrow> integer_total panics" where
  "integer_total_retract width t column s e = do {
     run \<leftarrow> number_run column s e;
     (count, sum) \<leftarrow> integer_sum width run;
     n \<leftarrow> checked_sub (it_values t) count;
     total \<leftarrow> checked_i128 (it_sum t - sum);
     Some \<lparr>it_values = n, it_sum = total\<rparr>
   }"

fun integer_range :: "data_type \<Rightarrow> (int \<times> int) option" where
  "integer_range UInt8 = Some (0, 2 ^ 8 - 1)"
| "integer_range Int8 = Some (- (2 ^ 7), 2 ^ 7 - 1)"
| "integer_range UInt16 = Some (0, 2 ^ 16 - 1)"
| "integer_range Int16 = Some (- (2 ^ 15), 2 ^ 15 - 1)"
| "integer_range UInt32 = Some (0, 2 ^ 32 - 1)"
| "integer_range Int32 = Some (- (2 ^ 31), 2 ^ 31 - 1)"
| "integer_range UInt64 = Some (0, 2 ^ 64 - 1)"
| "integer_range Int64 = Some (- (2 ^ 63), 2 ^ 63 - 1)"
| "integer_range _ = None"

definition integer_total_evaluate :: "integer_total \<Rightarrow> data_type \<Rightarrow> (aggregate_error + aggregate_value) panics" where
  "integer_total_evaluate t output =
     (if it_values t = 0 then Some (Inr (Null_array output))
      else case integer_range output of
        Some (low, high) \<Rightarrow>
          if low \<le> it_sum t \<and> it_sum t \<le> high then Some (Inr (Integer_array output (it_sum t)))
          else Some (Inl (Sum_Overflow output))
      | None \<Rightarrow> panic)"

section \<open>Folding runs\<close>

fun fold_runs :: "('s \<Rightarrow> row_run \<Rightarrow> 's panics) \<Rightarrow> 's \<Rightarrow> row_run list \<Rightarrow> 's panics" where
  "fold_runs f s [] = Some s"
| "fold_runs f s (run # runs) = do { s' \<leftarrow> f s run; fold_runs f s' runs }"

text \<open>A run covers the given rows: they lie next to each other in the run's batch.\<close>

definition run_of :: "row_run \<Rightarrow> window_row list \<Rightarrow> bool" where
  "run_of run rs \<longleftrightarrow> map wr_row rs = [rr_start run..<rr_end run] \<and> rr_start run < rr_end run \<and>
     (\<forall>r \<in> set rs. wr_arguments r = rr_arguments run)"

lemma run_of_length: "run_of run rs \<Longrightarrow> length rs = rr_end run - rr_start run"
  by (auto simp: run_of_def dest: arg_cong [of _ _ length])

lemma run_of_ne: "run_of run rs \<Longrightarrow> rs \<noteq> [] \<and> rr_start run < rr_end run"
  using run_of_length [of run rs] by (auto simp: run_of_def)

lemma run_of_filter: "run_of run rs \<Longrightarrow> filter P [rr_start run..<rr_end run] = map wr_row (filter (\<lambda>r. P (wr_row r)) rs)"
  using filter_map [of P wr_row rs] by (simp add: run_of_def o_def)

lemma placed_run_of:
  assumes "placed rows run"
  shows "run_of run (map ((!) rows) (run_positions run))"
proof -
  let ?n = "rr_end run - rr_start run" and ?row = "\<lambda>i. rows ! (rr_first_position run + i)"
  have rs: "map ((!) rows) (run_positions run) = map ?row [0..<?n]"
    by (rule nth_equalityI) (simp_all add: run_positions_def)
  have at: "wr_arguments (?row i) = rr_arguments run" "wr_row (?row i) = rr_start run + i" if "i < ?n" for i
    using assms that unfolding placed_def by blast+
  have "map wr_row (map ?row [0..<?n]) = [rr_start run..<rr_end run]"
    by (rule nth_equalityI) (simp_all add: at)
  then show ?thesis using assms at(1) by (simp add: run_of_def rs placed_def)
qed

lemma map_nth_drop: "map ((!) xs) [n..<length xs] = drop n xs"
  by (rule nth_equalityI) simp_all

lemma map_nth_take: "n \<le> length xs \<Longrightarrow> map ((!) xs) [0..<n] = take n xs"
  by (rule nth_equalityI) simp_all

locale admitting =
  fixes admit :: "'s \<Rightarrow> row_run \<Rightarrow> 's panics" and readable :: "window_row \<Rightarrow> bool" and counts :: "'s \<Rightarrow> window_row list \<Rightarrow> bool"
  assumes admit_run: "run_of run rs \<Longrightarrow> list_all readable (xs @ rs) \<Longrightarrow> length (xs @ rs) < 2 ^ 63 \<Longrightarrow> counts s xs \<Longrightarrow>
      \<exists>s'. admit s run = Some s' \<and> counts s' (xs @ rs)"
begin

lemma admit_runs:
  assumes "list_all (placed rows) runs" and "list_all readable (xs @ map ((!) rows) (concat (map run_positions runs)))"
    and "length (xs @ map ((!) rows) (concat (map run_positions runs))) < 2 ^ 63" and "counts s xs"
  shows "\<exists>s'. fold_runs admit s runs = Some s' \<and> counts s' (xs @ map ((!) rows) (concat (map run_positions runs)))"
  using assms
proof (induction runs arbitrary: s xs)
  case (Cons run runs)
  let ?rs = "map ((!) rows) (run_positions run)"
  have "run_of run ?rs" using Cons.prems(1) placed_run_of by simp
  then obtain s1 where s1: "admit s run = Some s1" "counts s1 (xs @ ?rs)"
    using admit_run [of run ?rs xs s] Cons.prems by auto
  from Cons.IH [of "xs @ ?rs" s1] Cons.prems s1(2)
  obtain s' where "fold_runs admit s1 runs = Some s'" "counts s' ((xs @ ?rs) @ map ((!) rows) (concat (map run_positions runs)))"
    by auto
  with s1(1) show ?case by simp
qed simp

text \<open>Admitting the newest rows keeps the count exact.\<close>

lemma admit_newest:
  assumes "rows_ok demands rows" and "list_all readable rows" and "start \<le> length rows" and "counts s (take start rows)"
  shows "\<exists>runs s'. retained_runs rows start (length rows) = Some runs \<and> fold_runs admit s runs = Some s' \<and> counts s' rows"
proof -
  obtain runs where runs: "retained_runs rows start (length rows) = Some runs"
    "concat (map run_positions runs) = [start..<length rows]" "list_all (placed rows) runs"
    using retained_runs_ok [OF assms(1) order_refl assms(3)] by blast
  have all: "take start rows @ map ((!) rows) (concat (map run_positions runs)) = rows"
    by (simp add: runs(2) map_nth_drop)
  have "length rows < 2 ^ 63" using assms(1) unfolding rows_ok_def by (rule conjunct1)
  with admit_runs [OF runs(3), of "take start rows" s, unfolded all, OF assms(2) _ assms(4)] runs(1) show ?thesis by blast
qed

end

locale retractable = admitting admit readable counts
  for admit :: "'s \<Rightarrow> row_run \<Rightarrow> 's panics" and readable :: "window_row \<Rightarrow> bool" and counts :: "'s \<Rightarrow> window_row list \<Rightarrow> bool" +
  fixes retract :: "'s \<Rightarrow> row_run \<Rightarrow> 's panics"
  assumes retract_run: "run_of run rs \<Longrightarrow> list_all readable (rs @ xs) \<Longrightarrow> length (rs @ xs) < 2 ^ 63 \<Longrightarrow> counts s (rs @ xs) \<Longrightarrow>
      \<exists>s'. retract s run = Some s' \<and> counts s' xs"
begin

lemma retract_runs:
  assumes "list_all (placed rows) runs" and "list_all readable (map ((!) rows) (concat (map run_positions runs)) @ xs)"
    and "length (map ((!) rows) (concat (map run_positions runs)) @ xs) < 2 ^ 63"
    and "counts s (map ((!) rows) (concat (map run_positions runs)) @ xs)"
  shows "\<exists>s'. fold_runs retract s runs = Some s' \<and> counts s' xs"
  using assms
proof (induction runs arbitrary: s)
  case (Cons run runs)
  let ?rs = "map ((!) rows) (run_positions run)"
  let ?rest = "map ((!) rows) (concat (map run_positions runs)) @ xs"
  have "run_of run ?rs" using Cons.prems(1) placed_run_of by simp
  then obtain s1 where s1: "retract s run = Some s1" "counts s1 ?rest"
    using retract_run [of run ?rs ?rest s] Cons.prems by auto
  from Cons.IH [of s1] Cons.prems s1(2) obtain s' where "fold_runs retract s1 runs = Some s'" "counts s' xs"
    by auto
  with s1(1) show ?case by simp
qed simp

text \<open>Retracting the oldest rows keeps it exact too.\<close>

lemma retract_oldest:
  assumes "rows_ok demands rows" and "list_all readable rows" and "n \<le> length rows" and "counts s rows"
  shows "\<exists>runs s'. retained_runs rows 0 n = Some runs \<and> fold_runs retract s runs = Some s' \<and> counts s' (drop n rows)"
proof -
  obtain runs where runs: "retained_runs rows 0 n = Some runs"
    "concat (map run_positions runs) = [0..<n]" "list_all (placed rows) runs"
    using retained_runs_ok [OF assms(1,3)] by blast
  have all: "map ((!) rows) (concat (map run_positions runs)) @ drop n rows = rows"
    using assms(3) by (simp add: runs(2) map_nth_take)
  have "length rows < 2 ^ 63" using assms(1) unfolding rows_ok_def by (rule conjunct1)
  with retract_runs [OF runs(3), of "drop n rows" s, unfolded all, OF assms(2) _ assms(4)] runs(1) show ?thesis by blast
qed

end

section \<open>The columns a run reads\<close>

definition first_column :: "nat \<Rightarrow> window_row \<Rightarrow> argument_column" where
  "first_column d r = wa_first (wr_arguments r ! d)"

lemma run_column:
  assumes run: "run_of run rs" and rows: "list_all (row_ok demands) rs" and "d < demands"
  obtains args where "run_demand run d = Some args" and "column_ok (wa_first args)"
    and "rr_start run < rr_end run" and "rr_end run \<le> ac_rows (wa_first args)" and "\<forall>r \<in> set rs. first_column d r = wa_first args"
proof -
  have ne: "rs \<noteq> []" and lt: "rr_start run < rr_end run" using run_of_ne [OF run] by simp_all
  have "map wr_row rs ! (length rs - 1) = rr_end run - 1"
    using run run_of_length [OF run] by (simp add: run_of_def)
  then have last: "wr_row (last rs) = rr_end run - 1" using ne by (simp add: last_conv_nth)
  have ok: "row_ok demands (last rs)" using rows ne by (simp add: list_all_iff)
  have args: "wr_arguments (last rs) = rr_arguments run" using run ne by (simp add: run_of_def)
  let ?args = "rr_arguments run ! d"
  have mem: "?args \<in> set (rr_arguments run)" "d < length (rr_arguments run)" using ok args assms(3) by (simp_all add: row_ok_def)
  then have "arguments_ok ?args (rr_end run - 1)" using ok args last by (simp add: row_ok_def)
  then have "column_ok (wa_first ?args)" "rr_end run \<le> ac_rows (wa_first ?args)" using lt by (auto simp: arguments_ok_def)
  moreover have "\<forall>r \<in> set rs. first_column d r = wa_first ?args" using run by (simp add: run_of_def first_column_def)
  ultimately show ?thesis using that [of ?args] mem(2) lt by (simp add: run_demand_def elem_at_def)
qed

lemma run_filter_first:
  assumes "run_of run rs" and "\<forall>r \<in> set rs. first_column d r = c"
  shows "filter (P c) [rr_start run..<rr_end run] = map wr_row (filter (\<lambda>r. P (first_column d r) (wr_row r)) rs)"
  using run_of_filter [OF assms(1), of "P c"] assms(2) by (simp cong: filter_cong)

section \<open>Row counters are exact\<close>

definition counter_admit_run :: "nat \<Rightarrow> row_counter \<Rightarrow> row_run \<Rightarrow> row_counter panics" where
  "counter_admit_run d c run = do {
     args \<leftarrow> run_demand run d;
     row_counter_admit c (rr_end run - rr_start run)
   }"

definition counter_readable :: "nat \<Rightarrow> nat \<Rightarrow> window_row \<Rightarrow> bool" where
  "counter_readable demands d r \<longleftrightarrow> row_ok demands r \<and> d < demands"

definition row_counts :: "row_counter \<Rightarrow> window_row list \<Rightarrow> bool" where
  "row_counts c rows \<longleftrightarrow> rc_rows c = length rows"

lemma readable_run:
  assumes "run_of run rs" and "list_all (counter_readable demands d) rs"
  shows "list_all (row_ok demands) rs" "d < demands" "rs \<noteq> []"
proof -
  show ne: "rs \<noteq> []" using run_of_ne [OF assms(1)] by simp
  then have "counter_readable demands d (hd rs)" using assms(2) by (simp add: list_all_iff)
  then show "list_all (row_ok demands) rs" "d < demands" using assms(2) by (auto simp: list_all_iff counter_readable_def)
qed

interpretation counter: admitting "counter_admit_run d" "counter_readable demands d" row_counts for demands d
proof (unfold_locales, goal_cases)
  case (1 run rs xs c)
  from 1(2) have "list_all (counter_readable demands d) rs" by simp
  note ok = readable_run [OF 1(1) this]
  obtain args where "run_demand run d = Some args" using run_column [OF 1(1) ok(1,2)] by blast
  then show ?case
    using 1(3,4) run_of_length [OF 1(1)]
    by (simp add: counter_admit_run_def row_counter_admit_def row_counts_def checked_add_def u64_max_def)
qed

section \<open>Truth counters are exact\<close>

definition row_truth :: "nat \<Rightarrow> window_row \<Rightarrow> bool option" where
  "row_truth d r = (let c = first_column d r in
     if present_at c (wr_row r) then Some (boolean_at (ac_values c) (wr_row r)) else None)"

definition truth_readable :: "nat \<Rightarrow> nat \<Rightarrow> window_row \<Rightarrow> bool" where
  "truth_readable demands d r \<longleftrightarrow> row_ok demands r \<and> d < demands \<and> boolean_values (ac_values (first_column d r))"

definition truth_counts :: "nat \<Rightarrow> truth_counter \<Rightarrow> window_row list \<Rightarrow> bool" where
  "truth_counts d c rows \<longleftrightarrow> tc_true_rows c = length (filter (\<lambda>r. row_truth d r = Some True) rows) \<and>
     tc_false_rows c = length (filter (\<lambda>r. row_truth d r = Some False) rows)"

definition truth_admit_run :: "nat \<Rightarrow> truth_counter \<Rightarrow> row_run \<Rightarrow> truth_counter panics" where
  "truth_admit_run d c run = do {
     args \<leftarrow> run_demand run d;
     truth_counter_admit c (wa_first args) (rr_start run) (rr_end run)
   }"

definition truth_retract_run :: "nat \<Rightarrow> truth_counter \<Rightarrow> row_run \<Rightarrow> truth_counter panics" where
  "truth_retract_run d c run = do {
     args \<leftarrow> run_demand run d;
     truth_counter_retract c (wa_first args) (rr_start run) (rr_end run)
   }"

lemma row_truth_iff:
  "row_truth d r = Some b \<longleftrightarrow> present_at (first_column d r) (wr_row r) \<and> boolean_at (ac_values (first_column d r)) (wr_row r) = b"
  by (auto simp: row_truth_def Let_def)

lemma run_boolean_counts:
  assumes "run_of run rs" and "list_all (truth_readable demands d) rs"
  obtains args where "run_demand run d = Some args"
    and "boolean_counts (wa_first args) (rr_start run) (rr_end run) =
      Some (length (filter (\<lambda>r. row_truth d r = Some True) rs), length (filter (\<lambda>r. row_truth d r = Some False) rs))"
proof -
  have ne: "rs \<noteq> []" using run_of_ne [OF assms(1)] by simp
  have "truth_readable demands d (hd rs)" using assms(2) ne by (simp add: list_all_iff)
  then have ok: "list_all (row_ok demands) rs" "d < demands" "boolean_values (ac_values (first_column d (hd rs)))"
    using assms(2) by (auto simp: list_all_iff truth_readable_def)
  obtain args where args: "run_demand run d = Some args" "column_ok (wa_first args)" "rr_start run < rr_end run"
    "rr_end run \<le> ac_rows (wa_first args)" "\<forall>r \<in> set rs. first_column d r = wa_first args"
    using run_column [OF assms(1) ok(1,2)] .
  have "boolean_values (ac_values (wa_first args))" using ok(3) args(5) ne by simp
  from boolean_counts_ok [OF args(2) this less_imp_le [OF args(3)] args(4)] show ?thesis
    using that [OF args(1)]
      run_filter_first [OF assms(1) args(5), where P = "\<lambda>c i. present_at c i \<and> boolean_at (ac_values c) i"]
      run_filter_first [OF assms(1) args(5), where P = "\<lambda>c i. present_at c i \<and> \<not> boolean_at (ac_values c) i"]
    by (simp add: row_truth_iff)
qed

lemma filter_bound: "length (xs @ rs) < 2 ^ 63 \<Longrightarrow> length (filter P xs) + length (filter P rs) \<le> u64_max"
proof -
  assume "length (xs @ rs) < 2 ^ 63"
  moreover have "length (filter P xs) + length (filter P rs) \<le> length (xs @ rs)" by (simp add: add_mono)
  ultimately show ?thesis by (simp add: u64_max_def)
qed

interpretation truth: retractable "truth_admit_run d" "truth_readable demands d" "truth_counts d" "truth_retract_run d" for demands d
proof (unfold_locales, goal_cases)
  case (1 run rs xs c)
  from 1(2) have "list_all (truth_readable demands d) rs" by simp
  from run_boolean_counts [OF 1(1) this] obtain args where args: "run_demand run d = Some args"
    "boolean_counts (wa_first args) (rr_start run) (rr_end run) =
      Some (length (filter (\<lambda>r. row_truth d r = Some True) rs), length (filter (\<lambda>r. row_truth d r = Some False) rs))" .
  show ?case
    using 1(4) args filter_bound [OF 1(3)]
    by (simp add: truth_admit_run_def truth_counter_admit_def truth_counts_def checked_add_def)
next
  case (2 run rs xs c)
  from 2(2) have "list_all (truth_readable demands d) rs" by simp
  from run_boolean_counts [OF 2(1) this] obtain args where args: "run_demand run d = Some args"
    "boolean_counts (wa_first args) (rr_start run) (rr_end run) =
      Some (length (filter (\<lambda>r. row_truth d r = Some True) rs), length (filter (\<lambda>r. row_truth d r = Some False) rs))" .
  show ?case
    using 2(4) args
    by (simp add: truth_retract_run_def truth_counter_retract_def truth_counts_def checked_sub_def)
qed

section \<open>Integer sums are exact\<close>

definition row_present :: "nat \<Rightarrow> window_row \<Rightarrow> bool" where
  "row_present d r = present_at (first_column d r) (wr_row r)"

definition row_integer :: "nat \<Rightarrow> window_row \<Rightarrow> int" where
  "row_integer d r = integer_at (ac_values (first_column d r)) (wr_row r)"

definition present_total :: "nat \<Rightarrow> window_row list \<Rightarrow> int" where
  "present_total d rows = sum_list (map (row_integer d) (filter (row_present d) rows))"

definition integer_readable :: "nat \<Rightarrow> nat \<Rightarrow> window_row \<Rightarrow> bool" where
  "integer_readable demands d r \<longleftrightarrow> row_ok demands r \<and> d < demands \<and> integer_values (ac_values (first_column d r))"

definition integer_counts :: "nat \<Rightarrow> integer_total \<Rightarrow> window_row list \<Rightarrow> bool" where
  "integer_counts d t rows \<longleftrightarrow> it_values t = length (filter (row_present d) rows) \<and> it_sum t = present_total d rows"

definition integer_admit_run :: "nat \<Rightarrow> nat \<Rightarrow> integer_total \<Rightarrow> row_run \<Rightarrow> integer_total panics" where
  "integer_admit_run width d t run = do {
     args \<leftarrow> run_demand run d;
     integer_total_admit width t (wa_first args) (rr_start run) (rr_end run)
   }"

definition integer_retract_run :: "nat \<Rightarrow> nat \<Rightarrow> integer_total \<Rightarrow> row_run \<Rightarrow> integer_total panics" where
  "integer_retract_run width d t run = do {
     args \<leftarrow> run_demand run d;
     integer_total_retract width t (wa_first args) (rr_start run) (rr_end run)
   }"

lemma present_total_append: "present_total d (xs @ ys) = present_total d xs + present_total d ys"
  by (simp add: present_total_def)

lemma word_values_bounded:
  fixes w :: "'w::len word"
  assumes "LENGTH('w) \<le> 64"
  shows "- (2 ^ 63) \<le> uint w" "uint w \<le> 2 ^ 64" "- (2 ^ 63) \<le> sint w" "sint w \<le> 2 ^ 64"
proof -
  have le: "(2 :: int) ^ LENGTH('w) \<le> 2 ^ 64" "(2 :: int) ^ (LENGTH('w) - 1) \<le> 2 ^ 63"
    by (rule power_increasing; use assms in simp)+
  show "uint w \<le> 2 ^ 64" using uint_bounded [of w] le(1) by linarith
  show "- (2 ^ 63) \<le> uint w" by (rule order_trans [OF _ unsigned_greater_eq]) simp
  show "- (2 ^ 63) \<le> sint w" using sint_ge [of w] le(2) by linarith
  have "(2 :: int) ^ 63 \<le> 2 ^ 64" by simp
  then show "sint w \<le> 2 ^ 64" using sint_lt [of w] le(2) by linarith
qed

lemma integer_at_bounded: "- (2 ^ 63) \<le> integer_at vs i" "integer_at vs i \<le> 2 ^ 64"
  by (cases vs; simp only: integer_at.simps; (rule word_values_bounded | simp); simp)+

lemma sum_bounded:
  fixes f :: "'a \<Rightarrow> int"
  assumes "\<And>x. low \<le> f x" and "\<And>x. f x \<le> high"
  shows "int (length xs) * low \<le> sum_list (map f xs)" "sum_list (map f xs) \<le> int (length xs) * high"
  by (induction xs) (auto simp: algebra_simps intro: add_mono assms)

lemma present_total_fits:
  assumes "length rows < 2 ^ 63"
  shows "checked_i128 (present_total d rows) = Some (present_total d rows)"
proof -
  let ?xs = "filter (row_present d) rows"
  have "length ?xs < 2 ^ 63" by (rule le_less_trans [OF length_filter_le assms])
  then have n: "int (length ?xs) \<le> 2 ^ 63 - 1" by simp
  have low: "int (length ?xs) * - (2 ^ 63) \<le> present_total d rows"
    unfolding present_total_def row_integer_def by (rule sum_bounded) (rule integer_at_bounded)+
  have high: "present_total d rows \<le> int (length ?xs) * 2 ^ 64"
    unfolding present_total_def row_integer_def by (rule sum_bounded) (rule integer_at_bounded)+
  have "int (length ?xs) * 2 ^ 64 \<le> (2 ^ 63 - 1) * 2 ^ 64" using n by (intro mult_right_mono) simp_all
  then have "present_total d rows < 2 ^ 127" using high by simp
  moreover have "int (length ?xs) * 2 ^ 63 \<le> (2 ^ 63 - 1) * 2 ^ 63" using n by (intro mult_right_mono) simp_all
  then have "- (2 ^ 127) \<le> present_total d rows" using low by simp
  ultimately show ?thesis by (simp only: checked_i128_def i128_fits_def if_True simp_thms)
qed

lemma run_integer_sum:
  assumes "run_of run rs" and "list_all (integer_readable demands d) rs" and "0 < width"
  obtains args nr where "run_demand run d = Some args" and "number_run (wa_first args) (rr_start run) (rr_end run) = Some nr"
    and "integer_sum width nr = Some (length (filter (row_present d) rs), present_total d rs)"
proof -
  have ne: "rs \<noteq> []" using run_of_ne [OF assms(1)] by simp
  have "integer_readable demands d (hd rs)" using assms(2) ne by (simp add: list_all_iff)
  then have ok: "list_all (row_ok demands) rs" "d < demands" "integer_values (ac_values (first_column d (hd rs)))"
    using assms(2) by (auto simp: list_all_iff integer_readable_def)
  obtain args where args: "run_demand run d = Some args" "column_ok (wa_first args)" "rr_start run < rr_end run"
    "rr_end run \<le> ac_rows (wa_first args)" "\<forall>r \<in> set rs. first_column d r = wa_first args"
    using run_column [OF assms(1) ok(1,2)] .
  have "integer_values (ac_values (wa_first args))" using ok(3) args(5) ne by simp
  from integer_sum_ok [OF args(2) this less_imp_le [OF args(3)] args(4) assms(3)]
  have sum: "do { nr \<leftarrow> number_run (wa_first args) (rr_start run) (rr_end run); integer_sum width nr } =
      Some (length (filter (row_present d) rs), sum_list (map (integer_at (ac_values (wa_first args))) (map wr_row (filter (row_present d) rs))))"
    by (simp only: run_filter_first [OF assms(1) args(5), where P = present_at] row_present_def [abs_def] length_map)
  have "map (integer_at (ac_values (wa_first args))) (map wr_row (filter (row_present d) rs)) = map (row_integer d) (filter (row_present d) rs)"
    using args(5) by (simp add: row_integer_def)
  with sum obtain nr where "number_run (wa_first args) (rr_start run) (rr_end run) = Some nr"
    "integer_sum width nr = Some (length (filter (row_present d) rs), present_total d rs)"
    by (auto simp: bind_eq_Some_conv present_total_def simp del: map_map)
  then show ?thesis using that args(1) by blast
qed

interpretation integers: retractable "integer_admit_run (Suc w) d" "integer_readable demands d" "integer_counts d" "integer_retract_run (Suc w) d"
  for w demands d
proof (unfold_locales, goal_cases)
  case (1 run rs xs t)
  from 1(2) have "list_all (integer_readable demands d) rs" by simp
  from run_integer_sum [OF 1(1) this zero_less_Suc] obtain args nr where args: "run_demand run d = Some args"
    "number_run (wa_first args) (rr_start run) (rr_end run) = Some nr"
    "integer_sum (Suc w) nr = Some (length (filter (row_present d) rs), present_total d rs)" .
  show ?case
    using 1(4) args filter_bound [OF 1(3), of "row_present d"] present_total_fits [OF 1(3), of d]
    by (simp add: integer_admit_run_def integer_total_admit_def integer_counts_def checked_add_def present_total_append)
next
  case (2 run rs xs t)
  from 2(2) have "list_all (integer_readable demands d) rs" by simp
  from run_integer_sum [OF 2(1) this zero_less_Suc] obtain args nr where args: "run_demand run d = Some args"
    "number_run (wa_first args) (rr_start run) (rr_end run) = Some nr"
    "integer_sum (Suc w) nr = Some (length (filter (row_present d) rs), present_total d rs)" .
  have "length xs < 2 ^ 63" by (rule le_less_trans [OF _ 2(3)]) simp
  then show ?case
    using 2(4) args present_total_fits [of xs d]
    by (simp add: integer_retract_run_def integer_total_retract_def integer_counts_def checked_sub_def present_total_append)
qed

end
