(* ===== verification/Window_Extremes.thy ===== *)
theory Window_Extremes
  imports Window_Counts
begin

text \<open>
  The extreme rows of a window (src/runtime/window_accumulator/extremes.rs): the queues of candidate rows
  behind \<open>FIRST\<close>, \<open>LAST\<close>, \<open>MIN\<close>, \<open>MAX\<close>, \<open>ARG_MIN\<close> and \<open>ARG_MAX\<close>.

  A \<open>VecDeque\<close> of sequences is a list, front first. The locale \<open>contest\<close> holds the theory of one candidate
  queue over any strict weak order of positions; it is interpreted for the smallest and for the largest key.
\<close>

section \<open>Candidates\<close>

datatype extreme_order = Arrival | Value | Key

record row_extremes =
  re_order :: extreme_order
  re_smallest :: "nat list option"
  re_largest :: "nat list option"

definition smallest_function :: "aggregate_function \<Rightarrow> bool" where
  "smallest_function f \<longleftrightarrow> f \<in> {First, Min, Arg_Min}"

definition largest_function :: "aggregate_function \<Rightarrow> bool" where
  "largest_function f \<longleftrightarrow> f \<in> {Last, Max, Arg_Max}"

definition row_extremes_new :: "extreme_order \<Rightarrow> aggregate_function list \<Rightarrow> row_extremes" where
  "row_extremes_new order functions =
     \<lparr>re_order = order,
      re_smallest = (if list_ex smallest_function functions then Some [] else None),
      re_largest = (if list_ex largest_function functions then Some [] else None)\<rparr>"

definition position_of :: "window_row list \<Rightarrow> nat \<Rightarrow> nat panics" where
  "position_of rows sequence = do {
     oldest \<leftarrow> elem_at rows 0;
     checked_sub sequence (wr_sequence oldest)
   }"

definition row_demand :: "window_row \<Rightarrow> nat \<Rightarrow> window_arguments panics" where
  "row_demand r d = elem_at (wr_arguments r) d"

definition row_compare :: "extreme_order \<Rightarrow> nat \<Rightarrow> window_row list \<Rightarrow> nat \<Rightarrow> nat \<Rightarrow> ordering panics" where
  "row_compare order d rows left right = do {
     left_row \<leftarrow> elem_at rows left;
     right_row \<leftarrow> elem_at rows right;
     case order of
       Arrival \<Rightarrow> Some (cmp (wr_timestamp left_row, wr_sequence left_row) (wr_timestamp right_row, wr_sequence right_row))
     | Value \<Rightarrow> do {
         left_args \<leftarrow> row_demand left_row d;
         right_args \<leftarrow> row_demand right_row d;
         column_compare (wa_first left_args) (wr_row left_row) (wa_first right_args) (wr_row right_row)
       }
     | Key \<Rightarrow> do {
         left_args \<leftarrow> row_demand left_row d;
         left_column \<leftarrow> wa_second left_args;
         right_args \<leftarrow> row_demand right_row d;
         right_column \<leftarrow> wa_second right_args;
         column_compare left_column (wr_row left_row) right_column (wr_row right_row)
       }
   }"

text \<open>\<open>pop_back_while\<close> takes the candidates back first, as the loops over \<open>back\<close> and \<open>pop_back\<close> see them.\<close>

fun pop_back_while :: "(nat \<Rightarrow> bool panics) \<Rightarrow> nat list \<Rightarrow> nat list panics" where
  "pop_back_while beaten [] = Some []"
| "pop_back_while beaten (b # bs) = do {
     drop_it \<leftarrow> beaten b;
     if drop_it then pop_back_while beaten bs else Some (b # bs)
   }"

definition drop_beaten ::
  "extreme_order \<Rightarrow> nat \<Rightarrow> window_row list \<Rightarrow> nat \<Rightarrow> ordering \<Rightarrow> nat list \<Rightarrow> nat list panics" where
  "drop_beaten order d rows position beaten candidates = do {
     kept \<leftarrow> pop_back_while
       (\<lambda>back. do {
          back_position \<leftarrow> position_of rows back;
          ordering \<leftarrow> row_compare order d rows back_position position;
          Some (ordering = beaten)
        }) (rev candidates);
     Some (rev kept)
   }"

definition push_candidate ::
  "extreme_order \<Rightarrow> nat \<Rightarrow> window_row list \<Rightarrow> nat list \<Rightarrow> nat \<Rightarrow> nat \<Rightarrow> ordering \<Rightarrow> nat list panics" where
  "push_candidate order d rows candidates position sequence beaten = do {
     kept \<leftarrow> drop_beaten order d rows position beaten candidates;
     Some (kept @ [sequence])
   }"

definition on_candidates :: "(nat list \<Rightarrow> nat list panics) \<Rightarrow> nat list option \<Rightarrow> nat list option panics" where
  "on_candidates f candidates =
     (case candidates of None \<Rightarrow> Some None | Some cs \<Rightarrow> do { cs' \<leftarrow> f cs; Some (Some cs') })"

definition prune_numeric_candidates :: "nat \<Rightarrow> window_row list \<Rightarrow> row_run \<Rightarrow> window_arguments \<Rightarrow> row_extremes \<Rightarrow> row_extremes panics" where
  "prune_numeric_candidates d rows run args x =
     (if re_order x \<noteq> Value then Some x
      else do {
        extremes \<leftarrow> numeric_extreme_rows (wa_first args) (rr_start run) (rr_end run);
        case extremes of
          None \<Rightarrow> Some x
        | Some (smallest_row, largest_row) \<Rightarrow> do {
            let smallest_position = rr_first_position run + smallest_row - rr_start run;
            let largest_position = rr_first_position run + largest_row - rr_start run;
            s \<leftarrow> on_candidates (drop_beaten (re_order x) d rows smallest_position Greater) (re_smallest x);
            l \<leftarrow> on_candidates (drop_beaten (re_order x) d rows largest_position Less) (re_largest x);
            Some (x\<lparr>re_smallest := s, re_largest := l\<rparr>)
          }
      })"

definition contributes :: "extreme_order \<Rightarrow> window_arguments \<Rightarrow> nat \<Rightarrow> bool panics" where
  "contributes order args row =
     (case order of
        Key \<Rightarrow> do {
          key \<leftarrow> wa_second args;
          first \<leftarrow> is_present (wa_first args) row;
          if first then is_present key row else Some False
        }
      | _ \<Rightarrow> is_present (wa_first args) row)"

fun admit_positioned :: "nat \<Rightarrow> window_row list \<Rightarrow> window_arguments \<Rightarrow> (nat \<times> nat) list \<Rightarrow> row_extremes \<Rightarrow> row_extremes panics" where
  "admit_positioned d rows args [] x = Some x"
| "admit_positioned d rows args ((row, position) # rest) x = do {
     counted \<leftarrow> contributes (re_order x) args row;
     if \<not> counted then admit_positioned d rows args rest x
     else do {
       r \<leftarrow> elem_at rows position;
       s \<leftarrow> on_candidates (\<lambda>cs. push_candidate (re_order x) d rows cs position (wr_sequence r) Greater) (re_smallest x);
       l \<leftarrow> on_candidates (\<lambda>cs. push_candidate (re_order x) d rows cs position (wr_sequence r) Less) (re_largest x);
       admit_positioned d rows args rest (x\<lparr>re_smallest := s, re_largest := l\<rparr>)
     }
   }"

definition row_extremes_admit :: "nat \<Rightarrow> window_row list \<Rightarrow> row_extremes \<Rightarrow> row_run \<Rightarrow> row_extremes panics" where
  "row_extremes_admit d rows x run = do {
     args \<leftarrow> run_demand run d;
     x1 \<leftarrow> prune_numeric_candidates d rows run args x;
     positioned \<leftarrow> positioned_rows run;
     admit_positioned d rows args positioned x1
   }"

definition row_extremes_retract_oldest :: "window_row list \<Rightarrow> nat \<Rightarrow> row_extremes \<Rightarrow> row_extremes panics" where
  "row_extremes_retract_oldest rows count x = do {
     survivor \<leftarrow> (if count < length rows then do { r \<leftarrow> elem_at rows count; Some (Some (wr_sequence r)) } else Some None);
     let forget = (\<lambda>cs. case survivor of Some s \<Rightarrow> dropWhile (\<lambda>front. front < s) cs | None \<Rightarrow> []);
     Some (x\<lparr>re_smallest := map_option forget (re_smallest x), re_largest := map_option forget (re_largest x)\<rparr>)
   }"

definition row_extremes_evaluate ::
  "nat \<Rightarrow> aggregate_function \<Rightarrow> window_row list \<Rightarrow> data_type \<Rightarrow> row_extremes \<Rightarrow> aggregate_value panics" where
  "row_extremes_evaluate d f rows output x = do {
     candidates \<leftarrow> (if smallest_function f then re_smallest x else if largest_function f then re_largest x else None);
     case candidates of
       [] \<Rightarrow> Some (Null_array output)
     | extreme # _ \<Rightarrow> do {
         position \<leftarrow> position_of rows extreme;
         r \<leftarrow> elem_at rows position;
         args \<leftarrow> row_demand r d;
         if wr_row r < ac_rows (wa_first args) then Some (Slice_array (wa_first args) (wr_row r)) else panic
       }
   }"

section \<open>One candidate queue\<close>

text \<open>
  \<open>beats k j\<close>: the key at position \<open>k\<close> is strictly better than the key at \<open>j\<close>. \<open>counted\<close> are the positions of the
  contributing rows. A queue over the first \<open>p\<close> positions, with the rows up to \<open>limit\<close> known, holds every counted
  position that no later one beats, and no key behind the front beats one before it.
\<close>

locale contest =
  fixes beats :: "nat \<Rightarrow> nat \<Rightarrow> bool"
  assumes beats_irrefl: "\<not> beats i i"
    and beats_trans: "beats i j \<Longrightarrow> beats j k \<Longrightarrow> beats i k"
    and beats_weak: "\<not> beats i j \<Longrightarrow> \<not> beats j k \<Longrightarrow> \<not> beats i k"

definition candidate_queue :: "(nat \<Rightarrow> nat \<Rightarrow> bool) \<Rightarrow> (nat \<Rightarrow> bool) \<Rightarrow> nat \<Rightarrow> nat \<Rightarrow> nat list \<Rightarrow> bool" where
  "candidate_queue beats counted p limit ps \<longleftrightarrow>
     sorted_wrt (\<lambda>i j. i < j \<and> \<not> beats j i) ps \<and> (\<forall>i \<in> set ps. i < p \<and> counted i) \<and>
     (\<forall>j < p. counted j \<longrightarrow> j \<in> set ps \<or> (\<exists>k < limit. j < k \<and> counted k \<and> beats k j))"

definition back_beaten :: "(nat \<Rightarrow> bool) \<Rightarrow> nat list \<Rightarrow> nat list" where
  "back_beaten P ps = rev (dropWhile P (rev ps))"

text \<open>The earliest position whose key no counted position beats.\<close>

definition earliest_best :: "(nat \<Rightarrow> nat \<Rightarrow> bool) \<Rightarrow> (nat \<Rightarrow> bool) \<Rightarrow> nat \<Rightarrow> nat \<Rightarrow> bool" where
  "earliest_best beats counted n i \<longleftrightarrow> i < n \<and> counted i \<and>
     (\<forall>j < n. counted j \<longrightarrow> \<not> beats j i \<and> (j < i \<longrightarrow> beats i j))"

lemma back_beaten_split:
  obtains kept gone where "back_beaten P ps = kept" and "ps = kept @ gone" and "\<forall>i \<in> set gone. P i"
    and "kept \<noteq> [] \<longrightarrow> \<not> P (last kept)"
proof
  show "back_beaten P ps = rev (dropWhile P (rev ps))" by (simp add: back_beaten_def)
  have "rev (rev ps) = rev (takeWhile P (rev ps) @ dropWhile P (rev ps))" by simp
  then show "ps = rev (dropWhile P (rev ps)) @ rev (takeWhile P (rev ps))" by (simp only: rev_append rev_rev_ident)
  show "\<forall>i \<in> set (rev (takeWhile P (rev ps))). P i" by (auto dest: set_takeWhileD)
  show "rev (dropWhile P (rev ps)) \<noteq> [] \<longrightarrow> \<not> P (last (rev (dropWhile P (rev ps))))"
    by (simp add: last_rev hd_dropWhile)
qed

lemma queue_later:
  assumes "candidate_queue beats counted p limit ps" and "limit \<le> limit'"
  shows "candidate_queue beats counted p limit' ps"
  using assms(1) less_le_trans [OF _ assms(2)] unfolding candidate_queue_def by blast

lemma queue_skip: "candidate_queue beats counted p limit ps \<Longrightarrow> \<not> counted p \<Longrightarrow> candidate_queue beats counted (Suc p) limit ps"
  by (auto simp: candidate_queue_def less_Suc_eq)

lemma queue_empty: "candidate_queue beats counted 0 limit []"
  by (simp add: candidate_queue_def)

context contest
begin

lemma back_unbeaten:
  assumes "sorted_wrt (\<lambda>i j. i < j \<and> \<not> beats j i) ps" and "i \<in> set (back_beaten (beats m) ps)"
  shows "\<not> beats m i"
proof -
  obtain kept gone where kept: "back_beaten (beats m) ps = kept" "ps = kept @ gone" "kept \<noteq> [] \<longrightarrow> \<not> beats m (last kept)"
    using back_beaten_split [where P = "beats m" and ps = ps] by metis
  have ne: "kept \<noteq> []" using assms(2) kept(1) by auto
  have last: "kept = butlast kept @ [last kept]" using ne by simp
  have "sorted_wrt (\<lambda>i j. i < j \<and> \<not> beats j i) kept" using assms(1) kept(2) by (simp add: sorted_wrt_append)
  then have "\<forall>i \<in> set (butlast kept). \<not> beats (last kept) i" by (subst (asm) last) (simp add: sorted_wrt_append)
  moreover have "i \<in> set (butlast kept @ [last kept])" using assms(2) kept(1) last by simp
  ultimately have "i = last kept \<or> \<not> beats (last kept) i" by auto
  then show ?thesis using kept(3) ne beats_weak by blast
qed

lemma back_kept:
  assumes "j \<in> set ps"
  shows "j \<in> set (back_beaten (beats m) ps) \<or> beats m j"
proof -
  obtain kept gone where "back_beaten (beats m) ps = kept" "ps = kept @ gone" "\<forall>i \<in> set gone. beats m i"
    using back_beaten_split [where P = "beats m" and ps = ps] by metis
  with assms show ?thesis by auto
qed

lemma back_sorted:
  assumes "candidate_queue beats counted p limit ps"
  shows "sorted_wrt (\<lambda>i j. i < j \<and> \<not> beats j i) (back_beaten (beats m) ps)"
    "\<forall>i \<in> set (back_beaten (beats m) ps). i < p \<and> counted i"
proof -
  obtain kept gone where "back_beaten (beats m) ps = kept" "ps = kept @ gone"
    using back_beaten_split [where P = "beats m" and ps = ps] by metis
  with assms show "sorted_wrt (\<lambda>i j. i < j \<and> \<not> beats j i) (back_beaten (beats m) ps)"
    "\<forall>i \<in> set (back_beaten (beats m) ps). i < p \<and> counted i"
    by (simp_all add: candidate_queue_def sorted_wrt_append)
qed

lemma queue_drop:
  assumes queue: "candidate_queue beats counted p limit ps" and "counted m" and "m < limit" and "p \<le> m"
  shows "candidate_queue beats counted p limit (back_beaten (beats m) ps)"
proof -
  have "j \<in> set (back_beaten (beats m) ps) \<or> (\<exists>k < limit. j < k \<and> counted k \<and> beats k j)" if "j < p" "counted j" for j
    using that queue back_kept [of j ps m] assms(2-4) unfolding candidate_queue_def by (meson less_le_trans)
  then show ?thesis using back_sorted [OF queue] by (simp add: candidate_queue_def)
qed

lemma queue_push:
  assumes queue: "candidate_queue beats counted p limit ps" and "counted p" and "p < limit"
  shows "candidate_queue beats counted (Suc p) limit (back_beaten (beats p) ps @ [p])"
proof -
  have dropped: "candidate_queue beats counted p limit (back_beaten (beats p) ps)"
    by (rule queue_drop [OF assms order_refl])
  have "\<not> beats p i" if "i \<in> set (back_beaten (beats p) ps)" for i
    using back_unbeaten that queue unfolding candidate_queue_def by blast
  with dropped assms(2) show ?thesis
    unfolding candidate_queue_def by (auto simp: sorted_wrt_append less_Suc_eq)
qed

lemma queue_covers:
  assumes "candidate_queue beats counted n n ps"
  shows "j < n \<Longrightarrow> counted j \<Longrightarrow> \<exists>k \<in> set ps. k = j \<or> beats k j"
proof (induction "n - j" arbitrary: j rule: less_induct)
  case less
  show ?case
  proof (cases "j \<in> set ps")
    case False
    then obtain k where k: "k < n" "j < k" "counted k" "beats k j" using assms less.prems unfolding candidate_queue_def by blast
    then obtain k' where "k' \<in> set ps" "k' = k \<or> beats k' k" using less.hyps [of k] less.prems by (meson diff_less_mono2)
    then show ?thesis using k(4) beats_trans by blast
  qed blast
qed

text \<open>The front of a queue is the earliest best position, and an empty queue has none.\<close>

lemma queue_front:
  assumes queue: "candidate_queue beats counted n n ps"
  shows "case ps of [] \<Rightarrow> \<forall>j < n. \<not> counted j | f # _ \<Rightarrow> earliest_best beats counted n f"
proof (cases ps)
  case Nil
  then show ?thesis using queue_covers [OF queue] by auto
next
  case (Cons f rest)
  have f: "f < n" "counted f" and rest: "\<forall>k \<in> set rest. f < k \<and> \<not> beats k f"
    using queue Cons by (auto simp: candidate_queue_def)
  then have front: "k = f \<or> f < k" "\<not> beats k f" if "k \<in> set ps" for k
    using that Cons beats_irrefl by auto
  have "\<not> beats j f \<and> (j < f \<longrightarrow> beats f j)" if "j < n" "counted j" for j
  proof -
    obtain k where k: "k \<in> set ps" "k = j \<or> beats k j" using queue_covers [OF queue \<open>j < n\<close> \<open>counted j\<close>] by blast
    have "\<not> beats j f" using k front(2) [OF k(1)] beats_trans by blast
    moreover have "beats f j" if "j < f"
      using k front [OF k(1)] that beats_weak by (metis less_irrefl less_not_sym)
    ultimately show ?thesis by blast
  qed
  with f show ?thesis by (simp add: Cons earliest_best_def)
qed

end

text \<open>Forgetting the oldest rows forgets their candidates; a beaten row leaves before the one that beat it.\<close>

lemma sorted_dropWhile_less: "sorted_wrt (<) (ps :: nat list) \<Longrightarrow> dropWhile (\<lambda>i. i < n) ps = filter (\<lambda>i. n \<le> i) ps"
  by (induction ps) (auto intro!: filter_True [symmetric])

lemma queue_dropWhile:
  assumes "candidate_queue beats counted p limit ps"
  shows "dropWhile (\<lambda>i. i < n) ps = filter (\<lambda>i. n \<le> i) ps"
proof (rule sorted_dropWhile_less)
  have "sorted_wrt (\<lambda>i j. i < j \<and> \<not> beats j i) ps" using assms by (simp add: candidate_queue_def)
  then show "sorted_wrt (<) ps" by (rule sorted_wrt_mono_rel [rotated]) simp
qed

lemma queue_retract:
  assumes "candidate_queue beats counted N N ps" and "n \<le> N"
  shows "candidate_queue (\<lambda>i j. beats (n + i) (n + j)) (\<lambda>i. counted (n + i)) (N - n) (N - n)
    (map (\<lambda>i. i - n) (dropWhile (\<lambda>i. i < n) ps))"
proof -
  let ?kept = "filter (\<lambda>i. n \<le> i) ps"
  have sorted: "sorted_wrt (\<lambda>i j. i < j \<and> \<not> beats j i) ps" using assms(1) by (simp add: candidate_queue_def)
  have kept: "dropWhile (\<lambda>i. i < n) ps = ?kept" by (rule queue_dropWhile [OF assms(1)])
  have "sorted_wrt (\<lambda>i j. i < j \<and> \<not> beats j i) ?kept" using sorted by (rule sorted_wrt_filter)
  then have "sorted_wrt (\<lambda>i j. i - n < j - n \<and> \<not> beats (n + (j - n)) (n + (i - n))) ?kept"
    by (rule sorted_wrt_mono_rel [rotated]) auto
  moreover have "\<forall>i \<in> set (map (\<lambda>i. i - n) ?kept). i < N - n \<and> counted (n + i)"
    using assms(1) by (auto simp: candidate_queue_def)
  moreover have "j \<in> set (map (\<lambda>i. i - n) ?kept) \<or> (\<exists>k < N - n. j < k \<and> counted (n + k) \<and> beats (n + k) (n + j))"
    if "j < N - n" "counted (n + j)" for j
  proof (cases "n + j \<in> set ps")
    case True
    then have "n + j \<in> set ?kept" by simp
    then show ?thesis by (metis diff_add_inverse image_eqI set_map)
  next
    case False
    have "n + j < N" using that(1) by simp
    with False that(2) assms(1) obtain k where "k < N" "n + j < k" "counted k" "beats k (n + j)"
      unfolding candidate_queue_def by blast
    then show ?thesis by (intro disjI2 exI [of _ "k - n"]) auto
  qed
  ultimately show ?thesis by (simp add: candidate_queue_def kept sorted_wrt_map)
qed

section \<open>The keys of the rows\<close>

definition row_counted :: "extreme_order \<Rightarrow> nat \<Rightarrow> window_row \<Rightarrow> bool" where
  "row_counted order d r \<longleftrightarrow> row_present d r \<and>
     (order = Key \<longrightarrow> present_at (the (wa_second (wr_arguments r ! d))) (wr_row r))"

definition key_of :: "argument_column \<Rightarrow> nat \<Rightarrow> int \<times> int \<times> string" where
  "key_of c i = (case the (value_key (ac_values c) i) of (number, text) \<Rightarrow> (number, 0, text))"

definition row_key :: "extreme_order \<Rightarrow> nat \<Rightarrow> window_row \<Rightarrow> int \<times> int \<times> string" where
  "row_key order d r =
     (case order of
        Arrival \<Rightarrow> (wr_timestamp r, int (wr_sequence r), [])
      | Value \<Rightarrow> key_of (first_column d r) (wr_row r)
      | Key \<Rightarrow> key_of (the (wa_second (wr_arguments r ! d))) (wr_row r))"

text \<open>The rows hold what the demand was compiled for: keys of one comparable type.\<close>

definition key_readable :: "extreme_order \<Rightarrow> data_type \<Rightarrow> window_arguments \<Rightarrow> bool" where
  "key_readable order ty args \<longleftrightarrow>
     (order = Value \<longrightarrow> value_type (ac_values (wa_first args)) = ty \<and> ty \<noteq> Nested) \<and>
     (order = Key \<longrightarrow> (case wa_second args of None \<Rightarrow> False | Some c \<Rightarrow> value_type (ac_values c) = ty \<and> ty \<noteq> Nested))"

definition extreme_readable :: "extreme_order \<Rightarrow> data_type \<Rightarrow> nat \<Rightarrow> nat \<Rightarrow> window_row \<Rightarrow> bool" where
  "extreme_readable order ty demands d r \<longleftrightarrow> row_ok demands r \<and> d < demands \<and> key_readable order ty (wr_arguments r ! d)"

definition consecutive :: "window_row list \<Rightarrow> bool" where
  "consecutive rows \<longleftrightarrow> (\<forall>i < length rows. wr_sequence (rows ! i) = wr_sequence (rows ! 0) + i)"

definition beats_by :: "ordering \<Rightarrow> extreme_order \<Rightarrow> nat \<Rightarrow> window_row list \<Rightarrow> nat \<Rightarrow> nat \<Rightarrow> bool" where
  "beats_by beaten order d rows k j \<longleftrightarrow> cmp (row_key order d (rows ! j)) (row_key order d (rows ! k)) = beaten"

lemma contest_beats_by: "beaten \<noteq> Equal \<Longrightarrow> contest (beats_by beaten order d rows)"
  by unfold_locales (cases beaten; simp add: beats_by_def)+

interpretation smaller: contest "beats_by Greater order d rows" for order d rows
  by (rule contest_beats_by) simp

interpretation larger: contest "beats_by Less order d rows" for order d rows
  by (rule contest_beats_by) simp

lemma value_key_ok: "column_ok c \<Longrightarrow> i < ac_rows c \<Longrightarrow> value_type (ac_values c) \<noteq> Nested \<Longrightarrow> \<exists>k. value_key (ac_values c) i = Some k"
  by (cases "ac_values c") (auto simp: column_ok_def elem_at_def less_mult_imp_div_less mult.commute)

lemma column_compare_ok:
  assumes "column_ok c" "i < ac_rows c" "column_ok c'" "j < ac_rows c'"
    and "value_type (ac_values c) = ty" "value_type (ac_values c') = ty" "ty \<noteq> Nested"
  shows "column_compare c i c' j = Some (cmp (key_of c i) (key_of c' j))"
proof -
  obtain k k' where k: "value_key (ac_values c) i = Some k" "value_key (ac_values c') j = Some k'"
    using value_key_ok assms by metis
  have "cmp (fst k, 0 :: int, snd k) (fst k', 0, snd k') = cmp k k'" by (cases k; cases k') (simp add: cmp_def)
  then show ?thesis using k assms(5,6) by (cases k; cases k') (simp add: column_compare_def key_of_def)
qed

lemma readable_arguments:
  assumes "extreme_readable order ty demands d r"
  shows "row_demand r d = Some (wr_arguments r ! d)" "arguments_ok (wr_arguments r ! d) (wr_row r)"
  using assms by (auto simp: extreme_readable_def row_ok_def row_demand_def elem_at_def)

lemma row_compare_ok:
  assumes rows: "list_all (extreme_readable order ty demands d) rows" and lr: "l < length rows" "r < length rows"
  shows "row_compare order d rows l r = Some (cmp (row_key order d (rows ! l)) (row_key order d (rows ! r)))"
proof -
  have read: "extreme_readable order ty demands d (rows ! l)" "extreme_readable order ty demands d (rows ! r)"
    using rows lr by (simp_all add: list_all_length)
  have args: "arguments_ok (wr_arguments (rows ! l) ! d) (wr_row (rows ! l))" "arguments_ok (wr_arguments (rows ! r) ! d) (wr_row (rows ! r))"
    and key: "key_readable order ty (wr_arguments (rows ! l) ! d)" "key_readable order ty (wr_arguments (rows ! r) ! d)"
    using readable_arguments(2) read by (auto simp: extreme_readable_def)
  show ?thesis
  proof (cases order)
    case Arrival
    then show ?thesis using lr by (simp add: row_compare_def elem_at_def row_key_def cmp_def)
  next
    case Value
    with key args have "column_compare (first_column d (rows ! l)) (wr_row (rows ! l)) (first_column d (rows ! r)) (wr_row (rows ! r)) =
        Some (cmp (row_key order d (rows ! l)) (row_key order d (rows ! r)))"
      by (simp add: column_compare_ok key_readable_def arguments_ok_def first_column_def row_key_def)
    then show ?thesis using Value lr readable_arguments(1) [OF read(1)] readable_arguments(1) [OF read(2)]
      by (simp add: row_compare_def elem_at_def first_column_def)
  next
    case Key
    then obtain c c' where c: "wa_second (wr_arguments (rows ! l) ! d) = Some c" "wa_second (wr_arguments (rows ! r) ! d) = Some c'"
      using key by (auto simp: key_readable_def split: option.splits)
    with Key key args have "column_compare c (wr_row (rows ! l)) c' (wr_row (rows ! r)) =
        Some (cmp (row_key order d (rows ! l)) (row_key order d (rows ! r)))"
      by (simp add: column_compare_ok key_readable_def arguments_ok_def row_key_def)
    then show ?thesis using Key c lr readable_arguments(1) [OF read(1)] readable_arguments(1) [OF read(2)]
      by (simp add: row_compare_def elem_at_def)
  qed
qed

lemma contributes_ok:
  assumes "extreme_readable order ty demands d r"
  shows "contributes order (wr_arguments r ! d) (wr_row r) = Some (row_counted order d r)"
proof -
  let ?args = "wr_arguments r ! d"
  have ok: "column_ok (wa_first ?args)" "wr_row r < ac_rows (wa_first ?args)"
    using readable_arguments(2) [OF assms] by (simp_all add: arguments_ok_def)
  then have first: "is_present (wa_first ?args) (wr_row r) = Some (row_present d r)"
    by (simp add: is_present_ok row_present_def first_column_def)
  show ?thesis
  proof (cases "order = Key")
    case True
    then obtain c where c: "wa_second ?args = Some c" using assms by (cases "wa_second ?args") (auto simp: extreme_readable_def key_readable_def)
    then have "is_present c (wr_row r) = Some (present_at c (wr_row r))"
      using readable_arguments(2) [OF assms] by (simp add: is_present_ok arguments_ok_def)
    then show ?thesis using True c first by (simp add: contributes_def row_counted_def)
  next
    case False
    then show ?thesis using first by (cases order) (simp_all add: contributes_def row_counted_def)
  qed
qed

lemma position_of_ok:
  assumes "consecutive rows" and "i < length rows"
  shows "position_of rows (wr_sequence (rows ! i)) = Some i"
proof -
  have "0 < length rows" using assms(2) by (rule le_less_trans [OF le0])
  moreover have "wr_sequence (rows ! i) = wr_sequence (rows ! 0) + i" using assms unfolding consecutive_def by blast
  ultimately show ?thesis by (simp add: position_of_def elem_at_def checked_sub_def)
qed

section \<open>The queues of a demand\<close>

abbreviation sequences :: "window_row list \<Rightarrow> nat list \<Rightarrow> nat list" where
  "sequences rows ps \<equiv> map (\<lambda>i. wr_sequence (rows ! i)) ps"

lemma pop_back_while_map:
  "\<forall>i \<in> set ps. f (g i) = Some (P i) \<Longrightarrow> pop_back_while f (map g ps) = Some (map g (dropWhile P ps))"
  by (induction ps) auto

lemma drop_beaten_ok:
  assumes "list_all (extreme_readable order ty demands d) rows" and "consecutive rows"
    and "position < length rows" and "\<forall>i \<in> set ps. i < length rows"
  shows "drop_beaten order d rows position beaten (sequences rows ps) =
    Some (sequences rows (back_beaten (beats_by beaten order d rows position) ps))"
proof -
  let ?f = "\<lambda>back. do { back_position \<leftarrow> position_of rows back; ordering \<leftarrow> row_compare order d rows back_position position; Some (ordering = beaten) }"
  have "\<forall>i \<in> set (rev ps). ?f (wr_sequence (rows ! i)) = Some (beats_by beaten order d rows position i)"
    using assms by (simp add: position_of_ok row_compare_ok beats_by_def)
  from pop_back_while_map [of "rev ps" ?f "\<lambda>i. wr_sequence (rows ! i)", OF this] show ?thesis
    by (simp add: drop_beaten_def back_beaten_def rev_map)
qed

definition candidates_hold :: "ordering \<Rightarrow> extreme_order \<Rightarrow> nat \<Rightarrow> window_row list \<Rightarrow> nat \<Rightarrow> nat \<Rightarrow> nat list option \<Rightarrow> bool" where
  "candidates_hold beaten order d rows p limit c \<longleftrightarrow>
     (case c of None \<Rightarrow> True
      | Some cs \<Rightarrow> \<exists>ps. cs = sequences rows ps \<and>
          candidate_queue (beats_by beaten order d rows) (\<lambda>i. row_counted order d (rows ! i)) p limit ps)"

definition extremes_hold :: "nat \<Rightarrow> window_row list \<Rightarrow> nat \<Rightarrow> nat \<Rightarrow> row_extremes \<Rightarrow> bool" where
  "extremes_hold d rows p limit x \<longleftrightarrow>
     candidates_hold Greater (re_order x) d rows p limit (re_smallest x) \<and>
     candidates_hold Less (re_order x) d rows p limit (re_largest x)"

text \<open>What an operation never changes: the order, and which of the two extremes the demand needs.\<close>

definition same_demand :: "row_extremes \<Rightarrow> row_extremes \<Rightarrow> bool" where
  "same_demand x x' \<longleftrightarrow> re_order x' = re_order x \<and> (re_smallest x' = None \<longleftrightarrow> re_smallest x = None) \<and>
     (re_largest x' = None \<longleftrightarrow> re_largest x = None)"

definition window_reads :: "extreme_order \<Rightarrow> data_type \<Rightarrow> nat \<Rightarrow> nat \<Rightarrow> window_row list \<Rightarrow> bool" where
  "window_reads order ty demands d rows \<longleftrightarrow>
     rows_ok demands rows \<and> consecutive rows \<and> list_all (extreme_readable order ty demands d) rows"

lemma window_readsD:
  assumes "window_reads order ty demands d rows"
  shows "list_all (extreme_readable order ty demands d) rows" "consecutive rows"
  using assms by (simp_all add: window_reads_def)

lemma on_drop:
  assumes reads: "window_reads order ty demands d rows" and beaten: "beaten \<noteq> Equal"
    and hold: "candidates_hold beaten order d rows p limit c"
    and m: "row_counted order d (rows ! m)" "p \<le> m" "m < limit" "limit \<le> length rows"
  shows "\<exists>c'. on_candidates (drop_beaten order d rows m beaten) c = Some c' \<and> candidates_hold beaten order d rows p limit c' \<and>
    (c' = None \<longleftrightarrow> c = None)"
proof (cases c)
  case (Some cs)
  then obtain ps where ps: "cs = sequences rows ps"
    "candidate_queue (beats_by beaten order d rows) (\<lambda>i. row_counted order d (rows ! i)) p limit ps"
    using hold by (auto simp: candidates_hold_def)
  then have "\<forall>i \<in> set ps. i < length rows" using m by (auto simp: candidate_queue_def)
  then have "drop_beaten order d rows m beaten cs = Some (sequences rows (back_beaten (beats_by beaten order d rows m) ps))"
    using drop_beaten_ok [OF window_readsD [OF reads] less_le_trans [OF m(3,4)]] ps(1) by simp
  then show ?thesis
    using Some contest.queue_drop [OF contest_beats_by [OF beaten] ps(2) m(1,3,2)]
    by (auto simp: on_candidates_def candidates_hold_def)
qed (simp add: on_candidates_def candidates_hold_def)

lemma on_push:
  assumes reads: "window_reads order ty demands d rows" and beaten: "beaten \<noteq> Equal"
    and hold: "candidates_hold beaten order d rows p limit c"
    and p: "row_counted order d (rows ! p)" "p < limit" "limit \<le> length rows"
  shows "\<exists>c'. on_candidates (\<lambda>cs. push_candidate order d rows cs p (wr_sequence (rows ! p)) beaten) c = Some c' \<and>
    candidates_hold beaten order d rows (Suc p) limit c' \<and> (c' = None \<longleftrightarrow> c = None)"
proof (cases c)
  case (Some cs)
  then obtain ps where ps: "cs = sequences rows ps"
    "candidate_queue (beats_by beaten order d rows) (\<lambda>i. row_counted order d (rows ! i)) p limit ps"
    using hold by (auto simp: candidates_hold_def)
  then have "\<forall>i \<in> set ps. i < length rows" using p by (auto simp: candidate_queue_def)
  then have "drop_beaten order d rows p beaten cs = Some (sequences rows (back_beaten (beats_by beaten order d rows p) ps))"
    using drop_beaten_ok [OF window_readsD [OF reads] less_le_trans [OF p(2,3)]] ps(1) by simp
  then have "push_candidate order d rows cs p (wr_sequence (rows ! p)) beaten =
      Some (sequences rows (back_beaten (beats_by beaten order d rows p) ps @ [p]))"
    by (simp add: push_candidate_def)
  then show ?thesis
    using Some contest.queue_push [OF contest_beats_by [OF beaten] ps(2) p(1,2)]
    unfolding on_candidates_def candidates_hold_def by (intro exI [of _ "Some (sequences rows (back_beaten (beats_by beaten order d rows p) ps @ [p]))"])
      (simp del: map_append, blast)
qed (simp add: on_candidates_def candidates_hold_def)

lemma candidates_later:
  assumes "candidates_hold beaten order d rows p limit c" and "limit \<le> limit'"
  shows "candidates_hold beaten order d rows p limit' c"
  using assms queue_later by (cases c) (simp_all add: candidates_hold_def, blast)

lemma candidates_skip:
  assumes "candidates_hold beaten order d rows p limit c" and "\<not> row_counted order d (rows ! p)"
  shows "candidates_hold beaten order d rows (Suc p) limit c"
  using assms queue_skip [where counted = "\<lambda>i. row_counted order d (rows ! i)" and p = p]
  by (cases c) (simp_all add: candidates_hold_def, blast)

lemma same_demand_trans: "same_demand x y \<Longrightarrow> same_demand y z \<Longrightarrow> same_demand x z"
  by (simp add: same_demand_def)

lemma admit_positioned_ok:
  assumes reads: "window_reads order ty demands d rows" and limit: "limit \<le> length rows"
    and placed: "\<forall>i < n. wr_arguments (rows ! (p + i)) ! d = args \<and> wr_row (rows ! (p + i)) = row + i"
    and "p + n = limit" and "re_order x = order" and "extremes_hold d rows p limit x"
  shows "\<exists>x'. admit_positioned d rows args (zip [row..<row + n] [p..<p + n]) x = Some x' \<and> same_demand x x' \<and>
    extremes_hold d rows limit limit x'"
  using assms(3-)
proof (induction n arbitrary: p row x)
  case (Suc n)
  have at: "wr_arguments (rows ! p) ! d = args" "wr_row (rows ! p) = row"
    using Suc.prems(1) [rule_format, of 0] by simp_all
  have next_placed: "\<forall>i < n. wr_arguments (rows ! (Suc p + i)) ! d = args \<and> wr_row (rows ! (Suc p + i)) = Suc row + i"
    using Suc.prems(1) by (metis Suc_mono add_Suc_shift)
  have p: "p < limit" "p < length rows" "Suc p + n = limit" using Suc.prems(2) limit by simp_all
  have zip: "zip [row..<row + Suc n] [p..<p + Suc n] = (row, p) # zip [Suc row..<Suc row + n] [Suc p..<Suc p + n]"
    by (simp add: upt_conv_Cons del: upt_Suc)
  have read: "extreme_readable order ty demands d (rows ! p)" using reads p(2) by (simp add: window_reads_def list_all_length)
  have counted: "contributes (re_order x) args row = Some (row_counted order d (rows ! p))"
    using contributes_ok [OF read] at Suc.prems(3) by simp
  show ?case
  proof (cases "row_counted order d (rows ! p)")
    case True
    obtain s l where s: "on_candidates (\<lambda>cs. push_candidate order d rows cs p (wr_sequence (rows ! p)) Greater) (re_smallest x) = Some s"
        "candidates_hold Greater order d rows (Suc p) limit s" "s = None \<longleftrightarrow> re_smallest x = None"
      and l: "on_candidates (\<lambda>cs. push_candidate order d rows cs p (wr_sequence (rows ! p)) Less) (re_largest x) = Some l"
        "candidates_hold Less order d rows (Suc p) limit l" "l = None \<longleftrightarrow> re_largest x = None"
      using on_push [OF reads, of Greater p limit "re_smallest x"] on_push [OF reads, of Less p limit "re_largest x"]
        True p(1) limit Suc.prems(3,4) by (auto simp: extremes_hold_def)
    let ?x = "x\<lparr>re_smallest := s, re_largest := l\<rparr>"
    have x: "re_order ?x = order" "extremes_hold d rows (Suc p) limit ?x" "same_demand x ?x"
      using s l Suc.prems(3) by (simp_all add: extremes_hold_def same_demand_def)
    have step: "admit_positioned d rows args (zip [row..<row + Suc n] [p..<p + Suc n]) x =
        admit_positioned d rows args (zip [Suc row..<Suc row + n] [Suc p..<Suc p + n]) ?x"
      using True counted s(1) l(1) p(2) Suc.prems(3) unfolding zip by (simp add: elem_at_def del: upt_Suc)
    show ?thesis using Suc.IH [OF next_placed p(3) x(1,2)] same_demand_trans [OF x(3)] unfolding step by blast
  next
    case False
    then have "extremes_hold d rows (Suc p) limit x"
      using Suc.prems(3,4) candidates_skip by (simp add: extremes_hold_def)
    from Suc.IH [OF next_placed p(3) Suc.prems(3) this] False counted show ?thesis unfolding zip by (simp del: upt_Suc)
  qed
qed (simp add: same_demand_def)

section \<open>Admitting rows\<close>

lemma positioned_from_ok:
  "first + offset + length rs \<le> u64_max \<Longrightarrow> positioned_from first offset rs = Some (zip rs [first + offset..<first + offset + length rs])"
  by (induction rs arbitrary: offset) (auto simp: checked_add_def upt_conv_Cons simp del: upt_Suc)

lemma prune_ok:
  assumes reads: "window_reads order ty demands d rows" and placed: "placed rows run" and p: "rr_first_position run = p"
    and limit: "limit = p + (rr_end run - rr_start run)" "limit \<le> length rows"
    and args: "args = rr_arguments run ! d" "column_ok (wa_first args)" "rr_end run \<le> ac_rows (wa_first args)"
    and x: "re_order x = order" "extremes_hold d rows p limit x"
  shows "\<exists>x'. prune_numeric_candidates d rows run args x = Some x' \<and> same_demand x x' \<and> extremes_hold d rows p limit x'"
proof (cases "order = Value")
  case by_value: True
  have lt: "rr_start run < rr_end run" using placed by (simp add: placed_def)
  obtain r where r: "numeric_extreme_rows (wa_first args) (rr_start run) (rr_end run) = Some r"
    "case r of None \<Rightarrow> True | Some (i, j) \<Rightarrow> rr_start run \<le> i \<and> i < rr_end run \<and> present_at (wa_first args) i \<and>
       rr_start run \<le> j \<and> j < rr_end run \<and> present_at (wa_first args) j"
    using numeric_extreme_rows_ok [OF args(2) less_imp_le [OF lt] args(3)] by blast
  show ?thesis
  proof (cases r)
    case None
    then show ?thesis using x r(1) by (intro exI [of _ x]) (simp add: prune_numeric_candidates_def same_demand_def)
  next
    case (Some ij)
    obtain i j where ij: "ij = (i, j)" by (cases ij)
    have row: "row_counted order d (rows ! (p + k - rr_start run)) \<and> p \<le> p + k - rr_start run \<and> p + k - rr_start run < limit"
      if "rr_start run \<le> k" "k < rr_end run" "present_at (wa_first args) k" for k
    proof -
      have "k - rr_start run < rr_end run - rr_start run" using that by simp
      then have "wr_arguments (rows ! (p + (k - rr_start run))) = rr_arguments run" "wr_row (rows ! (p + (k - rr_start run))) = k"
        using placed that(1) by (auto simp: placed_def p)
      then have "row_counted order d (rows ! (p + k - rr_start run))" using that by_value args(1)
        by (simp add: row_counted_def row_present_def first_column_def Nat.add_diff_assoc)
      moreover have "p \<le> p + k - rr_start run" "p + k - rr_start run < limit" using that limit(1) by arith+
      ultimately show ?thesis by blast
    qed
    have i: "rr_start run \<le> i" "i < rr_end run" "present_at (wa_first args) i"
      and j: "rr_start run \<le> j" "j < rr_end run" "present_at (wa_first args) j" using r(2) Some ij by simp_all
    have hold: "candidates_hold Greater order d rows p limit (re_smallest x)" "candidates_hold Less order d rows p limit (re_largest x)"
      using x by (simp_all add: extremes_hold_def)
    obtain s where s: "on_candidates (drop_beaten order d rows (p + i - rr_start run) Greater) (re_smallest x) = Some s"
      "candidates_hold Greater order d rows p limit s" "s = None \<longleftrightarrow> re_smallest x = None"
      using on_drop [OF reads _ hold(1), of "p + i - rr_start run"] row [OF i] limit(2) by auto
    obtain l where l: "on_candidates (drop_beaten order d rows (p + j - rr_start run) Less) (re_largest x) = Some l"
      "candidates_hold Less order d rows p limit l" "l = None \<longleftrightarrow> re_largest x = None"
      using on_drop [OF reads _ hold(2), of "p + j - rr_start run"] row [OF j] limit(2) by auto
    have "prune_numeric_candidates d rows run args x = Some (x\<lparr>re_smallest := s, re_largest := l\<rparr>)"
      using s(1) l(1) r(1) Some ij by_value x(1) p by (simp add: prune_numeric_candidates_def Let_def)
    then show ?thesis using s l x(1) by (simp add: same_demand_def extremes_hold_def)
  qed
qed (use x in \<open>simp add: prune_numeric_candidates_def same_demand_def\<close>)

lemma extremes_admit_run:
  assumes reads: "window_reads order ty demands d rows" and placed: "placed rows run" and p: "rr_first_position run = p"
    and limit: "limit = p + (rr_end run - rr_start run)" "limit \<le> length rows"
    and x: "re_order x = order" "extremes_hold d rows p p x"
  shows "\<exists>x'. row_extremes_admit d rows x run = Some x' \<and> same_demand x x' \<and> extremes_hold d rows limit limit x'"
proof -
  have all: "list_all (extreme_readable order ty demands d) (map ((!) rows) (run_positions run))"
    using window_readsD(1) [OF reads] limit by (auto simp: list_all_iff run_positions_def p)
  then have ok: "list_all (row_ok demands) (map ((!) rows) (run_positions run))"
    by (auto simp: list_all_iff extreme_readable_def)
  have ne: "map ((!) rows) (run_positions run) \<noteq> []" using run_of_ne [OF placed_run_of [OF placed]] by blast
  then have "d < demands" using all by (cases "map ((!) rows) (run_positions run)") (simp_all add: extreme_readable_def)
  from run_column [OF placed_run_of [OF placed] ok this]
  obtain args where args: "run_demand run d = Some args" "column_ok (wa_first args)" "rr_start run < rr_end run"
    "rr_end run \<le> ac_rows (wa_first args)" by blast
  have eq: "args = rr_arguments run ! d" using args(1) by (simp add: run_demand_def elem_at_def split: if_splits)
  have later: "extremes_hold d rows p limit x"
    using x(2) limit(1) by (auto simp: extremes_hold_def elim: candidates_later)
  obtain x1 where x1: "prune_numeric_candidates d rows run args x = Some x1" "same_demand x x1" "extremes_hold d rows p limit x1"
    using prune_ok [OF reads placed p limit eq args(2,4) x(1) later] by blast
  have rows: "\<forall>i < rr_end run - rr_start run. wr_arguments (rows ! (p + i)) ! d = args \<and> wr_row (rows ! (p + i)) = rr_start run + i"
    using placed eq by (auto simp: placed_def p)
  obtain x' where x': "admit_positioned d rows args (zip [rr_start run..<rr_start run + (rr_end run - rr_start run)]
      [p..<p + (rr_end run - rr_start run)]) x1 = Some x'" "same_demand x1 x'" "extremes_hold d rows limit limit x'"
    using admit_positioned_ok [OF reads limit(2) rows limit(1) [symmetric] _ x1(3)] x1(2) x(1) by (auto simp: same_demand_def)
  have "p + (rr_end run - rr_start run) \<le> u64_max"
    using reads limit by (auto simp: window_reads_def rows_ok_def u64_max_def)
  then have "positioned_rows run = Some (zip [rr_start run..<rr_end run] [p..<p + (rr_end run - rr_start run)])"
    using positioned_from_ok [of p 0 "[rr_start run..<rr_end run]"] p by (simp add: positioned_rows_def)
  then have "row_extremes_admit d rows x run = Some x'"
    using args(1,3) x1(1) x'(1) by (simp add: row_extremes_admit_def)
  then show ?thesis using same_demand_trans [OF x1(2) x'(2)] x'(3) by blast
qed

lemma upt_split:
  assumes "[a..<a + n] @ xs = [p..<e]" and "0 < n"
  shows "a = p \<and> xs = [p + n..<e] \<and> p + n \<le> e"
proof -
  have len: "n + length xs = e - p" using arg_cong [OF assms(1), of length] by simp
  have "a = p" using arg_cong [OF assms(1), of hd] assms(2) len by (simp add: hd_append upt_conv_Cons)
  moreover have "xs = drop n [p..<e]" using arg_cong [OF assms(1), of "drop n"] by simp
  ultimately show ?thesis using len assms(2) by (simp add: drop_upt)
qed

lemma extremes_admit_runs:
  assumes reads: "window_reads order ty demands d rows"
  shows "list_all (placed rows) runs \<Longrightarrow> concat (map run_positions runs) = [p..<length rows] \<Longrightarrow> p \<le> length rows \<Longrightarrow>
    re_order x = order \<Longrightarrow> extremes_hold d rows p p x \<Longrightarrow>
    \<exists>x'. fold_runs (row_extremes_admit d rows) x runs = Some x' \<and> same_demand x x' \<and> extremes_hold d rows (length rows) (length rows) x'"
proof (induction runs arbitrary: p x)
  case Nil
  then have "[p..<length rows] = []" by simp
  then have "p = length rows" using Nil.prems(3) by (simp only: upt_eq_Nil_conv) arith
  then show ?case using Nil by (simp add: same_demand_def)
next
  case (Cons run runs)
  let ?n = "rr_end run - rr_start run"
  have placed: "placed rows run" "0 < ?n" using Cons.prems(1) by (simp_all add: placed_def)
  have "run_positions run @ concat (map run_positions runs) = [p..<length rows]" using Cons.prems(2) by simp
  from upt_split [OF this [unfolded run_positions_def [of run]] placed(2)]
  have p: "rr_first_position run = p" "concat (map run_positions runs) = [p + ?n..<length rows]" "p + ?n \<le> length rows"
    by blast+
  obtain x1 where x1: "row_extremes_admit d rows x run = Some x1" "same_demand x x1" "extremes_hold d rows (p + ?n) (p + ?n) x1"
    using extremes_admit_run [OF reads placed(1) p(1) refl p(3) Cons.prems(4,5)] by blast
  have "re_order x1 = order" "list_all (placed rows) runs" using x1(2) Cons.prems(1,4) by (simp_all add: same_demand_def)
  from Cons.IH [OF this(2) p(2,3) this(1) x1(3)] show ?case using x1(1) same_demand_trans [OF x1(2)] by auto
qed

lemma queue_cong:
  assumes "\<And>i. i < p \<Longrightarrow> counted i = counted' i" and "\<And>i j. i < p \<Longrightarrow> j < p \<Longrightarrow> beats i j = beats' i j"
    and queue: "candidate_queue beats counted p p ps"
  shows "candidate_queue beats' counted' p p ps"
proof -
  have below: "\<forall>i \<in> set ps. i < p \<and> counted i" and sorted: "sorted_wrt (\<lambda>i j. i < j \<and> \<not> beats j i) ps"
    using queue by (simp_all add: candidate_queue_def)
  have "sorted_wrt (\<lambda>i j. i < j \<and> \<not> beats' j i) ps"
    by (rule sorted_wrt_mono_rel [OF _ sorted]) (use below assms(2) in blast)
  moreover have "\<forall>i \<in> set ps. i < p \<and> counted' i" using below assms(1) by blast
  moreover have "\<forall>j < p. counted' j \<longrightarrow> j \<in> set ps \<or> (\<exists>k < p. j < k \<and> counted' k \<and> beats' k j)"
    using queue assms(1,2) unfolding candidate_queue_def by metis
  ultimately show ?thesis by (simp add: candidate_queue_def)
qed

lemma candidates_append:
  assumes "candidates_hold beaten order d rows (length rows) (length rows) c"
  shows "candidates_hold beaten order d (rows @ new) (length rows) (length rows) c"
proof (cases c)
  case (Some cs)
  then obtain ps where ps: "cs = sequences rows ps"
    "candidate_queue (beats_by beaten order d rows) (\<lambda>i. row_counted order d (rows ! i)) (length rows) (length rows) ps"
    using assms by (auto simp: candidates_hold_def)
  then have "cs = sequences (rows @ new) ps" by (auto simp: candidate_queue_def nth_append)
  moreover have "candidate_queue (beats_by beaten order d (rows @ new)) (\<lambda>i. row_counted order d ((rows @ new) ! i)) (length rows) (length rows) ps"
    by (rule queue_cong [OF _ _ ps(2)]) (simp_all add: beats_by_def nth_append)
  ultimately show ?thesis using Some by (auto simp: candidates_hold_def)
qed (simp add: candidates_hold_def)

lemma extremes_append: "extremes_hold d rows (length rows) (length rows) x \<Longrightarrow> extremes_hold d (rows @ new) (length rows) (length rows) x"
  by (simp add: extremes_hold_def candidates_append)

section \<open>Retracting rows\<close>

lemma candidates_retract:
  assumes seq: "consecutive rows" and "n < length rows"
    and hold: "candidates_hold beaten order d rows (length rows) (length rows) (Some cs)"
  shows "candidates_hold beaten order d (drop n rows) (length rows - n) (length rows - n)
    (Some (dropWhile (\<lambda>front. front < wr_sequence (rows ! n)) cs))"
proof -
  obtain ps where ps: "cs = sequences rows ps"
    "candidate_queue (beats_by beaten order d rows) (\<lambda>i. row_counted order d (rows ! i)) (length rows) (length rows) ps"
    using hold by (auto simp: candidates_hold_def)
  have "wr_sequence (rows ! i) < wr_sequence (rows ! n) \<longleftrightarrow> i < n" if "i < length rows" for i
    using seq assms(2) that unfolding consecutive_def by (metis nat_add_left_cancel_less)
  moreover have below: "\<forall>i \<in> set ps. i < length rows" using ps(2) by (simp add: candidate_queue_def)
  ultimately have "dropWhile (\<lambda>front. front < wr_sequence (rows ! n)) cs = sequences rows (dropWhile (\<lambda>i. i < n) ps)"
    by (simp add: ps(1) dropWhile_map o_def cong: dropWhile_cong)
  also have "\<dots> = sequences (drop n rows) (map (\<lambda>i. i - n) (dropWhile (\<lambda>i. i < n) ps))"
  proof -
    have "n \<le> i" if "i \<in> set (dropWhile (\<lambda>i. i < n) ps)" for i
      using that by (simp add: queue_dropWhile [OF ps(2)])
    then show ?thesis using assms(2) by auto
  qed
  finally have "dropWhile (\<lambda>front. front < wr_sequence (rows ! n)) cs = \<dots>" .
  moreover have "candidate_queue (beats_by beaten order d (drop n rows)) (\<lambda>i. row_counted order d (drop n rows ! i))
      (length rows - n) (length rows - n) (map (\<lambda>i. i - n) (dropWhile (\<lambda>i. i < n) ps))"
    using queue_retract [OF ps(2), of n] assms(2) by (simp add: beats_by_def [abs_def])
  ultimately show ?thesis unfolding candidates_hold_def option.case by blast
qed

lemma extremes_retract_ok:
  assumes "consecutive rows" and "n \<le> length rows" and hold: "extremes_hold d rows (length rows) (length rows) x"
  shows "\<exists>x'. row_extremes_retract_oldest rows n x = Some x' \<and> same_demand x x' \<and>
    extremes_hold d (drop n rows) (length rows - n) (length rows - n) x'"
proof (cases "n < length rows")
  case True
  have "candidates_hold beaten order d (drop n rows) (length rows - n) (length rows - n)
      (map_option (dropWhile (\<lambda>front. front < wr_sequence (rows ! n))) c)"
    if "candidates_hold beaten order d rows (length rows) (length rows) c" for beaten order c
    using candidates_retract [OF assms(1) True] that by (cases c) (simp_all add: candidates_hold_def)
  then show ?thesis using True hold
    by (simp add: row_extremes_retract_oldest_def elem_at_def extremes_hold_def same_demand_def Let_def)
next
  case False
  then show ?thesis using assms(2)
    by (simp add: row_extremes_retract_oldest_def extremes_hold_def same_demand_def candidates_hold_def queue_empty Let_def split: option.splits)
qed

section \<open>Evaluating extremes\<close>

text \<open>The result of a function: the first argument of the earliest extreme row, or a null when no row contributes.\<close>

definition extreme_result :: "ordering \<Rightarrow> extreme_order \<Rightarrow> nat \<Rightarrow> data_type \<Rightarrow> window_row list \<Rightarrow> aggregate_value \<Rightarrow> bool" where
  "extreme_result beaten order d output rows v \<longleftrightarrow>
     (if \<forall>r \<in> set rows. \<not> row_counted order d r then v = Null_array output
      else \<exists>i. earliest_best (beats_by beaten order d rows) (\<lambda>i. row_counted order d (rows ! i)) (length rows) i \<and>
        v = Slice_array (first_column d (rows ! i)) (wr_row (rows ! i)))"

lemma extremes_front:
  assumes reads: "window_reads order ty demands d rows" and beaten: "beaten \<noteq> Equal"
    and hold: "candidates_hold beaten order d rows (length rows) (length rows) (Some cs)"
  shows "\<exists>v. (case cs of
       [] \<Rightarrow> Some (Null_array output)
     | extreme # _ \<Rightarrow> do {
         position \<leftarrow> position_of rows extreme;
         r \<leftarrow> elem_at rows position;
         args \<leftarrow> row_demand r d;
         if wr_row r < ac_rows (wa_first args) then Some (Slice_array (wa_first args) (wr_row r)) else panic
       }) = Some v \<and> extreme_result beaten order d output rows v"
proof -
  obtain ps where ps: "cs = sequences rows ps"
    "candidate_queue (beats_by beaten order d rows) (\<lambda>i. row_counted order d (rows ! i)) (length rows) (length rows) ps"
    using hold by (auto simp: candidates_hold_def)
  note front = contest.queue_front [OF contest_beats_by [OF beaten] ps(2)]
  show ?thesis
  proof (cases ps)
    case Nil
    then have "\<forall>r \<in> set rows. \<not> row_counted order d r" using front by (auto simp: in_set_conv_nth)
    then show ?thesis using Nil ps(1) by (simp add: extreme_result_def)
  next
    case (Cons i rest)
    then have best: "earliest_best (beats_by beaten order d rows) (\<lambda>i. row_counted order d (rows ! i)) (length rows) i"
      using front by simp
    then have i: "i < length rows" "row_counted order d (rows ! i)" by (simp_all add: earliest_best_def)
    have read: "extreme_readable order ty demands d (rows ! i)" using reads i(1) by (simp add: window_reads_def list_all_length)
    have "wr_row (rows ! i) < ac_rows (first_column d (rows ! i))"
      using readable_arguments(2) [OF read] by (simp add: arguments_ok_def first_column_def)
    then have "(case cs of [] \<Rightarrow> Some (Null_array output)
       | extreme # _ \<Rightarrow> do {
           position \<leftarrow> position_of rows extreme;
           r \<leftarrow> elem_at rows position;
           args \<leftarrow> row_demand r d;
           if wr_row r < ac_rows (wa_first args) then Some (Slice_array (wa_first args) (wr_row r)) else panic
         }) = Some (Slice_array (first_column d (rows ! i)) (wr_row (rows ! i)))"
      using Cons ps(1) i(1) position_of_ok [OF window_readsD(2) [OF reads] i(1)] readable_arguments(1) [OF read]
      by (simp add: elem_at_def first_column_def)
    moreover have "\<not> (\<forall>r \<in> set rows. \<not> row_counted order d r)" using i by (meson nth_mem)
    ultimately show ?thesis using best by (auto simp: extreme_result_def)
  qed
qed

lemma extremes_evaluate_ok:
  assumes reads: "window_reads (re_order x) ty demands d rows"
    and hold: "extremes_hold d rows (length rows) (length rows) x"
  shows "smallest_function f \<Longrightarrow> re_smallest x \<noteq> None \<Longrightarrow>
      \<exists>v. row_extremes_evaluate d f rows output x = Some v \<and> extreme_result Greater (re_order x) d output rows v"
    and "largest_function f \<Longrightarrow> re_largest x \<noteq> None \<Longrightarrow>
      \<exists>v. row_extremes_evaluate d f rows output x = Some v \<and> extreme_result Less (re_order x) d output rows v"
proof -
  assume f: "smallest_function f" "re_smallest x \<noteq> None"
  then obtain cs where "re_smallest x = Some cs" by blast
  with f show "\<exists>v. row_extremes_evaluate d f rows output x = Some v \<and> extreme_result Greater (re_order x) d output rows v"
    using extremes_front [OF reads, of Greater cs "output"] hold by (simp add: extremes_hold_def row_extremes_evaluate_def)
next
  assume f: "largest_function f" "re_largest x \<noteq> None"
  then obtain cs where "re_largest x = Some cs" by blast
  moreover have "\<not> smallest_function f" using f(1) by (auto simp: smallest_function_def largest_function_def)
  ultimately show "\<exists>v. row_extremes_evaluate d f rows output x = Some v \<and> extreme_result Less (re_order x) d output rows v"
    using extremes_front [OF reads, of Less cs "output"] hold f by (simp add: extremes_hold_def row_extremes_evaluate_def)
qed

end
