(* ===== verification/Two_Stacks.thy ===== *)
theory Two_Stacks
  imports Window_Counts
begin

text \<open>
  The aggregate a window keeps as two stacks (src/runtime/window_accumulator/two_stacks.rs), and the refold of
  a run that rebuilds its front (\<open>refold_run\<close> in sums.rs and moments.rs).

  Its aggregates are floating-point folds, whose merge is associative only up to rounding. Their arithmetic is a
  parameter, the record \<open>aggregate_ops\<close>, and nothing is assumed of it: what is shown is that the answer is a merge
  of the aggregates of exactly the retained rows, each of them once and oldest first, in some bracketing.
\<close>

section \<open>The two stacks\<close>

record 'a aggregate_ops =
  ao_empty :: 'a
  ao_merge :: "'a \<Rightarrow> 'a \<Rightarrow> 'a"
  ao_of_rows :: "window_arguments \<Rightarrow> nat \<Rightarrow> nat \<Rightarrow> 'a"
  ao_of_row :: "window_arguments \<Rightarrow> nat \<Rightarrow> 'a"
  ao_evaluate :: "'a \<Rightarrow> aggregate_function \<Rightarrow> data_type \<Rightarrow> (aggregate_error + aggregate_value) panics"

record 'a two_stacks =
  ts_front :: "'a list"
  ts_back :: 'a

definition two_stacks_new :: "'a aggregate_ops \<Rightarrow> 'a two_stacks" where
  "two_stacks_new ops = \<lparr>ts_front = [], ts_back = ao_empty ops\<rparr>"

definition two_stacks_admit :: "'a aggregate_ops \<Rightarrow> 'a two_stacks \<Rightarrow> 'a \<Rightarrow> 'a two_stacks" where
  "two_stacks_admit ops t newer = t\<lparr>ts_back := ao_merge ops (ts_back t) newer\<rparr>"

definition two_stacks_aggregate :: "'a aggregate_ops \<Rightarrow> 'a two_stacks \<Rightarrow> 'a" where
  "two_stacks_aggregate ops t = (if ts_front t = [] then ts_back t else ao_merge ops (last (ts_front t)) (ts_back t))"

fun refold_rows :: "'a aggregate_ops \<Rightarrow> window_arguments \<Rightarrow> nat list \<Rightarrow> 'a \<Rightarrow> 'a list \<Rightarrow> 'a \<times> 'a list" where
  "refold_rows ops args [] newer front = (newer, front)"
| "refold_rows ops args (row # rows) newer front =
     (let newer' = ao_merge ops (ao_of_row ops args row) newer in refold_rows ops args rows newer' (front @ [newer']))"

definition refold_run :: "'a aggregate_ops \<Rightarrow> nat \<Rightarrow> row_run \<Rightarrow> 'a \<Rightarrow> 'a list \<Rightarrow> ('a \<times> 'a list) panics" where
  "refold_run ops d run newer front = do {
     args \<leftarrow> run_demand run d;
     Some (refold_rows ops args (rev [rr_start run..<rr_end run]) newer front)
   }"

fun refold_runs :: "'a aggregate_ops \<Rightarrow> nat \<Rightarrow> row_run list \<Rightarrow> 'a \<Rightarrow> 'a list \<Rightarrow> 'a list panics" where
  "refold_runs ops d [] newer front = Some front"
| "refold_runs ops d (run # runs) newer front = do {
     (newer', front') \<leftarrow> refold_run ops d run newer front;
     refold_runs ops d runs newer' front'
   }"

definition retract_oldest_runs ::
  "'a aggregate_ops \<Rightarrow> nat \<Rightarrow> nat \<Rightarrow> nat \<Rightarrow> row_run list panics \<Rightarrow> 'a two_stacks \<Rightarrow> 'a two_stacks panics" where
  "retract_oldest_runs ops d count retained runs t =
     (let front_rows = length (ts_front t) in
      if count \<le> front_rows then do {
        kept \<leftarrow> checked_sub front_rows count;
        Some (t\<lparr>ts_front := take kept (ts_front t)\<rparr>)
      } else do {
        newest_first \<leftarrow> runs;
        front \<leftarrow> refold_runs ops d newest_first (ao_empty ops) [];
        if length front = retained - count then Some \<lparr>ts_front = front, ts_back = ao_empty ops\<rparr> else panic
      })"

section \<open>What an aggregate covers\<close>

inductive covering :: "'a aggregate_ops \<Rightarrow> nat \<Rightarrow> window_row list \<Rightarrow> 'a \<Rightarrow> bool" for ops d where
  covers_none: "covering ops d [] (ao_empty ops)"
| covers_row: "covering ops d [r] (ao_of_row ops (wr_arguments r ! d) (wr_row r))"
| covers_run: "run_of run rs \<Longrightarrow> covering ops d rs (ao_of_rows ops (rr_arguments run ! d) (rr_start run) (rr_end run))"
| covers_merge: "covering ops d xs a \<Longrightarrow> covering ops d ys b \<Longrightarrow> covering ops d (xs @ ys) (ao_merge ops a b)"

text \<open>The suffixes of a list of rows, as a front holds them: the aggregate of all of them is last.\<close>

definition suffixes_cover :: "'a aggregate_ops \<Rightarrow> nat \<Rightarrow> window_row list \<Rightarrow> 'a list \<Rightarrow> bool" where
  "suffixes_cover ops d rows front \<longleftrightarrow> length front = length rows \<and>
     (\<forall>i < length rows. covering ops d (drop i rows) (rev front ! i))"

definition stacks_cover :: "'a aggregate_ops \<Rightarrow> nat \<Rightarrow> window_row list \<Rightarrow> 'a two_stacks \<Rightarrow> bool" where
  "stacks_cover ops d rows t \<longleftrightarrow> length (ts_front t) \<le> length rows \<and>
     suffixes_cover ops d (take (length (ts_front t)) rows) (ts_front t) \<and>
     covering ops d (drop (length (ts_front t)) rows) (ts_back t)"

lemma stacks_cover_new: "stacks_cover ops d [] (two_stacks_new ops)"
  by (simp add: stacks_cover_def two_stacks_new_def suffixes_cover_def covers_none)

lemma stacks_cover_admit:
  assumes "stacks_cover ops d rows t" and "covering ops d new a"
  shows "stacks_cover ops d (rows @ new) (two_stacks_admit ops t a)"
  using assms covers_merge [of ops d "drop (length (ts_front t)) rows" "ts_back t" new a]
  by (simp add: stacks_cover_def two_stacks_admit_def)

lemma stacks_cover_aggregate:
  assumes cover: "stacks_cover ops d rows t"
  shows "covering ops d rows (two_stacks_aggregate ops t)"
proof (cases "ts_front t = []")
  case False
  let ?n = "length (ts_front t)"
  have "covering ops d (take ?n rows) (last (ts_front t))"
    using cover False by (auto simp: stacks_cover_def suffixes_cover_def hd_rev simp flip: hd_conv_nth dest!: spec [of _ 0])
  then have "covering ops d (take ?n rows @ drop ?n rows) (ao_merge ops (last (ts_front t)) (ts_back t))"
    using cover by (intro covers_merge) (simp_all add: stacks_cover_def)
  then show ?thesis using False by (simp add: two_stacks_aggregate_def)
qed (use cover in \<open>simp add: stacks_cover_def two_stacks_aggregate_def\<close>)

lemma suffixes_cover_push:
  assumes "suffixes_cover ops d rows front" and "covering ops d (r # rows) a"
  shows "suffixes_cover ops d (r # rows) (front @ [a])"
  using assms by (auto simp: suffixes_cover_def less_Suc_eq_0_disj)

lemma suffixes_cover_truncate:
  assumes cover: "suffixes_cover ops d rows front" and "n \<le> length rows"
  shows "suffixes_cover ops d (drop n rows) (take (length rows - n) front)"
proof -
  have "rev (take (length rows - n) front) = drop n (rev front)"
    using cover assms(2) by (simp add: suffixes_cover_def rev_take)
  then show ?thesis using cover assms(2) by (simp add: suffixes_cover_def add.commute)
qed

definition stacks_admit_run :: "'a aggregate_ops \<Rightarrow> nat \<Rightarrow> 'a two_stacks \<Rightarrow> row_run \<Rightarrow> 'a two_stacks panics" where
  "stacks_admit_run ops d t run = do {
     args \<leftarrow> run_demand run d;
     Some (two_stacks_admit ops t (ao_of_rows ops args (rr_start run) (rr_end run)))
   }"

interpretation stacks: admitting "stacks_admit_run ops d" "counter_readable demands d" "\<lambda>t rows. stacks_cover ops d rows t" for ops demands d
proof (unfold_locales, goal_cases)
  case (1 run rs xs t)
  from 1(2) have "list_all (counter_readable demands d) rs" by simp
  note ok = readable_run [OF 1(1) this]
  obtain args where args: "run_demand run d = Some args" using run_column [OF 1(1) ok(1,2)] by blast
  then have "args = rr_arguments run ! d" by (simp add: run_demand_def elem_at_def split: if_splits)
  then show ?case
    using stacks_cover_admit [OF 1(4) covers_run [OF 1(1), of ops d]] args by (simp add: stacks_admit_run_def)
qed

section \<open>Refolding and retracting\<close>

lemma refold_rows_ok:
  assumes "\<forall>r \<in> set rs. wr_arguments r ! d = args" and "suffixes_cover ops d ys front" and "covering ops d ys newer"
  shows "\<exists>newer' front'. refold_rows ops args (map wr_row (rev rs)) newer front = (newer', front') \<and>
    suffixes_cover ops d (rs @ ys) front' \<and> covering ops d (rs @ ys) newer'"
  using assms
proof (induction rs arbitrary: ys newer front rule: rev_induct)
  case Nil
  then show ?case by simp
next
  case (snoc r rs)
  let ?newer = "ao_merge ops (ao_of_row ops args (wr_row r)) newer"
  have "covering ops d [r] (ao_of_row ops args (wr_row r))" using covers_row [of ops d r] snoc.prems(1) by simp
  from covers_merge [OF this snoc.prems(3)] have newer: "covering ops d (r # ys) ?newer" by simp
  show ?case
    using snoc.IH [OF _ suffixes_cover_push [OF snoc.prems(2) newer] newer] snoc.prems(1) by (simp add: Let_def)
qed

lemma refold_runs_ok:
  assumes "list_all (row_ok demands) rows" and "d < demands"
  shows "list_all (placed rows) runs \<Longrightarrow> \<forall>p \<in> set (concat (map run_positions runs)). p < length rows \<Longrightarrow>
    suffixes_cover ops d ys front \<Longrightarrow> covering ops d ys newer \<Longrightarrow>
    \<exists>front'. refold_runs ops d (rev runs) newer front = Some front' \<and>
      suffixes_cover ops d (map ((!) rows) (concat (map run_positions runs)) @ ys) front'"
proof (induction runs arbitrary: ys front newer rule: rev_induct)
  case (snoc run runs)
  let ?rs = "map ((!) rows) (run_positions run)"
  have run: "run_of run ?rs" using snoc.prems(1) by (simp add: placed_run_of)
  have rows: "list_all (row_ok demands) ?rs" using assms(1) snoc.prems(2) by (auto simp: list_all_length list_all_iff)
  obtain args where args: "run_demand run d = Some args" using run_column [OF run rows assms(2)] by blast
  then have "args = rr_arguments run ! d" by (simp add: run_demand_def elem_at_def split: if_splits)
  then have same: "\<forall>r \<in> set ?rs. wr_arguments r ! d = args" using run by (simp add: run_of_def)
  obtain newer' front' where refold: "refold_rows ops args (map wr_row (rev ?rs)) newer front = (newer', front')"
    "suffixes_cover ops d (?rs @ ys) front'" "covering ops d (?rs @ ys) newer'"
    using refold_rows_ok [OF same snoc.prems(3,4)] by blast
  have "[rr_start run..<rr_end run] = map wr_row ?rs" using run unfolding run_of_def by (metis (no_types))
  from arg_cong [OF this, of rev] have "rev [rr_start run..<rr_end run] = map wr_row (rev ?rs)" by (simp only: rev_map)
  then have "refold_run ops d run newer front = Some (newer', front')" using args refold(1) by (simp add: refold_run_def)
  then show ?case using snoc.IH [OF _ _ refold(2,3)] snoc.prems(1,2) by simp
qed simp

lemma stacks_cover_retract:
  assumes cover: "stacks_cover ops d rows t" and ok: "rows_ok demands rows" "d < demands" and n: "n \<le> length rows"
  shows "\<exists>t'. retract_oldest_runs ops d n (length rows) (map_option rev (retained_runs rows n (length rows))) t = Some t' \<and>
    stacks_cover ops d (drop n rows) t'"
proof (cases "n \<le> length (ts_front t)")
  case True
  let ?f = "length (ts_front t)"
  have "length (take ?f rows) = ?f" using cover by (simp add: stacks_cover_def)
  then have "suffixes_cover ops d (drop n (take ?f rows)) (take (?f - n) (ts_front t))"
    using suffixes_cover_truncate [of ops d "take ?f rows" "ts_front t" n] cover True by (simp add: stacks_cover_def)
  then have "stacks_cover ops d (drop n rows) (t\<lparr>ts_front := take (?f - n) (ts_front t)\<rparr>)"
    using cover True by (simp add: stacks_cover_def drop_take diff_le_mono)
  then show ?thesis using True by (simp add: retract_oldest_runs_def checked_sub_def)
next
  case False
  obtain runs where runs: "retained_runs rows n (length rows) = Some runs"
    "concat (map run_positions runs) = [n..<length rows]" "list_all (placed rows) runs"
    using retained_runs_ok [OF ok(1) order_refl n] by blast
  have rows: "list_all (row_ok demands) rows" using ok(1) by (simp add: rows_ok_def list_all_iff)
  have none: "suffixes_cover ops d [] []" by (simp add: suffixes_cover_def)
  have below: "\<forall>p \<in> set (concat (map run_positions runs)). p < length rows" unfolding runs(2) by simp
  obtain front where front: "refold_runs ops d (rev runs) (ao_empty ops) [] = Some front" "suffixes_cover ops d (drop n rows) front"
    using refold_runs_ok [OF rows ok(2) runs(3) below none covers_none] by (auto simp: runs(2) map_nth_drop)
  have "stacks_cover ops d (drop n rows) \<lparr>ts_front = front, ts_back = ao_empty ops\<rparr>"
    using front(2) covers_none [of ops d] by (simp add: stacks_cover_def suffixes_cover_def)
  moreover have "length front = length rows - n" using front(2) by (simp add: suffixes_cover_def)
  ultimately show ?thesis using False runs(1) front(1) by (simp add: retract_oldest_runs_def)
qed

end
