(* ===== verification/Window_State.thy ===== *)
theory Window_State
  imports Window_Extremes Two_Stacks Timestamp
begin

text \<open>
  The live state of a window processor in one branch (src/runtime/window_processor.rs and
  src/runtime/window_accumulator/mod.rs): the accumulators of its demands, the rows it retains, and the
  operations that admit rows, step the window, clear it and evaluate its aggregates.

  The argument columns of a batch are shared by address: \<open>heap\<close> gives the columns allocated at an address. A
  message is an opaque value. The histogram and the sketches are not modelled; the three floating-point
  aggregates take their arithmetic from the parameter \<open>float_ops\<close>.
\<close>

section \<open>Accumulators\<close>

datatype storage_kind =
  Counter_storage | Truth_storage | Sum_storage | Moments_storage | Co_moments_storage
| Sequence_storage | Extremes_storage | Arg_extremes_storage

record window_demand =
  wd_storage :: storage_kind
  wd_functions :: "aggregate_function list"
  wd_first_type :: data_type
  wd_second_type :: "data_type option"

datatype 'a window_accumulator =
  Counter row_counter
| Truth_Counter truth_counter
| Integer_Sum integer_total
| Float_Sum "'a two_stacks"
| Moments "'a two_stacks"
| Co_Moments "'a two_stacks"
| Extremes row_extremes

record 'a float_ops =
  fo_sum :: "'a aggregate_ops"
  fo_moments :: "'a aggregate_ops"
  fo_co_moments :: "'a aggregate_ops"

definition integer_sum_reads :: "data_type \<Rightarrow> bool" where
  "integer_sum_reads ty \<longleftrightarrow> ty \<in> {UInt8, Int8, UInt16, Int16, UInt32, Int32, UInt64, Int64}"

definition accumulator_new :: "'a float_ops \<Rightarrow> window_demand \<Rightarrow> 'a window_accumulator" where
  "accumulator_new fo demand =
     (case wd_storage demand of
        Counter_storage \<Rightarrow> Counter \<lparr>rc_rows = 0\<rparr>
      | Truth_storage \<Rightarrow> Truth_Counter \<lparr>tc_true_rows = 0, tc_false_rows = 0\<rparr>
      | Sum_storage \<Rightarrow>
          if integer_sum_reads (wd_first_type demand) then Integer_Sum \<lparr>it_values = 0, it_sum = 0\<rparr>
          else Float_Sum (two_stacks_new (fo_sum fo))
      | Moments_storage \<Rightarrow> Moments (two_stacks_new (fo_moments fo))
      | Co_moments_storage \<Rightarrow> Co_Moments (two_stacks_new (fo_co_moments fo))
      | Sequence_storage \<Rightarrow> Extremes (row_extremes_new Arrival (wd_functions demand))
      | Extremes_storage \<Rightarrow> Extremes (row_extremes_new Value (wd_functions demand))
      | Arg_extremes_storage \<Rightarrow> Extremes (row_extremes_new Key (wd_functions demand)))"

definition accumulator_fold_run ::
  "'a float_ops \<Rightarrow> nat \<Rightarrow> nat \<Rightarrow> window_row list \<Rightarrow> 'a window_accumulator \<Rightarrow> row_run \<Rightarrow> 'a window_accumulator panics" where
  "accumulator_fold_run fo width d rows acc run =
     (case acc of
        Counter c \<Rightarrow> map_option Counter (counter_admit_run d c run)
      | Truth_Counter c \<Rightarrow> map_option Truth_Counter (truth_admit_run d c run)
      | Integer_Sum t \<Rightarrow> map_option Integer_Sum (integer_admit_run width d t run)
      | Float_Sum t \<Rightarrow> map_option Float_Sum (stacks_admit_run (fo_sum fo) d t run)
      | Moments t \<Rightarrow> map_option Moments (stacks_admit_run (fo_moments fo) d t run)
      | Co_Moments t \<Rightarrow> map_option Co_Moments (stacks_admit_run (fo_co_moments fo) d t run)
      | Extremes x \<Rightarrow> map_option Extremes (row_extremes_admit d rows x run))"

definition accumulator_fold ::
  "'a float_ops \<Rightarrow> nat \<Rightarrow> nat \<Rightarrow> window_row list \<Rightarrow> nat \<Rightarrow> nat \<Rightarrow> 'a window_accumulator \<Rightarrow> 'a window_accumulator panics" where
  "accumulator_fold fo width d rows start end acc = do {
     runs \<leftarrow> retained_runs rows start end;
     fold_runs (accumulator_fold_run fo width d rows) acc runs
   }"

definition accumulator_retract_oldest ::
  "'a float_ops \<Rightarrow> nat \<Rightarrow> nat \<Rightarrow> window_row list \<Rightarrow> nat \<Rightarrow> 'a window_accumulator \<Rightarrow> 'a window_accumulator panics" where
  "accumulator_retract_oldest fo width d rows count acc =
     (let retained = length rows;
          survivors = map_option rev (retained_runs rows count retained)
      in case acc of
        Counter c \<Rightarrow> map_option Counter (row_counter_retract c count)
      | Truth_Counter c \<Rightarrow> do {
          runs \<leftarrow> retained_runs rows 0 count;
          map_option Truth_Counter (fold_runs (truth_retract_run d) c runs)
        }
      | Integer_Sum t \<Rightarrow> do {
          runs \<leftarrow> retained_runs rows 0 count;
          map_option Integer_Sum (fold_runs (integer_retract_run width d) t runs)
        }
      | Float_Sum t \<Rightarrow> map_option Float_Sum (retract_oldest_runs (fo_sum fo) d count retained survivors t)
      | Moments t \<Rightarrow> map_option Moments (retract_oldest_runs (fo_moments fo) d count retained survivors t)
      | Co_Moments t \<Rightarrow> map_option Co_Moments (retract_oldest_runs (fo_co_moments fo) d count retained survivors t)
      | Extremes x \<Rightarrow> map_option Extremes (row_extremes_retract_oldest rows count x))"

definition accumulator_evaluate ::
  "'a float_ops \<Rightarrow> nat \<Rightarrow> aggregate_function \<Rightarrow> data_type \<Rightarrow> window_row list \<Rightarrow> 'a window_accumulator \<Rightarrow>
   (aggregate_error + aggregate_value) panics" where
  "accumulator_evaluate fo d function output rows acc =
     (case acc of
        Counter c \<Rightarrow> map_option Inr (row_counter_evaluate c)
      | Truth_Counter c \<Rightarrow> map_option Inr (truth_counter_evaluate c function)
      | Integer_Sum t \<Rightarrow> integer_total_evaluate t output
      | Float_Sum t \<Rightarrow> ao_evaluate (fo_sum fo) (two_stacks_aggregate (fo_sum fo) t) function output
      | Moments t \<Rightarrow> ao_evaluate (fo_moments fo) (two_stacks_aggregate (fo_moments fo) t) function output
      | Co_Moments t \<Rightarrow> ao_evaluate (fo_co_moments fo) (two_stacks_aggregate (fo_co_moments fo) t) function output
      | Extremes x \<Rightarrow> map_option Inr (row_extremes_evaluate d function rows output x))"

text \<open>What an accumulator publishes beyond the retained rows: only the histogram, which is not modelled, does.\<close>

datatype accumulator_snapshot = Retained | Linear_Histogram_snapshot

definition accumulator_to_snapshot :: "'a window_accumulator \<Rightarrow> accumulator_snapshot" where
  "accumulator_to_snapshot acc = Retained"

definition accumulator_restore ::
  "'a float_ops \<Rightarrow> nat \<Rightarrow> window_demand \<Rightarrow> nat \<Rightarrow> window_row list \<Rightarrow> accumulator_snapshot \<Rightarrow> (aggregate_error + 'a window_accumulator) panics" where
  "accumulator_restore fo width demand d rows snapshot = do {
     acc \<leftarrow> accumulator_fold fo width d rows 0 (length rows) (accumulator_new fo demand);
     Some (case snapshot of Retained \<Rightarrow> Inr acc | Linear_Histogram_snapshot \<Rightarrow> Inl (Snapshot_Accumulator d))
   }"

section \<open>The window of a branch\<close>

record 'm window_entry =
  we_row :: window_row
  we_message :: 'm

record 'm window_admission =
  wad_message :: 'm
  wad_timestamp :: timestamp
  wad_row :: nat

record ('m, 'a) window_state =
  ws_entries :: "'m window_entry list"
  ws_next_sequence :: nat
  ws_incarnation :: nat
  ws_accumulators :: "'a window_accumulator list"

definition empty_accumulators :: "'a float_ops \<Rightarrow> window_demand list \<Rightarrow> 'a window_accumulator list" where
  "empty_accumulators fo plan = map (accumulator_new fo) plan"

definition window_state_new :: "'a float_ops \<Rightarrow> window_demand list \<Rightarrow> nat \<Rightarrow> ('m, 'a) window_state" where
  "window_state_new fo plan incarnation =
     \<lparr>ws_entries = [], ws_next_sequence = 0, ws_incarnation = incarnation, ws_accumulators = empty_accumulators fo plan\<rparr>"

abbreviation retained_rows :: "('m, 'a) window_state \<Rightarrow> window_row list" where
  "retained_rows s \<equiv> map we_row (ws_entries s)"

fun each_accumulator :: "(nat \<Rightarrow> 'b \<Rightarrow> 'b panics) \<Rightarrow> nat \<Rightarrow> 'b list \<Rightarrow> 'b list panics" where
  "each_accumulator f d [] = Some []"
| "each_accumulator f d (acc # accs) = do {
     acc' \<leftarrow> f d acc;
     accs' \<leftarrow> each_accumulator f (Suc d) accs;
     Some (acc' # accs')
   }"

fun push_admissions ::
  "nat \<Rightarrow> window_arguments list \<Rightarrow> 'm window_admission list \<Rightarrow> 'm window_entry list \<Rightarrow> nat \<Rightarrow> ('m window_entry list \<times> nat) panics" where
  "push_admissions batch arguments [] entries sequence = Some (entries, sequence)"
| "push_admissions batch arguments (a # run) entries sequence = do {
     let row = \<lparr>wr_sequence = sequence, wr_timestamp = wad_timestamp a, wr_batch = batch, wr_arguments = arguments, wr_row = wad_row a\<rparr>;
     sequence' \<leftarrow> checked_add u64_max sequence 1;
     push_admissions batch arguments run (entries @ [\<lparr>we_row = row, we_message = wad_message a\<rparr>]) sequence'
   }"

definition window_state_admit ::
  "'a float_ops \<Rightarrow> nat \<Rightarrow> (nat \<Rightarrow> window_arguments list) \<Rightarrow> nat \<Rightarrow> 'm window_admission list \<Rightarrow> ('m, 'a) window_state \<Rightarrow>
   ('m, 'a) window_state panics" where
  "window_state_admit fo width heap batch run s = do {
     let start = length (ws_entries s);
     (entries, sequence) \<leftarrow> push_admissions batch (heap batch) run (ws_entries s) (ws_next_sequence s);
     let s' = s\<lparr>ws_entries := entries, ws_next_sequence := sequence\<rparr>;
     if run = [] then Some s'
     else do {
       accs \<leftarrow> each_accumulator (\<lambda>d. accumulator_fold fo width d (retained_rows s') start (length entries)) 0 (ws_accumulators s');
       Some (s'\<lparr>ws_accumulators := accs\<rparr>)
     }
   }"

definition window_state_clear :: "'a float_ops \<Rightarrow> window_demand list \<Rightarrow> ('m, 'a) window_state \<Rightarrow> ('m, 'a) window_state" where
  "window_state_clear fo plan s = s\<lparr>ws_entries := [], ws_accumulators := empty_accumulators fo plan\<rparr>"

definition window_state_retract_oldest ::
  "'a float_ops \<Rightarrow> nat \<Rightarrow> nat \<Rightarrow> ('m, 'a) window_state \<Rightarrow> ('m window_entry list \<times> ('m, 'a) window_state) panics" where
  "window_state_retract_oldest fo width requested s = do {
     let count = min requested (length (ws_entries s));
     accs \<leftarrow> each_accumulator (\<lambda>d. accumulator_retract_oldest fo width d (retained_rows s) count) 0 (ws_accumulators s);
     Some (take count (ws_entries s), s\<lparr>ws_entries := drop count (ws_entries s), ws_accumulators := accs\<rparr>)
   }"

text \<open>\<open>checked_add_duration_to_timestamp\<close> (src/runtime/domain_clock.rs) saturates.\<close>

definition checked_add_duration_to_timestamp :: "timestamp \<Rightarrow> nanos \<Rightarrow> timestamp panics" where
  "checked_add_duration_to_timestamp base duration = do {
     sum \<leftarrow> ts_checked_add base duration;
     Some (case sum of Inr t \<Rightarrow> t | Inl _ \<Rightarrow> i64_max)
   }"

definition advance_window ::
  "'a float_ops \<Rightarrow> nat \<Rightarrow> nat option \<Rightarrow> nanos option \<Rightarrow> ('m, 'a) window_state \<Rightarrow>
   ('m window_entry list \<times> ('m, 'a) window_state) panics" where
  "advance_window fo width step_messages step_duration s = do {
     (stepped, s1) \<leftarrow> window_state_retract_oldest fo width (case step_messages of Some n \<Rightarrow> n | None \<Rightarrow> 0) s;
     case (step_duration, ws_entries s1) of
       (Some duration, first # _) \<Rightarrow> do {
         cutoff \<leftarrow> checked_add_duration_to_timestamp (wr_timestamp (we_row first)) duration;
         let by_duration = length (takeWhile (\<lambda>e. wr_timestamp (we_row e) < cutoff) (ws_entries s1));
         (aged, s2) \<leftarrow> window_state_retract_oldest fo width by_duration s1;
         Some (stepped @ aged, s2)
       }
     | _ \<Rightarrow> Some (stepped, s1)
   }"

definition timestamp_elapsed :: "timestamp \<Rightarrow> timestamp \<Rightarrow> nanos" where
  "timestamp_elapsed start end = nat (end - start)"

definition window_width_met :: "('m, 'a) window_state \<Rightarrow> nat option \<Rightarrow> nanos option \<Rightarrow> timestamp \<Rightarrow> bool" where
  "window_width_met s width_messages width_duration now =
     (case ws_entries s of
        [] \<Rightarrow> False
      | first # _ \<Rightarrow>
          (case width_messages of Some n \<Rightarrow> n \<le> length (ws_entries s) | None \<Rightarrow> False) \<or>
          (case width_duration of Some w \<Rightarrow> w \<le> timestamp_elapsed (wr_timestamp (we_row first)) now | None \<Rightarrow> False))"

fun admission_run_loop ::
  "nat option \<Rightarrow> nanos option \<Rightarrow> timestamp option \<Rightarrow> nat \<Rightarrow> nat \<Rightarrow> 'm window_admission list \<Rightarrow> nat panics" where
  "admission_run_loop width_messages width_duration window_start rows i [] = Some i"
| "admission_run_loop width_messages width_duration window_start rows i (a # pending) = do {
     let start = (case window_start of Some t \<Rightarrow> t | None \<Rightarrow> wad_timestamp a);
     rows' \<leftarrow> checked_add u64_max rows 1;
     if (case width_messages of Some n \<Rightarrow> n \<le> rows' | None \<Rightarrow> False) \<or>
        (case width_duration of Some w \<Rightarrow> w \<le> timestamp_elapsed start (wad_timestamp a) | None \<Rightarrow> False)
     then checked_add u64_max i 1
     else admission_run_loop width_messages width_duration (Some start) rows' (Suc i) pending
   }"

definition admission_run_len ::
  "('m, 'a) window_state \<Rightarrow> 'm window_admission list \<Rightarrow> nat option \<Rightarrow> nanos option \<Rightarrow> nat panics" where
  "admission_run_len s pending width_messages width_duration =
     admission_run_loop width_messages width_duration
       (case ws_entries s of [] \<Rightarrow> None | e # _ \<Rightarrow> Some (wr_timestamp (we_row e))) (length (ws_entries s)) 0 pending"

section \<open>Typed rows\<close>

text \<open>A column has the type its demand was compiled for, and a demand has a type its storage can read.\<close>

definition arguments_typed :: "window_demand \<Rightarrow> window_arguments \<Rightarrow> bool" where
  "arguments_typed demand args \<longleftrightarrow> value_type (ac_values (wa_first args)) = wd_first_type demand \<and>
     map_option (\<lambda>c. value_type (ac_values c)) (wa_second args) = wd_second_type demand"

definition demand_ok :: "window_demand \<Rightarrow> bool" where
  "demand_ok demand \<longleftrightarrow>
     (case wd_storage demand of
        Truth_storage \<Rightarrow> wd_first_type demand = Boolean
      | Sum_storage \<Rightarrow> numeric_type (wd_first_type demand)
      | Extremes_storage \<Rightarrow> wd_first_type demand \<noteq> Nested
      | Arg_extremes_storage \<Rightarrow> (case wd_second_type demand of None \<Rightarrow> False | Some ty \<Rightarrow> ty \<noteq> Nested)
      | _ \<Rightarrow> True)"

definition row_typed :: "window_demand list \<Rightarrow> window_row \<Rightarrow> bool" where
  "row_typed plan r \<longleftrightarrow> row_ok (length plan) r \<and> list_all2 arguments_typed plan (wr_arguments r)"

definition window_typed :: "window_demand list \<Rightarrow> window_row list \<Rightarrow> bool" where
  "window_typed plan rows \<longleftrightarrow> rows_ok (length plan) rows \<and> consecutive rows \<and> list_all (row_typed plan) rows"

fun extreme_order_of :: "storage_kind \<Rightarrow> extreme_order option" where
  "extreme_order_of Sequence_storage = Some Arrival"
| "extreme_order_of Extremes_storage = Some Value"
| "extreme_order_of Arg_extremes_storage = Some Key"
| "extreme_order_of _ = None"

definition key_type :: "window_demand \<Rightarrow> data_type" where
  "key_type demand = (if wd_storage demand = Arg_extremes_storage then the (wd_second_type demand) else wd_first_type demand)"

lemma boolean_values_type: "value_type vs = Boolean \<longleftrightarrow> boolean_values vs"
  by (cases vs) simp_all

lemma integer_values_type: "integer_sum_reads (value_type vs) \<longleftrightarrow> integer_values vs"
  by (cases vs) (simp_all add: integer_sum_reads_def)

lemma typed_readable:
  assumes typed: "list_all (row_typed plan) rows" and d: "d < length plan" and ok: "demand_ok (plan ! d)"
  shows "list_all (counter_readable (length plan) d) rows"
    and "wd_storage (plan ! d) = Truth_storage \<Longrightarrow> list_all (truth_readable (length plan) d) rows"
    and "wd_storage (plan ! d) = Sum_storage \<Longrightarrow> integer_sum_reads (wd_first_type (plan ! d)) \<Longrightarrow>
      list_all (integer_readable (length plan) d) rows"
    and "extreme_order_of (wd_storage (plan ! d)) = Some order \<Longrightarrow>
      list_all (extreme_readable order (key_type (plan ! d)) (length plan) d) rows"
proof -
  have row: "row_ok (length plan) r \<and> arguments_typed (plan ! d) (wr_arguments r ! d)" if "r \<in> set rows" for r
    using typed that d by (auto simp: list_all_iff row_typed_def dest: list_all2_nthD)
  show "list_all (counter_readable (length plan) d) rows"
    using row d by (simp add: list_all_iff counter_readable_def)
  show "wd_storage (plan ! d) = Truth_storage \<Longrightarrow> list_all (truth_readable (length plan) d) rows"
    using row d ok by (auto simp: list_all_iff truth_readable_def demand_ok_def arguments_typed_def first_column_def simp flip: boolean_values_type)
  show "wd_storage (plan ! d) = Sum_storage \<Longrightarrow> integer_sum_reads (wd_first_type (plan ! d)) \<Longrightarrow> list_all (integer_readable (length plan) d) rows"
    using row d by (auto simp: list_all_iff integer_readable_def arguments_typed_def first_column_def simp flip: integer_values_type)
  assume order: "extreme_order_of (wd_storage (plan ! d)) = Some order"
  have "key_readable order (key_type (plan ! d)) args" if "arguments_typed (plan ! d) args" for args
    using that order ok by (cases "wd_storage (plan ! d)") (auto simp: key_readable_def arguments_typed_def demand_ok_def key_type_def split: option.splits)
  then show "list_all (extreme_readable order (key_type (plan ! d)) (length plan) d) rows"
    using row d by (simp add: list_all_iff extreme_readable_def)
qed

section \<open>Accumulators hold exactly the retained rows\<close>

fun acc_serves :: "window_demand \<Rightarrow> 'a window_accumulator \<Rightarrow> bool" where
  "acc_serves demand (Counter c) = (wd_storage demand = Counter_storage)"
| "acc_serves demand (Truth_Counter c) = (wd_storage demand = Truth_storage)"
| "acc_serves demand (Integer_Sum t) = (wd_storage demand = Sum_storage \<and> integer_sum_reads (wd_first_type demand))"
| "acc_serves demand (Float_Sum t) = (wd_storage demand = Sum_storage \<and> \<not> integer_sum_reads (wd_first_type demand))"
| "acc_serves demand (Moments t) = (wd_storage demand = Moments_storage)"
| "acc_serves demand (Co_Moments t) = (wd_storage demand = Co_moments_storage)"
| "acc_serves demand (Extremes x) = (extreme_order_of (wd_storage demand) = Some (re_order x) \<and>
     (re_smallest x \<noteq> None \<longleftrightarrow> list_ex smallest_function (wd_functions demand)) \<and>
     (re_largest x \<noteq> None \<longleftrightarrow> list_ex largest_function (wd_functions demand)))"

fun acc_holds :: "'a float_ops \<Rightarrow> nat \<Rightarrow> window_row list \<Rightarrow> 'a window_accumulator \<Rightarrow> bool" where
  "acc_holds fo d rows (Counter c) = row_counts c rows"
| "acc_holds fo d rows (Truth_Counter c) = truth_counts d c rows"
| "acc_holds fo d rows (Integer_Sum t) = integer_counts d t rows"
| "acc_holds fo d rows (Float_Sum t) = stacks_cover (fo_sum fo) d rows t"
| "acc_holds fo d rows (Moments t) = stacks_cover (fo_moments fo) d rows t"
| "acc_holds fo d rows (Co_Moments t) = stacks_cover (fo_co_moments fo) d rows t"
| "acc_holds fo d rows (Extremes x) = extremes_hold d rows (length rows) (length rows) x"

lemma acc_new_ok: "acc_serves demand (accumulator_new fo demand) \<and> acc_holds fo d [] (accumulator_new fo demand)"
  by (cases "wd_storage demand")
    (simp_all add: accumulator_new_def row_counts_def truth_counts_def integer_counts_def present_total_def stacks_cover_new
      row_extremes_new_def extremes_hold_def candidates_hold_def queue_empty)

lemma fold_runs_wrap:
  assumes "\<And>s run. f (C s) run = map_option C (g s run)"
  shows "fold_runs f (C s) runs = map_option C (fold_runs g s runs)"
proof (induction runs arbitrary: s)
  case (Cons run runs)
  then show ?case by (cases "g s run") (simp_all add: assms)
qed simp

lemma fold_acc:
  "fold_runs (accumulator_fold_run fo w d rows) (Counter c) runs = map_option Counter (fold_runs (counter_admit_run d) c runs)"
  "fold_runs (accumulator_fold_run fo w d rows) (Truth_Counter b) runs = map_option Truth_Counter (fold_runs (truth_admit_run d) b runs)"
  "fold_runs (accumulator_fold_run fo w d rows) (Integer_Sum t) runs = map_option Integer_Sum (fold_runs (integer_admit_run w d) t runs)"
  "fold_runs (accumulator_fold_run fo w d rows) (Float_Sum u) runs = map_option Float_Sum (fold_runs (stacks_admit_run (fo_sum fo) d) u runs)"
  "fold_runs (accumulator_fold_run fo w d rows) (Moments m) runs = map_option Moments (fold_runs (stacks_admit_run (fo_moments fo) d) m runs)"
  "fold_runs (accumulator_fold_run fo w d rows) (Co_Moments e) runs = map_option Co_Moments (fold_runs (stacks_admit_run (fo_co_moments fo) d) e runs)"
  "fold_runs (accumulator_fold_run fo w d rows) (Extremes x) runs = map_option Extremes (fold_runs (row_extremes_admit d rows) x runs)"
  by (rule fold_runs_wrap, simp add: accumulator_fold_run_def)+

lemma acc_fold_ok:
  assumes typed: "window_typed plan rows" and d: "d < length plan" and ok: "demand_ok (plan ! d)"
    and serves: "acc_serves (plan ! d) acc" and start: "start \<le> length rows" and holds: "acc_holds fo d (take start rows) acc"
  shows "\<exists>acc'. accumulator_fold fo (Suc w) d rows start (length rows) acc = Some acc' \<and>
    acc_serves (plan ! d) acc' \<and> acc_holds fo d rows acc'"
proof -
  have rows: "rows_ok (length plan) rows" "list_all (row_typed plan) rows" "consecutive rows"
    using typed by (simp_all add: window_typed_def)
  note read = typed_readable [OF rows(2) d ok]
  show ?thesis
  proof (cases acc)
    case (Counter c)
    then show ?thesis using counter.admit_newest [OF rows(1) read(1) start, of c] holds serves by (auto simp: accumulator_fold_def fold_acc)
  next
    case (Truth_Counter c)
    then show ?thesis using truth.admit_newest [OF rows(1) read(2) start, of c] holds serves by (auto simp: accumulator_fold_def fold_acc)
  next
    case (Integer_Sum t)
    then show ?thesis using integers.admit_newest [OF rows(1) read(3) start, of t w] holds serves by (auto simp: accumulator_fold_def fold_acc)
  next
    case (Float_Sum t)
    then show ?thesis using stacks.admit_newest [OF rows(1) read(1) start, of "fo_sum fo" t] holds serves by (auto simp: accumulator_fold_def fold_acc)
  next
    case (Moments t)
    then show ?thesis using stacks.admit_newest [OF rows(1) read(1) start, of "fo_moments fo" t] holds serves by (auto simp: accumulator_fold_def fold_acc)
  next
    case (Co_Moments t)
    then show ?thesis using stacks.admit_newest [OF rows(1) read(1) start, of "fo_co_moments fo" t] holds serves by (auto simp: accumulator_fold_def fold_acc)
  next
    case (Extremes x)
    have order: "extreme_order_of (wd_storage (plan ! d)) = Some (re_order x)" using serves Extremes by simp
    have reads: "window_reads (re_order x) (key_type (plan ! d)) (length plan) d rows"
      using rows read(4) [OF order] by (simp add: window_reads_def)
    obtain runs where runs: "retained_runs rows start (length rows) = Some runs"
      "concat (map run_positions runs) = [start..<length rows]" "list_all (placed rows) runs"
      using retained_runs_ok [OF rows(1) order_refl start] by blast
    have "extremes_hold d (take start rows @ drop start rows) start start x"
      using extremes_append [of d "take start rows" x "drop start rows"] holds Extremes start by simp
    then have "extremes_hold d rows start start x" by simp
    from extremes_admit_runs [OF reads runs(3,2) start refl this]
    obtain x' where "fold_runs (row_extremes_admit d rows) x runs = Some x'" "same_demand x x'" "extremes_hold d rows (length rows) (length rows) x'"
      by blast
    then show ?thesis using runs(1) Extremes serves by (auto simp: accumulator_fold_def fold_acc same_demand_def)
  qed
qed

lemma acc_retract_ok:
  assumes typed: "window_typed plan rows" and d: "d < length plan" and ok: "demand_ok (plan ! d)"
    and serves: "acc_serves (plan ! d) acc" and n: "n \<le> length rows" and holds: "acc_holds fo d rows acc"
  shows "\<exists>acc'. accumulator_retract_oldest fo (Suc w) d rows n acc = Some acc' \<and>
    acc_serves (plan ! d) acc' \<and> acc_holds fo d (drop n rows) acc'"
proof -
  have rows: "rows_ok (length plan) rows" "list_all (row_typed plan) rows" "consecutive rows"
    using typed by (simp_all add: window_typed_def)
  note read = typed_readable [OF rows(2) d ok]
  note stacks = stacks_cover_retract [OF _ rows(1) d n]
  show ?thesis
  proof (cases acc)
    case (Counter c)
    then show ?thesis using holds serves n
      by (simp add: accumulator_retract_oldest_def row_counter_retract_def row_counts_def checked_sub_def)
  next
    case (Truth_Counter c)
    then show ?thesis using truth.retract_oldest [OF rows(1) read(2) n, of c] holds serves by (auto simp: accumulator_retract_oldest_def)
  next
    case (Integer_Sum t)
    then show ?thesis using integers.retract_oldest [OF rows(1) read(3) n, of t w] holds serves by (auto simp: accumulator_retract_oldest_def)
  next
    case (Float_Sum t)
    then show ?thesis using stacks [of "fo_sum fo" t] holds serves by (auto simp: accumulator_retract_oldest_def)
  next
    case (Moments t)
    then show ?thesis using stacks [of "fo_moments fo" t] holds serves by (auto simp: accumulator_retract_oldest_def)
  next
    case (Co_Moments t)
    then show ?thesis using stacks [of "fo_co_moments fo" t] holds serves by (auto simp: accumulator_retract_oldest_def)
  next
    case (Extremes x)
    then obtain x' where "row_extremes_retract_oldest rows n x = Some x'" "same_demand x x'"
      "extremes_hold d (drop n rows) (length rows - n) (length rows - n) x'"
      using extremes_retract_ok [OF rows(3) n, of d x] holds by auto
    then show ?thesis using Extremes serves by (auto simp: accumulator_retract_oldest_def same_demand_def)
  qed
qed

text \<open>An accumulator rebuilt from the retained rows holds what the published one held.\<close>

lemma acc_restore_ok:
  assumes "window_typed plan rows" and "d < length plan" and "demand_ok (plan ! d)"
  shows "\<exists>acc'. accumulator_restore fo (Suc w) (plan ! d) d rows (accumulator_to_snapshot acc) = Some (Inr acc') \<and>
    acc_serves (plan ! d) acc' \<and> acc_holds fo d rows acc'"
  using acc_fold_ok [OF assms, of "accumulator_new fo (plan ! d)" 0 fo w] acc_new_ok [of "plan ! d" fo d]
  by (auto simp: accumulator_restore_def accumulator_to_snapshot_def)

section \<open>The window keeps its accumulators exact\<close>

definition acc_ok :: "'a float_ops \<Rightarrow> window_demand list \<Rightarrow> window_row list \<Rightarrow> nat \<Rightarrow> 'a window_accumulator \<Rightarrow> bool" where
  "acc_ok fo plan rows d acc \<longleftrightarrow> acc_serves (plan ! d) acc \<and> acc_holds fo d rows acc"

definition state_ok :: "'a float_ops \<Rightarrow> (nat \<Rightarrow> window_arguments list) \<Rightarrow> window_demand list \<Rightarrow> ('m, 'a) window_state \<Rightarrow> bool" where
  "state_ok fo heap plan s \<longleftrightarrow>
     window_typed plan (retained_rows s) \<and>
     (\<forall>r \<in> set (retained_rows s). wr_arguments r = heap (wr_batch r) \<and> valid_timestamp (wr_timestamp r)) \<and>
     (\<forall>i < length (ws_entries s). wr_sequence (retained_rows s ! i) + (length (ws_entries s) - i) = ws_next_sequence s) \<and>
     length (ws_accumulators s) = length plan \<and>
     (\<forall>d < length plan. acc_ok fo plan (retained_rows s) d (ws_accumulators s ! d))"

lemma each_accumulator_ok:
  assumes "\<And>i. i < length accs \<Longrightarrow> \<exists>acc'. f (d + i) (accs ! i) = Some acc' \<and> Q (d + i) acc'"
  shows "\<exists>accs'. each_accumulator f d accs = Some accs' \<and> length accs' = length accs \<and> (\<forall>i < length accs. Q (d + i) (accs' ! i))"
  using assms
proof (induction accs arbitrary: d)
  case (Cons acc accs)
  obtain acc' where acc: "f d acc = Some acc'" "Q d acc'" using Cons.prems [of 0] by auto
  have "\<exists>acc'. f (Suc d + i) (accs ! i) = Some acc' \<and> Q (Suc d + i) acc'" if "i < length accs" for i
    using Cons.prems [of "Suc i"] that by simp
  from Cons.IH [OF this] obtain accs' where accs: "each_accumulator f (Suc d) accs = Some accs'" "length accs' = length accs"
    "\<forall>i < length accs. Q (Suc d + i) (accs' ! i)"
    by blast
  have "\<forall>i < length (acc # accs). Q (d + i) ((acc' # accs') ! i)"
    using acc(2) accs(3) by (auto simp: less_Suc_eq_0_disj)
  then show ?case using acc(1) accs(1,2) by simp
qed simp

lemma window_typed_drop:
  assumes "window_typed plan rows"
  shows "window_typed plan (drop n rows)"
proof -
  have "consecutive (drop n rows)"
  proof (cases "n < length rows")
    case True
    have seq: "wr_sequence (rows ! i) = wr_sequence (rows ! 0) + i" if "i < length rows" for i
      using assms that unfolding window_typed_def consecutive_def by blast
    show ?thesis unfolding consecutive_def
    proof (intro allI impI)
      fix i assume i: "i < length (drop n rows)"
      then have "wr_sequence (rows ! (n + i)) = wr_sequence (rows ! n) + i" using seq [of n] seq [of "n + i"] True by simp
      then show "wr_sequence (drop n rows ! i) = wr_sequence (drop n rows ! 0) + i" using True i by simp
    qed
  qed (simp add: consecutive_def)
  moreover have "rows_ok (length plan) (drop n rows)"
  proof -
    have ok: "rows_ok (length plan) rows" using assms by (simp add: window_typed_def)
    then have "length rows < 2 ^ 63" unfolding rows_ok_def by (rule conjunct1)
    then have "length (drop n rows) < 2 ^ 63" by (rule le_less_trans [rotated]) simp
    then show ?thesis using ok set_drop_subset [of n rows] unfolding rows_ok_def by blast
  qed
  moreover have "list_all (row_typed plan) (drop n rows)"
    using assms by (auto simp: window_typed_def list_all_iff dest: in_set_dropD)
  ultimately show ?thesis by (simp add: window_typed_def)
qed

lemma state_retract_ok:
  assumes ok: "state_ok fo heap plan s" and plan: "list_all demand_ok plan"
  shows "\<exists>s'. window_state_retract_oldest fo (Suc w) n s = Some (take n (ws_entries s), s') \<and> state_ok fo heap plan s' \<and>
    ws_entries s' = drop n (ws_entries s) \<and> ws_next_sequence s' = ws_next_sequence s"
proof -
  let ?rows = "retained_rows s" and ?n = "min n (length (ws_entries s))"
  have typed: "window_typed plan ?rows" and len: "length (ws_accumulators s) = length plan"
    and accs: "\<forall>d < length plan. acc_ok fo plan ?rows d (ws_accumulators s ! d)"
    using ok by (simp_all add: state_ok_def)
  have "\<exists>acc'. accumulator_retract_oldest fo (Suc w) d ?rows ?n acc = Some acc' \<and> acc_ok fo plan (drop ?n ?rows) d acc'"
    if "d < length plan" "acc_ok fo plan ?rows d acc" for d acc
    using acc_retract_ok [OF typed that(1), of acc ?n fo w] that plan by (simp add: acc_ok_def list_all_length)
  then obtain accs' where accs': "each_accumulator (\<lambda>d. accumulator_retract_oldest fo (Suc w) d ?rows ?n) 0 (ws_accumulators s) = Some accs'"
    "length accs' = length plan" "\<forall>d < length plan. acc_ok fo plan (drop ?n ?rows) d (accs' ! d)"
    using each_accumulator_ok [of "ws_accumulators s" "\<lambda>d. accumulator_retract_oldest fo (Suc w) d ?rows ?n" 0 "acc_ok fo plan (drop ?n ?rows)"]
      accs len by auto
  have take: "take ?n (ws_entries s) = take n (ws_entries s)" "drop ?n (ws_entries s) = drop n (ws_entries s)"
    by (simp_all add: min_def)
  have "window_typed plan (drop n ?rows)" by (rule window_typed_drop [OF typed])
  then have "state_ok fo heap plan (s\<lparr>ws_entries := drop n (ws_entries s), ws_accumulators := accs'\<rparr>)"
    using ok accs'(2,3) take(2) by (auto simp: state_ok_def drop_map dest!: in_set_dropD)
  then show ?thesis using accs'(1) take by (simp add: window_state_retract_oldest_def Let_def)
qed

fun admitted_entries :: "nat \<Rightarrow> window_arguments list \<Rightarrow> 'm window_admission list \<Rightarrow> nat \<Rightarrow> 'm window_entry list" where
  "admitted_entries batch arguments [] sequence = []"
| "admitted_entries batch arguments (a # run) sequence =
     \<lparr>we_row = \<lparr>wr_sequence = sequence, wr_timestamp = wad_timestamp a, wr_batch = batch, wr_arguments = arguments, wr_row = wad_row a\<rparr>,
      we_message = wad_message a\<rparr> # admitted_entries batch arguments run (Suc sequence)"

lemma push_admissions_ok:
  "sequence + length run \<le> u64_max \<Longrightarrow>
   push_admissions batch arguments run entries sequence = Some (entries @ admitted_entries batch arguments run sequence, sequence + length run)"
  by (induction run arbitrary: entries sequence) (simp_all add: checked_add_def Let_def)

lemma admitted_entries_length [simp]: "length (admitted_entries batch arguments run sequence) = length run"
  by (induction run arbitrary: sequence) simp_all

lemma admitted_entries_messages [simp]: "map we_message (admitted_entries batch arguments run sequence) = map wad_message run"
  by (induction run arbitrary: sequence) simp_all

lemma admitted_entries_nth:
  "i < length run \<Longrightarrow> we_row (admitted_entries batch arguments run sequence ! i) =
    \<lparr>wr_sequence = sequence + i, wr_timestamp = wad_timestamp (run ! i), wr_batch = batch, wr_arguments = arguments, wr_row = wad_row (run ! i)\<rparr>"
  by (induction run arbitrary: sequence i) (auto simp: less_Suc_eq_0_disj)

text \<open>What the caller of \<open>admit\<close> provides: evaluated columns of the plan's types, and rows within them.\<close>

definition run_admissible :: "(nat \<Rightarrow> window_arguments list) \<Rightarrow> window_demand list \<Rightarrow> nat \<Rightarrow> 'm window_admission list \<Rightarrow> bool" where
  "run_admissible heap plan batch run \<longleftrightarrow> list_all2 arguments_typed plan (heap batch) \<and>
     list_all (\<lambda>a. wad_row a < u64_max \<and> valid_timestamp (wad_timestamp a) \<and>
       list_all (\<lambda>args. arguments_ok args (wad_row a)) (heap batch)) run"

lemma numbered_consecutive:
  assumes "\<forall>i < length rows. wr_sequence (rows ! i) + (length rows - i) = m"
  shows "consecutive rows"
  unfolding consecutive_def
proof (intro allI impI)
  fix i assume i: "i < length rows"
  then have "0 < length rows" by (rule le_less_trans [OF le0])
  with i have "wr_sequence (rows ! i) + (length rows - i) = m" "wr_sequence (rows ! 0) + (length rows - 0) = m"
    using assms by blast+
  then show "wr_sequence (rows ! i) = wr_sequence (rows ! 0) + i" using i by arith
qed

lemma admitted_row:
  assumes "run_admissible heap plan batch run" and "r \<in> set (map we_row (admitted_entries batch (heap batch) run sequence))"
  shows "row_typed plan r \<and> wr_arguments r = heap (wr_batch r) \<and> valid_timestamp (wr_timestamp r)"
proof -
  obtain i where i: "i < length run" "r = we_row (admitted_entries batch (heap batch) run sequence ! i)"
    using assms(2) by (auto simp: in_set_conv_nth)
  have "length (heap batch) = length plan" using assms(1) by (auto simp: run_admissible_def dest: list_all2_lengthD)
  moreover have "wad_row (run ! i) < u64_max" "valid_timestamp (wad_timestamp (run ! i))" "list_all (\<lambda>args. arguments_ok args (wad_row (run ! i))) (heap batch)"
    using assms(1) i(1) by (simp_all add: run_admissible_def list_all_length)
  ultimately show ?thesis
    using assms(1) i admitted_entries_nth [OF i(1)] by (simp add: row_typed_def row_ok_def run_admissible_def list_all_iff)
qed

lemma window_typed_admitted:
  assumes ok: "state_ok fo heap plan s" and run: "run_admissible heap plan batch run"
    and len: "length (ws_entries s) + length run < 2 ^ 63"
    and entries: "entries = ws_entries s @ admitted_entries batch (heap batch) run (ws_next_sequence s)"
  shows "window_typed plan (map we_row entries)"
    and "\<forall>r \<in> set (map we_row entries). wr_arguments r = heap (wr_batch r) \<and> valid_timestamp (wr_timestamp r)"
    and "\<forall>i < length entries. wr_sequence (map we_row entries ! i) + (length entries - i) = ws_next_sequence s + length run"
proof -
  have old: "window_typed plan (retained_rows s)" "\<forall>r \<in> set (retained_rows s). wr_arguments r = heap (wr_batch r) \<and> valid_timestamp (wr_timestamp r)"
    "\<forall>i < length (ws_entries s). wr_sequence (retained_rows s ! i) + (length (ws_entries s) - i) = ws_next_sequence s"
    using ok by (simp_all add: state_ok_def)
  show heap: "\<forall>r \<in> set (map we_row entries). wr_arguments r = heap (wr_batch r) \<and> valid_timestamp (wr_timestamp r)"
  proof
    fix r assume "r \<in> set (map we_row entries)"
    then have "r \<in> set (retained_rows s) \<or> r \<in> set (map we_row (admitted_entries batch (heap batch) run (ws_next_sequence s)))"
      unfolding entries map_append set_append by blast
    then show "wr_arguments r = heap (wr_batch r) \<and> valid_timestamp (wr_timestamp r)" using old(2) admitted_row [OF run] by blast
  qed
  show seq: "\<forall>i < length entries. wr_sequence (map we_row entries ! i) + (length entries - i) = ws_next_sequence s + length run"
  proof (intro allI impI)
    fix i assume i: "i < length entries"
    show "wr_sequence (map we_row entries ! i) + (length entries - i) = ws_next_sequence s + length run"
    proof (cases "i < length (ws_entries s)")
      case True
      then show ?thesis using old(3) [rule_format, of i] by (simp add: entries nth_append)
    next
      case False
      then show ?thesis using i admitted_entries_nth [of "i - length (ws_entries s)" run batch "heap batch" "ws_next_sequence s"]
        by (simp add: entries nth_append)
    qed
  qed
  have "list_all (row_typed plan) (map we_row (admitted_entries batch (heap batch) run (ws_next_sequence s)))"
    unfolding list_all_iff using admitted_row [OF run] by blast
  moreover have "list_all (row_typed plan) (retained_rows s)" using old(1) unfolding window_typed_def by blast
  ultimately have typed: "list_all (row_typed plan) (map we_row entries)" by (simp add: entries)
  have "length (map we_row entries) < 2 ^ 63" using len by (simp add: entries)
  moreover have "\<forall>r \<in> set (map we_row entries). row_ok (length plan) r" using typed by (simp add: list_all_iff row_typed_def)
  moreover have "wr_arguments r = wr_arguments r'" if "r \<in> set (map we_row entries)" "r' \<in> set (map we_row entries)" "wr_batch r = wr_batch r'" for r r'
  proof -
    have "wr_arguments r = heap (wr_batch r)" "wr_arguments r' = heap (wr_batch r')" using heap that(1,2) by blast+
    then show ?thesis using that(3) by (simp only:)
  qed
  ultimately have "rows_ok (length plan) (map we_row entries)" unfolding rows_ok_def by blast
  moreover have "consecutive (map we_row entries)" by (rule numbered_consecutive) (use seq in \<open>simp only: length_map\<close>)
  ultimately show "window_typed plan (map we_row entries)" using typed by (simp add: window_typed_def)
qed

lemma state_admit_ok:
  assumes ok: "state_ok fo heap plan s" and plan: "list_all demand_ok plan" and run: "run_admissible heap plan batch run"
    and len: "length (ws_entries s) + length run < 2 ^ 63" and seq: "ws_next_sequence s + length run \<le> u64_max"
  shows "\<exists>s'. window_state_admit fo (Suc w) heap batch run s = Some s' \<and> state_ok fo heap plan s' \<and>
    ws_entries s' = ws_entries s @ admitted_entries batch (heap batch) run (ws_next_sequence s) \<and>
    ws_next_sequence s' = ws_next_sequence s + length run"
proof (cases "run = []")
  case True
  then show ?thesis using ok by (simp add: window_state_admit_def)
next
  case False
  define entries where "entries = ws_entries s @ admitted_entries batch (heap batch) run (ws_next_sequence s)"
  note new = window_typed_admitted [OF ok run len entries_def]
  have old: "length (ws_accumulators s) = length plan" "\<forall>d < length plan. acc_ok fo plan (retained_rows s) d (ws_accumulators s ! d)"
    using ok by (simp_all add: state_ok_def)
  have start: "length (ws_entries s) \<le> length (map we_row entries)" "take (length (ws_entries s)) (map we_row entries) = retained_rows s"
    by (simp_all add: entries_def)
  have "\<exists>acc'. accumulator_fold fo (Suc w) d (map we_row entries) (length (ws_entries s)) (length entries) acc = Some acc' \<and>
      acc_ok fo plan (map we_row entries) d acc'" if "d < length plan" "acc_ok fo plan (retained_rows s) d acc" for d acc
    using acc_fold_ok [OF new(1) that(1) _ _ start(1), of acc fo w] that(2) plan that(1) start(2) by (simp add: acc_ok_def list_all_length)
  then obtain accs' where accs': "each_accumulator (\<lambda>d. accumulator_fold fo (Suc w) d (map we_row entries) (length (ws_entries s)) (length entries)) 0
      (ws_accumulators s) = Some accs'" "length accs' = length plan" "\<forall>d < length plan. acc_ok fo plan (map we_row entries) d (accs' ! d)"
    using each_accumulator_ok [of "ws_accumulators s"
        "\<lambda>d. accumulator_fold fo (Suc w) d (map we_row entries) (length (ws_entries s)) (length entries)" 0 "acc_ok fo plan (map we_row entries)"] old
    by auto
  have "state_ok fo heap plan (s\<lparr>ws_entries := entries, ws_next_sequence := ws_next_sequence s + length run, ws_accumulators := accs'\<rparr>)"
    using new accs' by (simp add: state_ok_def)
  then show ?thesis
    using False accs'(1) push_admissions_ok [OF seq, of batch "heap batch" "ws_entries s"]
    by (simp add: window_state_admit_def Let_def entries_def)
qed

lemma add_duration_ok: "valid_timestamp t \<Longrightarrow> \<exists>c. checked_add_duration_to_timestamp t duration = Some c"
  by (auto simp: checked_add_duration_to_timestamp_def ts_checked_add_ok)

lemma state_advance_ok:
  assumes ok: "state_ok fo heap plan s" and plan: "list_all demand_ok plan"
  shows "\<exists>stepped s'. advance_window fo (Suc w) step_messages step_duration s = Some (stepped, s') \<and> state_ok fo heap plan s' \<and>
    stepped @ ws_entries s' = ws_entries s \<and> ws_next_sequence s' = ws_next_sequence s"
proof -
  define n where "n = (case step_messages of Some n \<Rightarrow> n | None \<Rightarrow> 0)"
  obtain s1 where s1: "window_state_retract_oldest fo (Suc w) n s = Some (take n (ws_entries s), s1)" "state_ok fo heap plan s1"
    "ws_entries s1 = drop n (ws_entries s)" "ws_next_sequence s1 = ws_next_sequence s"
    using state_retract_ok [OF assms] by blast
  have by_messages: ?thesis if "advance_window fo (Suc w) step_messages step_duration s = Some (take n (ws_entries s), s1)"
    using that s1 by simp
  show ?thesis
  proof (cases step_duration)
    case None
    then show ?thesis using by_messages s1(1) by (simp add: advance_window_def n_def)
  next
    case (Some duration)
    show ?thesis
    proof (cases "ws_entries s1")
      case Nil
      then show ?thesis using by_messages s1(1) Some by (simp add: advance_window_def n_def)
    next
      case (Cons first rest)
      have "valid_timestamp (wr_timestamp (we_row first))" using s1(2) Cons by (simp add: state_ok_def)
      then obtain cutoff where cutoff: "checked_add_duration_to_timestamp (wr_timestamp (we_row first)) duration = Some cutoff"
        using add_duration_ok by blast
      define k where "k = length (takeWhile (\<lambda>e. wr_timestamp (we_row e) < cutoff) (ws_entries s1))"
      obtain s2 where s2: "window_state_retract_oldest fo (Suc w) k s1 = Some (take k (ws_entries s1), s2)" "state_ok fo heap plan s2"
        "ws_entries s2 = drop k (ws_entries s1)" "ws_next_sequence s2 = ws_next_sequence s1"
        using state_retract_ok [OF s1(2) plan] by blast
      have "advance_window fo (Suc w) step_messages step_duration s = Some (take n (ws_entries s) @ take k (ws_entries s1), s2)"
        using Some Cons cutoff s1(1) s2(1) by (simp add: advance_window_def n_def k_def Let_def)
      moreover have "(take n (ws_entries s) @ take k (ws_entries s1)) @ ws_entries s2 = ws_entries s"
        unfolding s2(3) s1(3) by (simp only: append_assoc append_take_drop_id)
      moreover have "ws_next_sequence s2 = ws_next_sequence s" using s2(4) s1(4) by simp
      ultimately show ?thesis using s2(2) by blast
    qed
  qed
qed

lemma state_new_ok: "state_ok fo heap plan (window_state_new fo plan incarnation)"
  by (simp add: state_ok_def window_state_new_def window_typed_def rows_ok_def consecutive_def empty_accumulators_def acc_ok_def acc_new_ok)

lemma state_clear_ok: "state_ok fo heap plan (window_state_clear fo plan s)"
  by (simp add: state_ok_def window_state_clear_def window_typed_def rows_ok_def consecutive_def empty_accumulators_def acc_ok_def acc_new_ok)

section \<open>How many rows fill a window\<close>

text \<open>Whether the window meets its width once the first \<open>k\<close> pending rows are admitted.\<close>

definition fills :: "nat option \<Rightarrow> nanos option \<Rightarrow> timestamp option \<Rightarrow> nat \<Rightarrow> 'm window_admission list \<Rightarrow> nat \<Rightarrow> bool" where
  "fills width_messages width_duration window_start rows pending k \<longleftrightarrow>
     (case width_messages of Some n \<Rightarrow> n \<le> rows + k | None \<Rightarrow> False) \<or>
     (case width_duration of
        Some w \<Rightarrow> w \<le> timestamp_elapsed (case window_start of Some t \<Rightarrow> t | None \<Rightarrow> wad_timestamp (hd pending)) (wad_timestamp (pending ! (k - 1)))
      | None \<Rightarrow> False)"

lemma admission_run_loop_ok:
  assumes "rows + length pending < 2 ^ 63" and "i + length pending < 2 ^ 63"
  shows "\<exists>k \<le> length pending. admission_run_loop wm wd start rows i pending = Some (i + k) \<and>
    (\<forall>j. 0 < j \<and> j < k \<longrightarrow> \<not> fills wm wd start rows pending j) \<and>
    (k < length pending \<longrightarrow> 0 < k \<and> fills wm wd start rows pending k)"
  using assms
proof (induction pending arbitrary: start rows i)
  case (Cons a pending)
  let ?start = "case start of Some t \<Rightarrow> t | None \<Rightarrow> wad_timestamp a"
  have bounds: "Suc rows \<le> u64_max" "Suc i \<le> u64_max" "Suc rows + length pending < 2 ^ 63" "Suc i + length pending < 2 ^ 63"
    using Cons.prems by (simp_all add: u64_max_def)
  have first: "fills wm wd start rows (a # pending) 1 \<longleftrightarrow>
      (case wm of Some n \<Rightarrow> n \<le> Suc rows | None \<Rightarrow> False) \<or>
      (case wd of Some w \<Rightarrow> w \<le> timestamp_elapsed ?start (wad_timestamp a) | None \<Rightarrow> False)"
    by (simp add: fills_def split: option.split)
  have step: "admission_run_loop wm wd start rows i (a # pending) =
      (if fills wm wd start rows (a # pending) 1 then Some (Suc i) else admission_run_loop wm wd (Some ?start) (Suc rows) (Suc i) pending)"
    using bounds(1,2) unfolding first by (simp add: checked_add_def Let_def)
  show ?case
  proof (cases "fills wm wd start rows (a # pending) 1")
    case True
    then show ?thesis unfolding step by (intro exI [of _ 1]) simp
  next
    case False
    have later: "fills wm wd (Some ?start) (Suc rows) pending k = fills wm wd start rows (a # pending) (Suc k)" if "0 < k" for k
      using that by (simp add: fills_def nth_Cons' split: option.split)
    obtain k where k: "k \<le> length pending" "admission_run_loop wm wd (Some ?start) (Suc rows) (Suc i) pending = Some (Suc i + k)"
      "\<forall>j. 0 < j \<and> j < k \<longrightarrow> \<not> fills wm wd (Some ?start) (Suc rows) pending j"
      "k < length pending \<longrightarrow> 0 < k \<and> fills wm wd (Some ?start) (Suc rows) pending k"
      using Cons.IH [OF bounds(3,4), of "Some ?start"] by blast
    have "\<not> fills wm wd start rows (a # pending) j" if "0 < j" "j < Suc k" for j
      using that False k(3) later [of "j - 1"] by (cases "j = 1") auto
    moreover have "k < length pending \<longrightarrow> fills wm wd start rows (a # pending) (Suc k)" using k(4) later [of k] by blast
    ultimately show ?thesis using k(1,2) False unfolding step by (intro exI [of _ "Suc k"]) simp
  qed
qed simp

section \<open>Histories of a window\<close>

datatype 'm window_event =
  Admit_Rows nat "'m window_admission list"
| Step "nat option" "nanos option"
| Reset

datatype 'm fate = Acknowledged (fate_message: 'm) | Discarded (fate_message: 'm)

fun window_step ::
  "'a float_ops \<Rightarrow> nat \<Rightarrow> (nat \<Rightarrow> window_arguments list) \<Rightarrow> window_demand list \<Rightarrow> 'm window_event \<Rightarrow> ('m, 'a) window_state \<Rightarrow>
   ('m fate list \<times> ('m, 'a) window_state) panics" where
  "window_step fo width heap plan (Admit_Rows batch run) s = do {
     s' \<leftarrow> window_state_admit fo width heap batch run s;
     Some ([], s')
   }"
| "window_step fo width heap plan (Step step_messages step_duration) s = do {
     (stepped, s') \<leftarrow> advance_window fo width step_messages step_duration s;
     Some (map (\<lambda>e. Acknowledged (we_message e)) stepped, s')
   }"
| "window_step fo width heap plan Reset s =
     Some (map (\<lambda>e. Discarded (we_message e)) (ws_entries s), window_state_clear fo plan s)"

fun window_history ::
  "'a float_ops \<Rightarrow> nat \<Rightarrow> (nat \<Rightarrow> window_arguments list) \<Rightarrow> window_demand list \<Rightarrow> 'm window_event list \<Rightarrow> ('m, 'a) window_state \<Rightarrow>
   ('m fate list \<times> ('m, 'a) window_state) panics" where
  "window_history fo width heap plan [] s = Some ([], s)"
| "window_history fo width heap plan (event # events) s = do {
     (now, s1) \<leftarrow> window_step fo width heap plan event s;
     (later, s2) \<leftarrow> window_history fo width heap plan events s1;
     Some (now @ later, s2)
   }"

fun event_admissions :: "'m window_event \<Rightarrow> 'm window_admission list" where
  "event_admissions (Admit_Rows batch run) = run"
| "event_admissions _ = []"

fun event_ok :: "(nat \<Rightarrow> window_arguments list) \<Rightarrow> window_demand list \<Rightarrow> 'm window_event \<Rightarrow> bool" where
  "event_ok heap plan (Admit_Rows batch run) = run_admissible heap plan batch run"
| "event_ok heap plan _ = True"

definition admissions :: "'m window_event list \<Rightarrow> 'm window_admission list" where
  "admissions events = concat (map event_admissions events)"

lemma window_step_ok:
  assumes ok: "state_ok fo heap plan s" and plan: "list_all demand_ok plan" and event: "event_ok heap plan event"
    and fits: "ws_next_sequence s + length (event_admissions event) < 2 ^ 63" "length (ws_entries s) \<le> ws_next_sequence s"
  shows "\<exists>log s'. window_step fo (Suc w) heap plan event s = Some (log, s') \<and> state_ok fo heap plan s' \<and>
    map fate_message log @ map we_message (ws_entries s') = map we_message (ws_entries s) @ map wad_message (event_admissions event) \<and>
    ws_next_sequence s' = ws_next_sequence s + length (event_admissions event) \<and> length (ws_entries s') \<le> ws_next_sequence s'"
proof (cases event)
  case (Admit_Rows batch run)
  have "length (ws_entries s) + length run < 2 ^ 63" by (rule le_less_trans [OF _ fits(1)]) (use Admit_Rows fits(2) in simp)
  moreover have "ws_next_sequence s + length run \<le> u64_max" using fits(1) Admit_Rows by (simp add: u64_max_def)
  moreover have "run_admissible heap plan batch run" using event Admit_Rows by simp
  ultimately obtain s' where "window_state_admit fo (Suc w) heap batch run s = Some s'" "state_ok fo heap plan s'"
    "ws_entries s' = ws_entries s @ admitted_entries batch (heap batch) run (ws_next_sequence s)"
    "ws_next_sequence s' = ws_next_sequence s + length run"
    using state_admit_ok [OF ok plan] by blast
  then show ?thesis using Admit_Rows fits(2) by simp
next
  case (Step step_messages step_duration)
  obtain stepped s' where s': "advance_window fo (Suc w) step_messages step_duration s = Some (stepped, s')" "state_ok fo heap plan s'"
    "stepped @ ws_entries s' = ws_entries s" "ws_next_sequence s' = ws_next_sequence s"
    using state_advance_ok [OF ok plan] by blast
  have "length (ws_entries s') \<le> length (ws_entries s)" using s'(3) by (metis length_append le_add2)
  moreover have "map we_message stepped @ map we_message (ws_entries s') = map we_message (ws_entries s)"
    using s'(3) by (metis map_append)
  ultimately show ?thesis using Step s'(1,2,4) fits(2) by (simp add: o_def)
next
  case Reset
  then show ?thesis using fits(2) state_clear_ok [of fo heap plan s] by (simp add: o_def) (simp add: window_state_clear_def)
qed

lemma window_history_ok:
  assumes plan: "list_all demand_ok plan"
  shows "state_ok fo heap plan s \<Longrightarrow> list_all (event_ok heap plan) events \<Longrightarrow> length (ws_entries s) \<le> ws_next_sequence s \<Longrightarrow>
    ws_next_sequence s + length (admissions events) < 2 ^ 63 \<Longrightarrow>
    \<exists>log s'. window_history fo (Suc w) heap plan events s = Some (log, s') \<and> state_ok fo heap plan s' \<and>
      map fate_message log @ map we_message (ws_entries s') = map we_message (ws_entries s) @ map wad_message (admissions events)"
proof (induction events arbitrary: s)
  case Nil
  then show ?case by (simp add: admissions_def)
next
  case (Cons event events)
  have len: "length (admissions (event # events)) = length (event_admissions event) + length (admissions events)" by (simp add: admissions_def)
  have events: "event_ok heap plan event" "list_all (event_ok heap plan) events" using Cons.prems(2) by simp_all
  have fits: "ws_next_sequence s + length (event_admissions event) < 2 ^ 63"
    by (rule le_less_trans [OF _ Cons.prems(4)]) (simp add: len)
  obtain now s1 where s1: "window_step fo (Suc w) heap plan event s = Some (now, s1)" "state_ok fo heap plan s1"
    "map fate_message now @ map we_message (ws_entries s1) = map we_message (ws_entries s) @ map wad_message (event_admissions event)"
    "ws_next_sequence s1 = ws_next_sequence s + length (event_admissions event)" "length (ws_entries s1) \<le> ws_next_sequence s1"
    using window_step_ok [OF Cons.prems(1) plan events(1) fits Cons.prems(3)] by blast
  have "ws_next_sequence s1 + length (admissions events) < 2 ^ 63" using Cons.prems(4) unfolding s1(4) len by (simp only: add.assoc)
  then obtain later s2 where s2: "window_history fo (Suc w) heap plan events s1 = Some (later, s2)" "state_ok fo heap plan s2"
    "map fate_message later @ map we_message (ws_entries s2) = map we_message (ws_entries s1) @ map wad_message (admissions events)"
    using Cons.IH [OF s1(2) events(2) s1(5)] by blast
  have "map fate_message (now @ later) @ map we_message (ws_entries s2) = map we_message (ws_entries s) @ map wad_message (admissions (event # events))"
    using s1(3) s2(3) by (simp add: admissions_def)
  then show ?case using s1(1) s2(1,2) by simp
qed

end
