(* ===== verification/Window_Results.thy ===== *)
theory Window_Results
  imports Window_State
begin

text \<open>
  What a window answers: the result of every aggregate a demand serves, stated over the rows the window retains,
  and the properties of the histories of a window.
\<close>

section \<open>Results over the retained rows\<close>

definition function_served :: "window_demand \<Rightarrow> aggregate_function \<Rightarrow> bool" where
  "function_served demand f \<longleftrightarrow> f \<in> set (wd_functions demand) \<and>
     (case wd_storage demand of
        Counter_storage \<Rightarrow> f = Count
      | Truth_storage \<Rightarrow> f \<in> {Count_If, Bool_And, Bool_Or}
      | Sum_storage \<Rightarrow> f = Sum
      | Sequence_storage \<Rightarrow> f \<in> {First, Last}
      | Extremes_storage \<Rightarrow> f \<in> {Min, Max}
      | Arg_extremes_storage \<Rightarrow> f \<in> {Arg_Min, Arg_Max}
      | _ \<Rightarrow> f = Other_Function)"

definition output_type :: "window_demand \<Rightarrow> aggregate_function \<Rightarrow> data_type" where
  "output_type demand f =
     (if f \<in> {Count, Count_If} then Int64 else if f \<in> {Bool_And, Bool_Or} then Boolean else wd_first_type demand)"

definition exact_storage :: "window_demand \<Rightarrow> bool" where
  "exact_storage demand \<longleftrightarrow>
     (case wd_storage demand of
        Sum_storage \<Rightarrow> integer_sum_reads (wd_first_type demand)
      | Moments_storage \<Rightarrow> False
      | Co_moments_storage \<Rightarrow> False
      | _ \<Rightarrow> True)"

definition truth_result :: "nat \<Rightarrow> aggregate_function \<Rightarrow> window_row list \<Rightarrow> aggregate_value" where
  "truth_result d f rows =
     (let truths = List.map_filter (row_truth d) rows
      in if f = Count_If then Int64_array (int (count_list truths True))
         else Boolean_array (if truths = [] then None
           else Some (if f = Bool_And then list_all (\<lambda>t. t) truths else list_ex (\<lambda>t. t) truths)))"

definition sum_result :: "nat \<Rightarrow> data_type \<Rightarrow> window_row list \<Rightarrow> aggregate_error + aggregate_value" where
  "sum_result d ty rows =
     (if \<not> list_ex (row_present d) rows then Inr (Null_array ty)
      else case integer_range ty of
        Some (low, high) \<Rightarrow>
          if low \<le> present_total d rows \<and> present_total d rows \<le> high then Inr (Integer_array ty (present_total d rows))
          else Inl (Sum_Overflow ty)
      | None \<Rightarrow> Inl (Sum_Overflow ty))"

text \<open>The answer of a demand, read off the rows.\<close>

definition answers :: "'a float_ops \<Rightarrow> window_demand \<Rightarrow> nat \<Rightarrow> aggregate_function \<Rightarrow> window_row list \<Rightarrow>
    (aggregate_error + aggregate_value) panics \<Rightarrow> bool" where
  "answers fo demand d f rows result =
     (let ty = output_type demand f in
      case wd_storage demand of
        Counter_storage \<Rightarrow> result = Some (Inr (Int64_array (int (length rows))))
      | Truth_storage \<Rightarrow> result = Some (Inr (truth_result d f rows))
      | Sum_storage \<Rightarrow>
          if integer_sum_reads (wd_first_type demand) then result = Some (sum_result d ty rows)
          else \<exists>a. covering (fo_sum fo) d rows a \<and> result = ao_evaluate (fo_sum fo) a f ty
      | Moments_storage \<Rightarrow> \<exists>a. covering (fo_moments fo) d rows a \<and> result = ao_evaluate (fo_moments fo) a f ty
      | Co_moments_storage \<Rightarrow> \<exists>a. covering (fo_co_moments fo) d rows a \<and> result = ao_evaluate (fo_co_moments fo) a f ty
      | Sequence_storage \<Rightarrow> \<exists>v. result = Some (Inr v) \<and> extreme_result (if f = First then Greater else Less) Arrival d ty rows v
      | Extremes_storage \<Rightarrow> \<exists>v. result = Some (Inr v) \<and> extreme_result (if f = Min then Greater else Less) Value d ty rows v
      | Arg_extremes_storage \<Rightarrow> \<exists>v. result = Some (Inr v) \<and> extreme_result (if f = Arg_Min then Greater else Less) Key d ty rows v)"

lemma count_filter_le: "length rows < 2 ^ 63 \<Longrightarrow> length (filter P rows) \<le> i64_limit"
  using length_filter_le [of P rows] by (simp add: i64_limit_def del: length_filter_le)

lemma truths_count: "length (filter (\<lambda>r. row_truth d r = Some b) rows) = count_list (List.map_filter (row_truth d) rows) b"
  by (induction rows) (auto simp: map_filter_simps split: option.split)

lemma count_list_zero: "count_list xs x = 0 \<longleftrightarrow> x \<notin> set xs"
  by (simp add: count_list_0_iff)

lemma truth_evaluate_ok:
  assumes "truth_counts d c rows" and "length rows < 2 ^ 63" and "f \<in> {Count_If, Bool_And, Bool_Or}"
  shows "truth_counter_evaluate c f = Some (truth_result d f rows)"
proof -
  let ?truths = "List.map_filter (row_truth d) rows"
  have counts: "tc_true_rows c = count_list ?truths True" "tc_false_rows c = count_list ?truths False"
    using assms(1) by (simp_all add: truth_counts_def truths_count)
  have "tc_true_rows c \<le> i64_limit" "tc_false_rows c \<le> i64_limit"
    using assms(1) count_filter_le [OF assms(2)] by (simp_all add: truth_counts_def)
  then have fits: "tc_true_rows c + tc_false_rows c \<le> u64_max" "tc_true_rows c \<le> i64_limit" by (simp_all add: i64_limit_def u64_max_def)
  have none: "tc_true_rows c + tc_false_rows c = 0 \<longleftrightarrow> ?truths = []"
    by (cases ?truths) (auto simp: counts)
  have "tc_false_rows c = 0 \<longleftrightarrow> list_all (\<lambda>t. t) ?truths" unfolding counts count_list_zero list_all_iff by (metis (full_types))
  moreover have "0 < tc_true_rows c \<longleftrightarrow> list_ex (\<lambda>t. t) ?truths"
    unfolding counts neq0_conv [symmetric] count_list_zero list_ex_iff by (metis (full_types))
  ultimately show ?thesis
    using assms(3) fits none counts(1) by (auto simp: truth_counter_evaluate_def truth_result_def checked_add_def try_from_def Let_def)
qed

lemma integer_evaluate_ok:
  assumes "integer_counts d t rows" and "integer_sum_reads ty"
  shows "integer_total_evaluate t ty = Some (sum_result d ty rows)"
proof -
  have "it_values t = 0 \<longleftrightarrow> \<not> list_ex (row_present d) rows"
    using assms(1) by (simp add: integer_counts_def list_ex_iff filter_empty_conv)
  moreover obtain low high where "integer_range ty = Some (low, high)"
    using assms(2) by (cases ty) (auto simp: integer_sum_reads_def)
  ultimately show ?thesis using assms(1) by (simp add: integer_total_evaluate_def sum_result_def integer_counts_def)
qed

lemma extremes_answer:
  assumes typed: "window_typed plan rows" and d: "d < length plan" and ok: "demand_ok (plan ! d)"
    and serves: "acc_serves (plan ! d) (Extremes x)" and holds: "extremes_hold d rows (length rows) (length rows) x"
    and f: "f \<in> set (wd_functions (plan ! d))"
  shows "smallest_function f \<Longrightarrow> \<exists>v. row_extremes_evaluate d f rows ty x = Some v \<and> extreme_result Greater (re_order x) d ty rows v"
    and "largest_function f \<Longrightarrow> \<exists>v. row_extremes_evaluate d f rows ty x = Some v \<and> extreme_result Less (re_order x) d ty rows v"
proof -
  have order: "extreme_order_of (wd_storage (plan ! d)) = Some (re_order x)" using serves by simp
  have "list_all (extreme_readable (re_order x) (key_type (plan ! d)) (length plan) d) rows"
    using typed_readable(4) [OF _ d ok order] typed by (simp add: window_typed_def)
  then have reads: "window_reads (re_order x) (key_type (plan ! d)) (length plan) d rows"
    using typed by (simp add: window_reads_def window_typed_def)
  have "re_smallest x \<noteq> None" if "smallest_function f" using serves f that by (auto simp: list_ex_iff)
  then show "smallest_function f \<Longrightarrow> \<exists>v. row_extremes_evaluate d f rows ty x = Some v \<and> extreme_result Greater (re_order x) d ty rows v"
    using extremes_evaluate_ok(1) [OF reads holds] by blast
  have "re_largest x \<noteq> None" if "largest_function f" using serves f that by (auto simp: list_ex_iff)
  then show "largest_function f \<Longrightarrow> \<exists>v. row_extremes_evaluate d f rows ty x = Some v \<and> extreme_result Less (re_order x) d ty rows v"
    using extremes_evaluate_ok(2) [OF reads holds] by blast
qed

lemma extreme_functions:
  "smallest_function First" "smallest_function Min" "smallest_function Arg_Min"
  "largest_function Last" "largest_function Max" "largest_function Arg_Max"
  by (simp_all add: smallest_function_def largest_function_def)

lemma acc_answers:
  assumes typed: "window_typed plan rows" and d: "d < length plan" and ok: "demand_ok (plan ! d)"
    and serves: "acc_serves (plan ! d) acc" and holds: "acc_holds fo d rows acc" and f: "function_served (plan ! d) f"
  shows "answers fo (plan ! d) d f rows (accumulator_evaluate fo d f (output_type (plan ! d) f) rows acc)"
proof -
  have len: "length rows < 2 ^ 63" using typed unfolding window_typed_def rows_ok_def by blast
  note extremes = extremes_answer [OF typed d ok]
  show ?thesis
  proof (cases acc)
    case (Counter c)
    have "length rows \<le> i64_limit" using len by (simp add: i64_limit_def)
    then show ?thesis using Counter serves holds
      by (simp add: answers_def accumulator_evaluate_def row_counter_evaluate_def row_counts_def try_from_def Let_def)
  next
    case (Truth_Counter c)
    then show ?thesis using serves holds f truth_evaluate_ok [OF _ len, of d c f]
      by (simp add: answers_def accumulator_evaluate_def function_served_def Let_def)
  next
    case (Integer_Sum t)
    then have "output_type (plan ! d) f = wd_first_type (plan ! d)" using serves f by (simp add: function_served_def output_type_def)
    then show ?thesis using Integer_Sum serves holds integer_evaluate_ok [of d t rows]
      by (simp add: answers_def accumulator_evaluate_def Let_def)
  next
    case (Float_Sum t)
    then show ?thesis using serves holds stacks_cover_aggregate [of "fo_sum fo" d rows t]
      by (auto simp: answers_def accumulator_evaluate_def Let_def)
  next
    case (Moments t)
    then show ?thesis using serves holds stacks_cover_aggregate [of "fo_moments fo" d rows t]
      by (auto simp: answers_def accumulator_evaluate_def Let_def)
  next
    case (Co_Moments t)
    then show ?thesis using serves holds stacks_cover_aggregate [of "fo_co_moments fo" d rows t]
      by (auto simp: answers_def accumulator_evaluate_def Let_def)
  next
    case (Extremes x)
    have f': "f \<in> set (wd_functions (plan ! d))" using f by (simp add: function_served_def)
    have hold: "extremes_hold d rows (length rows) (length rows) x" and serve: "acc_serves (plan ! d) (window_accumulator.Extremes x)"
      using holds serves Extremes by simp_all
    note result = extremes [OF serve hold f', of "output_type (plan ! d) f"]
    have "\<exists>v. row_extremes_evaluate d f rows (output_type (plan ! d) f) x = Some v \<and>
        extreme_result (if smallest_function f then Greater else Less) (re_order x) d (output_type (plan ! d) f) rows v"
      using result f serve by (cases "wd_storage (plan ! d)") (auto simp: function_served_def extreme_functions)
    then show ?thesis using Extremes serve f
      by (cases "wd_storage (plan ! d)") (auto simp: answers_def accumulator_evaluate_def function_served_def smallest_function_def Let_def)
  qed
qed

section \<open>Types of the results\<close>

fun array_typed :: "data_type \<Rightarrow> aggregate_value \<Rightarrow> bool" where
  "array_typed ty (Int64_array n) = (ty = Int64 \<and> - (2 ^ 63) \<le> n \<and> n < 2 ^ 63)"
| "array_typed ty (Boolean_array b) = (ty = Boolean)"
| "array_typed ty (Integer_array t n) = (t = ty \<and> (case integer_range ty of Some (low, high) \<Rightarrow> low \<le> n \<and> n \<le> high | None \<Rightarrow> False))"
| "array_typed ty (Null_array t) = (t = ty)"
| "array_typed ty (Slice_array c row) = (value_type (ac_values c) = ty \<and> row < ac_rows c)"

lemma extreme_typed:
  assumes "list_all (row_typed plan) rows" and "d < length plan" and "extreme_result beaten order d ty rows v"
    and "ty = wd_first_type (plan ! d)"
  shows "array_typed ty v"
proof (cases "\<forall>r \<in> set rows. \<not> row_counted order d r")
  case False
  then obtain i where i: "i < length rows" "v = Slice_array (first_column d (rows ! i)) (wr_row (rows ! i))"
    using assms(3) False unfolding extreme_result_def earliest_best_def if_not_P [OF False] by blast
  have "row_typed plan (rows ! i)" using assms(1) i(1) by (simp add: list_all_length)
  then have "arguments_typed (plan ! d) (wr_arguments (rows ! i) ! d)" "arguments_ok (wr_arguments (rows ! i) ! d) (wr_row (rows ! i))"
    using assms(2) by (auto simp: row_typed_def row_ok_def dest: list_all2_nthD)
  then show ?thesis using i(2) assms(4) by (simp add: arguments_typed_def arguments_ok_def first_column_def)
qed (use assms in \<open>simp add: extreme_result_def\<close>)

lemma answer_typed:
  assumes typed: "window_typed plan rows" and d: "d < length plan" and f: "function_served (plan ! d) f"
    and exact: "exact_storage (plan ! d)" and answer: "answers fo (plan ! d) d f rows result"
  shows "\<exists>r. result = Some r \<and>
    (case r of Inl e \<Rightarrow> e = Sum_Overflow (output_type (plan ! d) f) | Inr v \<Rightarrow> array_typed (output_type (plan ! d) f) v)"
proof -
  have rows: "list_all (row_typed plan) rows" and len: "length rows < 2 ^ 63"
    using typed unfolding window_typed_def rows_ok_def by blast+
  have count: "- (2 ^ 63) \<le> int n \<and> int n < 2 ^ 63" if "n \<le> length rows" for n
    using that len by simp
  note extreme = extreme_typed [OF rows d]
  show ?thesis
  proof (cases "wd_storage (plan ! d)")
    case Counter_storage
    then show ?thesis using answer f count by (simp add: answers_def output_type_def function_served_def Let_def)
  next
    case Truth_storage
    have "count_list (List.map_filter (row_truth d) rows) True \<le> length rows" by (simp flip: truths_count)
    then show ?thesis using Truth_storage answer f count
      by (auto simp: answers_def output_type_def function_served_def truth_result_def Let_def)
  next
    case Sum_storage
    then show ?thesis using answer f exact
      by (auto simp: answers_def sum_result_def exact_storage_def Let_def split: option.splits if_splits)
  next
    case Sequence_storage
    then show ?thesis using answer f extreme by (auto simp: answers_def output_type_def function_served_def Let_def)
  next
    case Extremes_storage
    then show ?thesis using answer f extreme by (auto simp: answers_def output_type_def function_served_def Let_def)
  next
    case Arg_extremes_storage
    then show ?thesis using answer f extreme by (auto simp: answers_def output_type_def function_served_def Let_def)
  qed (use exact in \<open>simp_all add: exact_storage_def\<close>)
qed

section \<open>A window to evaluate\<close>

definition demo_ops :: "nat float_ops" where
  "demo_ops = (let ops = \<lparr>ao_empty = 0, ao_merge = (+), ao_of_rows = (\<lambda>args s e. e - s), ao_of_row = (\<lambda>args row. 1),
       ao_evaluate = (\<lambda>a f ty. Some (Inr (Int64_array (int a))))\<rparr>
     in \<lparr>fo_sum = ops, fo_moments = ops, fo_co_moments = ops\<rparr>)"

definition demo_column :: argument_column where
  "demo_column = \<lparr>ac_nulls = None, ac_rows = 3, ac_values = Int8_values [100, 100, - 5]\<rparr>"

definition demo_heap :: "nat \<Rightarrow> window_arguments list" where
  "demo_heap batch = replicate 3 \<lparr>wa_first = demo_column, wa_second = None\<rparr>"

definition demo_plan :: "window_demand list" where
  "demo_plan =
     [\<lparr>wd_storage = Counter_storage, wd_functions = [Count], wd_first_type = Int8, wd_second_type = None\<rparr>,
      \<lparr>wd_storage = Sum_storage, wd_functions = [Sum], wd_first_type = Int8, wd_second_type = None\<rparr>,
      \<lparr>wd_storage = Extremes_storage, wd_functions = [Min, Max], wd_first_type = Int8, wd_second_type = None\<rparr>]"

definition demo_events :: "string window_event list" where
  "demo_events =
     [Admit_Rows 7 [\<lparr>wad_message = ''a'', wad_timestamp = 10, wad_row = 0\<rparr>, \<lparr>wad_message = ''b'', wad_timestamp = 11, wad_row = 1\<rparr>],
      Step (Some 1) None,
      Admit_Rows 8 [\<lparr>wad_message = ''c'', wad_timestamp = 12, wad_row = 0\<rparr>]]"

lemma demo_plan_ok: "list_all demand_ok demo_plan"
  by (simp add: demo_plan_def demand_ok_def numeric_type_def)

lemma demo_arguments_ok: "row < 3 \<Longrightarrow> list_all (\<lambda>args. arguments_ok args row) (demo_heap batch)"
  by (simp add: demo_heap_def demo_column_def arguments_ok_def column_ok_def covers_def validity_def numeral_3_eq_3)

lemma demo_events_ok: "list_all (event_ok demo_heap demo_plan) demo_events"
proof -
  have "list_all2 arguments_typed demo_plan (demo_heap batch)" for batch
    by (simp add: demo_plan_def demo_heap_def demo_column_def arguments_typed_def numeral_3_eq_3)
  then show ?thesis
    by (simp add: demo_events_def run_admissible_def demo_arguments_ok u64_max_def valid_timestamp_def i64_min_def i64_max_def)
qed

lemma demo_events_fit: "length (admissions demo_events) < 2 ^ 63"
  by (simp add: demo_events_def admissions_def)

lemma history_state_ok:
  assumes "list_all demand_ok plan" and "list_all (event_ok heap plan) events" and "length (admissions events) < 2 ^ 63" and "0 < width"
    and "window_history fo width heap plan events (window_state_new fo plan incarnation) = Some (log, s)"
  shows "state_ok fo heap plan s"
proof -
  obtain w where "width = Suc w" using assms(4) by (cases width) simp_all
  then show ?thesis
    using window_history_ok [OF assms(1) state_new_ok [of fo heap plan incarnation] assms(2), of w] assms(3,5) by (simp add: window_state_new_def)
qed

lemma demo_history:
  "\<exists>log s. window_history demo_ops 4 demo_heap demo_plan demo_events (window_state_new demo_ops demo_plan 1) = Some (log, s)"
  using window_history_ok [OF demo_plan_ok state_new_ok [of demo_ops demo_heap demo_plan 1] demo_events_ok, of 3] demo_events_fit
  by (auto simp: window_state_new_def)

section \<open>Properties\<close>

text \<open>
  C2: whatever sequence of admissions, steps and clears a window goes through, no operation panics, every
  accumulator holds exactly the rows the window retains, and every admitted message is either still retained or
  was acknowledged or discarded once, in the order of admission.
\<close>

theorem window_history_exact:
  assumes "list_all demand_ok plan" and "list_all (event_ok heap plan) events" and "length (admissions events) < 2 ^ 63" and "0 < width"
  shows "\<exists>log s. window_history fo width heap plan events (window_state_new fo plan incarnation) = Some (log, s) \<and>
    (\<forall>d < length plan. acc_holds fo d (retained_rows s) (ws_accumulators s ! d)) \<and>
    map fate_message log @ map we_message (ws_entries s) = map wad_message (admissions events)"
proof -
  obtain w where "width = Suc w" using assms(4) by (cases width) simp_all
  then show ?thesis
    using window_history_ok [OF assms(1) state_new_ok [of fo heap plan incarnation] assms(2), of w] assms(3)
    by (auto simp: window_state_new_def state_ok_def acc_ok_def)
qed

theorem window_history_exact_witness:
  "\<exists>log s. window_history demo_ops 4 demo_heap demo_plan demo_events (window_state_new demo_ops demo_plan 1) = Some (log, s) \<and>
    map fate_message log @ map we_message (ws_entries s) = [''a'', ''b'', ''c'']"
  using window_history_exact [OF demo_plan_ok demo_events_ok demo_events_fit, of 4 demo_ops 1]
  by (auto simp: demo_events_def admissions_def)

text \<open>
  C3: after any history, every aggregate a demand serves is answered from exactly the rows the window retains:
  the row count, the truth counts, the exact integer sum, or the overflow error when that sum does not fit the
  argument's type, and the earliest row with the extreme key. A floating-point aggregate is evaluated on a merge of
  the aggregates of those rows, each once and in order.
\<close>

theorem window_answers_retained_rows:
  assumes "list_all demand_ok plan" and "list_all (event_ok heap plan) events" and "length (admissions events) < 2 ^ 63" and "0 < width"
    and "window_history fo width heap plan events (window_state_new fo plan incarnation) = Some (log, s)"
    and "d < length plan" and "function_served (plan ! d) f"
  shows "answers fo (plan ! d) d f (retained_rows s)
    (accumulator_evaluate fo d f (output_type (plan ! d) f) (retained_rows s) (ws_accumulators s ! d))"
proof -
  have ok: "state_ok fo heap plan s" by (rule history_state_ok [OF assms(1-5)])
  show ?thesis
    by (rule acc_answers) (use ok assms(1,6,7) in \<open>simp_all add: state_ok_def acc_ok_def list_all_length\<close>)
qed

theorem window_answers_retained_rows_witness:
  "\<exists>log s. window_history demo_ops 4 demo_heap demo_plan demo_events (window_state_new demo_ops demo_plan 1) = Some (log, s) \<and>
    accumulator_evaluate demo_ops 1 Sum Int8 (retained_rows s) (ws_accumulators s ! 1) = Some (sum_result 1 Int8 (retained_rows s))"
proof -
  obtain log s where s: "window_history demo_ops 4 demo_heap demo_plan demo_events (window_state_new demo_ops demo_plan 1) = Some (log, s)"
    using demo_history by blast
  from window_answers_retained_rows [OF demo_plan_ok demo_events_ok demo_events_fit _ s, of 1 Sum] s show ?thesis
    by (simp add: demo_plan_def function_served_def answers_def output_type_def integer_sum_reads_def)
qed

text \<open>
  C15: after any history, every aggregate that is not floating point is evaluated without a panic, to an array of
  exactly the type the demand was compiled to, holding a value of that type; the only error is that a sum does not
  fit its type.
\<close>

theorem window_answer_typed:
  assumes "list_all demand_ok plan" and "list_all (event_ok heap plan) events" and "length (admissions events) < 2 ^ 63" and "0 < width"
    and "window_history fo width heap plan events (window_state_new fo plan incarnation) = Some (log, s)"
    and "d < length plan" and "function_served (plan ! d) f" and "exact_storage (plan ! d)"
  shows "\<exists>r. accumulator_evaluate fo d f (output_type (plan ! d) f) (retained_rows s) (ws_accumulators s ! d) = Some r \<and>
    (case r of Inl e \<Rightarrow> e = Sum_Overflow (output_type (plan ! d) f) | Inr v \<Rightarrow> array_typed (output_type (plan ! d) f) v)"
proof -
  have ok: "state_ok fo heap plan s" by (rule history_state_ok [OF assms(1-5)])
  then have typed: "window_typed plan (retained_rows s)" by (simp add: state_ok_def)
  have "answers fo (plan ! d) d f (retained_rows s)
      (accumulator_evaluate fo d f (output_type (plan ! d) f) (retained_rows s) (ws_accumulators s ! d))"
    by (rule acc_answers) (use ok assms(1,6,7) in \<open>simp_all add: state_ok_def acc_ok_def list_all_length\<close>)
  then show ?thesis by (rule answer_typed [OF typed assms(6-8)])
qed

theorem window_answer_typed_witness:
  "\<exists>log s. window_history demo_ops 4 demo_heap demo_plan demo_events (window_state_new demo_ops demo_plan 1) = Some (log, s) \<and>
    (\<exists>r. accumulator_evaluate demo_ops 2 Min Int8 (retained_rows s) (ws_accumulators s ! 2) = Some r \<and>
      (case r of Inl e \<Rightarrow> e = Sum_Overflow Int8 | Inr v \<Rightarrow> array_typed Int8 v))"
proof -
  obtain log s where s: "window_history demo_ops 4 demo_heap demo_plan demo_events (window_state_new demo_ops demo_plan 1) = Some (log, s)"
    using demo_history by blast
  have out: "output_type (demo_plan ! 2) Min = Int8" and demand: "2 < length demo_plan" "function_served (demo_plan ! 2) Min" "exact_storage (demo_plan ! 2)"
    by (simp_all add: demo_plan_def output_type_def function_served_def exact_storage_def)
  from window_answer_typed [OF demo_plan_ok demo_events_ok demo_events_fit _ s demand, unfolded out] s show ?thesis by auto
qed

end
