(* ===== verification/Batch_Packing.thy ===== *)
theory Batch_Packing
  imports Prelude "HOL-Library.Word"
begin

text \<open>
  Packing an emitter's buffered rows into bounded batch payloads
  (\<open>src/runtime/emitter_batch_packing.rs\<close>).

  Selected rows arrive carrier by carrier. Rows prepared as batch members collect in an open run; a
  run closes when a member cannot share its batch, when it holds \<open>MAX MESSAGES\<close> members, and at a
  rejected row. A closed run is divided into candidates, and a candidate whose encoding reaches
  \<open>MAX SIZE\<close> is halved and encoded again.

  The codec is a parameter: \<open>cc_batch_encoder\<close> opens a carrier and prepares its rows,
  \<open>cc_encode_batch_within\<close> encodes the members of one container. Nothing is assumed of it. Values
  of the connector contract and of the codec, of which packing only asks equality, have the type
  \<open>'x\<close>; error reports have the type \<open>'e\<close>. The two loops of \<open>subdivide\<close> are partial functions in
  the option monad, where \<open>None\<close> is a panic or a loop that never ends; the theorems show that
  neither happens.
\<close>

section \<open>Rows, members and outcomes\<close>

type_synonym payload_bytes = "8 word list"

record emitter_record_position =
  batch_index :: nat
  row_index :: nat

datatype 'x emitter_headers = Text_headers "(string \<times> string) list" | Typed_headers "(string \<times> 'x) list"

record 'x batch_envelope =
  be_destination :: "'x option"
  be_headers :: "'x emitter_headers"
  be_message_group :: "string option"
  be_clauses :: "'x option"

datatype 'x packing_row = Ready emitter_record_position "'x batch_envelope" | Seal

record ('b, 'k, 'x) packing_carrier =
  pc_source_relay :: string
  pc_branch_key :: "'k option"
  pc_batch :: 'b
  pc_rows :: "'x packing_row list"

record 'x batch_payload =
  bp_rows :: "emitter_record_position list"
  bp_envelope :: "'x batch_envelope"
  bp_payload :: payload_bytes

record payload_limit_exceeded =
  pl_codec :: string
  pl_encoding :: string
  pl_limit :: nat

datatype ('x, 'e) packed_outcome =
  Payload "'x batch_payload"
| Member_failed emitter_record_position 'e
| Row_oversize emitter_record_position payload_limit_exceeded
| Container_failed "emitter_record_position list" 'e

record ('x, 'e) buffered_batch_packing =
  bb_outcomes :: "('x, 'e) packed_outcome list"
  bb_subdivisions :: nat

text \<open>A syslog member is its frame header and the rest of its message.\<close>

datatype 'x batch_member = Encoded_member payload_bytes | Value_member 'x | Syslog_member 'x 'x

fun shares_container_with :: "'x batch_member \<Rightarrow> 'x batch_member \<Rightarrow> bool" where
  "shares_container_with (Syslog_member header _) (Syslog_member other _) = (header = other)"
| "shares_container_with _ _ = True"

datatype 'x batch_member_encoding = Member "'x batch_member" | Member_oversize payload_limit_exceeded

datatype bounded_batch_encoding = Encoded payload_bytes | Batch_oversize payload_limit_exceeded

record ('b, 'x, 'e) compiled_codec =
  cc_batch_encoder :: "'b \<Rightarrow> 'e + (nat \<Rightarrow> nat \<Rightarrow> 'e + 'x batch_member_encoding)"
  cc_encode_batch_within :: "'x batch_member list \<Rightarrow> nat \<Rightarrow> 'e + bounded_batch_encoding"

record emitter_batch_policy =
  max_messages :: nat
  max_size :: nat

record ('k, 'x) prepared_member =
  pm_position :: emitter_record_position
  pm_source_relay :: string
  pm_branch_key :: "'k option"
  pm_envelope :: "'x batch_envelope"
  pm_member :: "'x batch_member"

definition shares_batch_with :: "('k, 'x) prepared_member \<Rightarrow> ('k, 'x) prepared_member \<Rightarrow> bool" where
  "shares_batch_with m other \<longleftrightarrow>
     pm_source_relay m = pm_source_relay other \<and> pm_branch_key m = pm_branch_key other \<and>
     pm_envelope m = pm_envelope other \<and> shares_container_with (pm_member m) (pm_member other)"

section \<open>Subdividing a run\<close>

datatype 'o candidate_encoding = Fits payload_bytes | Exceeds 'o

datatype ('o, 'f) candidate_result = Cand_encoded payload_bytes | Cand_oversize 'o | Cand_failed 'f

record ('o, 'f) candidate =
  cd_start :: nat
  cd_end :: nat
  cd_result :: "('o, 'f) candidate_result"

record ('o, 'f) subdivision =
  sd_candidates :: "('o, 'f) candidate list"
  sd_subdivisions :: nat

text \<open>The inner loop that extends a candidate from its first member.\<close>

function candidate_end :: "'m list \<Rightarrow> nat \<Rightarrow> ('m \<Rightarrow> 'm \<Rightarrow> bool) \<Rightarrow> 'm \<Rightarrow> nat \<Rightarrow> nat \<Rightarrow> nat" where
  "candidate_end members limit compatible first start e =
     (if e - start < limit \<and> e < length members \<and> compatible first (members ! e)
      then candidate_end members limit compatible first start (e + 1) else e)"
  by pat_completeness auto

termination by (relation "measure (\<lambda>(members, _, _, _, _, e). length members - e)") auto

declare candidate_end.simps [simp del]

text \<open>The loop that encodes a candidate, halving it while it reaches the limit.\<close>

partial_function (option) encode_candidate ::
  "('m list \<Rightarrow> 'f + 'o candidate_encoding) \<Rightarrow> 'm list \<Rightarrow> nat \<Rightarrow> nat \<Rightarrow> nat \<Rightarrow>
     (nat \<times> ('o, 'f) candidate_result \<times> nat) option" where
  "encode_candidate encode members start e subdivisions = do {
     candidate \<leftarrow> slice_range members start e;
     (case encode candidate of
        Inr (Fits payload) \<Rightarrow> Some (e, Cand_encoded payload, subdivisions)
      | Inr (Exceeds exceeded) \<Rightarrow>
          (if e - start = 1 then Some (e, Cand_oversize exceeded, subdivisions)
           else do {
             subdivisions \<leftarrow> checked_add u64_max subdivisions 1;
             encode_candidate encode members start (start + div_ceil (e - start) 2) subdivisions
           })
      | Inl error \<Rightarrow> Some (e, Cand_failed error, subdivisions))
   }"

partial_function (option) subdivide_from ::
  "'m list \<Rightarrow> nat \<Rightarrow> ('m \<Rightarrow> 'm \<Rightarrow> bool) \<Rightarrow> ('m list \<Rightarrow> 'f + 'o candidate_encoding) \<Rightarrow> nat \<Rightarrow>
     ('o, 'f) subdivision \<Rightarrow> ('o, 'f) subdivision option" where
  "subdivide_from members limit compatible encode start sd =
     (if start < length members then do {
        (e, result, count) \<leftarrow> encode_candidate encode members start
          (candidate_end members limit compatible (members ! start) start (start + 1)) (sd_subdivisions sd);
        subdivide_from members limit compatible encode e
          \<lparr>sd_candidates = sd_candidates sd @ [\<lparr>cd_start = start, cd_end = e, cd_result = result\<rparr>],
           sd_subdivisions = count\<rparr>
      } else Some sd)"

definition subdivide ::
  "'m list \<Rightarrow> nat \<Rightarrow> ('m \<Rightarrow> 'm \<Rightarrow> bool) \<Rightarrow> ('m list \<Rightarrow> 'f + 'o candidate_encoding) \<Rightarrow>
     ('o, 'f) subdivision panics" where
  "subdivide members limit compatible encode =
     subdivide_from members limit compatible encode 0 \<lparr>sd_candidates = [], sd_subdivisions = 0\<rparr>"

section \<open>Packing\<close>

definition candidate_outcome ::
  "('k, 'x) prepared_member list \<Rightarrow> (payload_limit_exceeded, 'e) candidate \<Rightarrow> ('x, 'e) packed_outcome panics" where
  "candidate_outcome members c = do {
     chosen \<leftarrow> slice_range members (cd_start c) (cd_end c);
     let rows = map pm_position chosen;
     (case cd_result c of
        Cand_encoded payload \<Rightarrow> do {
          first \<leftarrow> elem_at chosen 0;
          Some (Payload \<lparr>bp_rows = rows, bp_envelope = pm_envelope first, bp_payload = payload\<rparr>)
        }
      | Cand_oversize exceeded \<Rightarrow> do {
          position \<leftarrow> elem_at rows 0;
          Some (Row_oversize position exceeded)
        }
      | Cand_failed error \<Rightarrow> Some (Container_failed rows error))
   }"

fun candidate_outcomes ::
  "('k, 'x) prepared_member list \<Rightarrow> (payload_limit_exceeded, 'e) candidate list \<Rightarrow>
     ('x, 'e) packed_outcome list panics" where
  "candidate_outcomes members [] = Some []"
| "candidate_outcomes members (c # cs) = do {
     out \<leftarrow> candidate_outcome members c;
     outs \<leftarrow> candidate_outcomes members cs;
     Some (out # outs)
   }"

definition encode_prepared ::
  "('b, 'x, 'e) compiled_codec \<Rightarrow> nat \<Rightarrow> ('k, 'x) prepared_member list \<Rightarrow>
     'e + payload_limit_exceeded candidate_encoding" where
  "encode_prepared codec limit candidate =
     (case cc_encode_batch_within codec (map pm_member candidate) limit of
        Inl error \<Rightarrow> Inl error
      | Inr (Encoded payload) \<Rightarrow> Inr (Fits payload)
      | Inr (Batch_oversize exceeded) \<Rightarrow> Inr (Exceeds exceeded))"

type_synonym ('k, 'x, 'e) packing_state = "('x, 'e) buffered_batch_packing \<times> ('k, 'x) prepared_member list"

text \<open>The state is the packing and the open run, which \<open>pack_run\<close> leaves empty.\<close>

fun pack_run ::
  "('b, 'x, 'e) compiled_codec \<Rightarrow> emitter_batch_policy \<Rightarrow> ('k, 'x, 'e) packing_state \<Rightarrow>
     ('k, 'x, 'e) packing_state panics" where
  "pack_run codec policy (packing, members) =
     (if members = [] then Some (packing, members) else do {
        sd \<leftarrow> subdivide members (max_messages policy) shares_batch_with (encode_prepared codec (max_size policy));
        total \<leftarrow> checked_add u64_max (bb_subdivisions packing) (sd_subdivisions sd);
        outs \<leftarrow> candidate_outcomes members (sd_candidates sd);
        Some (\<lparr>bb_outcomes = bb_outcomes packing @ outs, bb_subdivisions = total\<rparr>, [])
      })"

definition push_outcome ::
  "('x, 'e) packed_outcome \<Rightarrow> ('k, 'x, 'e) packing_state \<Rightarrow> ('k, 'x, 'e) packing_state" where
  "push_outcome out st = (fst st\<lparr>bb_outcomes := bb_outcomes (fst st) @ [out]\<rparr>, snd st)"

text \<open>A prepared member joins the open run, which closes before it or after it.\<close>

definition join_run ::
  "('b, 'x, 'e) compiled_codec \<Rightarrow> emitter_batch_policy \<Rightarrow> ('k, 'x) prepared_member \<Rightarrow>
     ('k, 'x, 'e) packing_state \<Rightarrow> ('k, 'x, 'e) packing_state panics" where
  "join_run codec policy prepared st = do {
     (packing, run) \<leftarrow>
       (if snd st \<noteq> [] \<and> \<not> shares_batch_with (hd (snd st)) prepared then pack_run codec policy st else Some st);
     let run = run @ [prepared];
     if length run = max_messages policy then pack_run codec policy (packing, run) else Some (packing, run)
   }"

fun pack_row ::
  "('b, 'x, 'e) compiled_codec \<Rightarrow> emitter_batch_policy \<Rightarrow> ('b, 'k, 'x) packing_carrier \<Rightarrow>
     (nat \<Rightarrow> nat \<Rightarrow> 'e + 'x batch_member_encoding) \<Rightarrow> 'x packing_row \<Rightarrow>
     ('k, 'x, 'e) packing_state \<Rightarrow> ('k, 'x, 'e) packing_state panics" where
  "pack_row codec policy carrier encoder Seal st = pack_run codec policy st"
| "pack_row codec policy carrier encoder (Ready position envelope) st =
     (case encoder (row_index position) (max_size policy) of
        Inr (Member member) \<Rightarrow>
          join_run codec policy
            \<lparr>pm_position = position, pm_source_relay = pc_source_relay carrier,
             pm_branch_key = pc_branch_key carrier, pm_envelope = envelope, pm_member = member\<rparr> st
      | Inr (Member_oversize exceeded) \<Rightarrow> do {
          st \<leftarrow> pack_run codec policy st;
          Some (push_outcome (Row_oversize position exceeded) st)
        }
      | Inl error \<Rightarrow> do {
          st \<leftarrow> pack_run codec policy st;
          Some (push_outcome (Member_failed position error) st)
        })"

fun pack_rows ::
  "('b, 'x, 'e) compiled_codec \<Rightarrow> emitter_batch_policy \<Rightarrow> ('b, 'k, 'x) packing_carrier \<Rightarrow>
     (nat \<Rightarrow> nat \<Rightarrow> 'e + 'x batch_member_encoding) \<Rightarrow> 'x packing_row list \<Rightarrow>
     ('k, 'x, 'e) packing_state \<Rightarrow> ('k, 'x, 'e) packing_state panics" where
  "pack_rows codec policy carrier encoder [] st = Some st"
| "pack_rows codec policy carrier encoder (row # rows) st = do {
     st \<leftarrow> pack_row codec policy carrier encoder row st;
     pack_rows codec policy carrier encoder rows st
   }"

fun pack_carriers ::
  "('b, 'x, 'e) compiled_codec \<Rightarrow> emitter_batch_policy \<Rightarrow> ('b, 'k, 'x) packing_carrier list \<Rightarrow>
     ('k, 'x, 'e) packing_state \<Rightarrow> ('e + ('k, 'x, 'e) packing_state) panics" where
  "pack_carriers codec policy [] st = Some (Inr st)"
| "pack_carriers codec policy (carrier # carriers) st =
     (if pc_rows carrier = [] then pack_carriers codec policy carriers st
      else case cc_batch_encoder codec (pc_batch carrier) of
          Inl error \<Rightarrow> Some (Inl error)
        | Inr encoder \<Rightarrow> do {
            st \<leftarrow> pack_rows codec policy carrier encoder (pc_rows carrier) st;
            pack_carriers codec policy carriers st
          })"

definition pack_buffered_batches ::
  "('b, 'x, 'e) compiled_codec \<Rightarrow> ('b, 'k, 'x) packing_carrier list \<Rightarrow> emitter_batch_policy \<Rightarrow>
     ('e + ('x, 'e) buffered_batch_packing) panics" where
  "pack_buffered_batches codec carriers policy = do {
     result \<leftarrow> pack_carriers codec policy carriers (\<lparr>bb_outcomes = [], bb_subdivisions = 0\<rparr>, []);
     (case result of
        Inl error \<Rightarrow> Some (Inl error)
      | Inr st \<Rightarrow> do {
          (packing, run) \<leftarrow> pack_run codec policy st;
          Some (Inr packing)
        })
   }"

section \<open>Subdivision covers the run\<close>

lemma slice_range_Some: "s \<le> e \<Longrightarrow> e \<le> length xs \<Longrightarrow> slice_range xs s e = Some (take (e - s) (drop s xs))"
  by (simp add: slice_range_def)

lemma candidate_end_bounds:
  assumes "start < e" and "e \<le> length members" and "e - start \<le> limit"
  shows "e \<le> candidate_end members limit compatible first start e \<and>
    candidate_end members limit compatible first start e \<le> length members \<and>
    candidate_end members limit compatible first start e - start \<le> limit"
  using assms
proof (induction members limit compatible first start e rule: candidate_end.induct)
  case (1 members limit compatible first start e)
  show ?case
  proof (cases "e - start < limit \<and> e < length members \<and> compatible first (members ! e)")
    case True
    then have "Suc e - start \<le> limit" using 1(2) by linarith
    moreover from True have "candidate_end members limit compatible first start e =
        candidate_end members limit compatible first start (Suc e)" by (subst candidate_end.simps) simp
    ultimately show ?thesis using 1 True by simp
  next
    case False
    then have "candidate_end members limit compatible first start e = e" by (subst candidate_end.simps) auto
    with 1 show ?thesis by simp
  qed
qed

lemma candidate_end_compatible:
  assumes "i < candidate_end members limit compatible first start e" and "e \<le> i"
  shows "compatible first (members ! i)"
  using assms
proof (induction members limit compatible first start e rule: candidate_end.induct)
  case (1 members limit compatible first start e)
  show ?case
  proof (cases "e - start < limit \<and> e < length members \<and> compatible first (members ! e)")
    case True
    then have "i < candidate_end members limit compatible first start (e + 1)"
      using 1(2) by (subst (asm) candidate_end.simps) simp
    with 1 True show ?thesis by (cases "i = e") auto
  next
    case False
    with 1(2,3) show ?thesis by (subst (asm) candidate_end.simps) auto
  qed
qed

text \<open>What the result of a candidate says of its last encoding.\<close>

fun result_ok :: "('m list \<Rightarrow> 'f + 'o candidate_encoding) \<Rightarrow> 'm list \<Rightarrow> ('o, 'f) candidate_result \<Rightarrow> bool" where
  "result_ok encode ms (Cand_encoded payload) \<longleftrightarrow> encode ms = Inr (Fits payload)"
| "result_ok encode ms (Cand_oversize exceeded) \<longleftrightarrow> length ms = 1 \<and> encode ms = Inr (Exceeds exceeded)"
| "result_ok encode ms (Cand_failed error) \<longleftrightarrow> encode ms = Inl error"

text \<open>A candidate of at most \<open>2 ^ j\<close> members ends after at most \<open>j\<close> halvings.\<close>

lemma encode_candidate_ends:
  assumes "start < e" and "e \<le> length members" and "e - start \<le> 2 ^ j" and "count + j \<le> u64_max"
  shows "\<exists>e' result count'. encode_candidate encode members start e count = Some (e', result, count') \<and>
    start < e' \<and> e' \<le> e \<and> count' \<le> count + j \<and> result_ok encode (take (e' - start) (drop start members)) result"
  using assms
proof (induction j arbitrary: e count)
  case 0
  then have "e - start = 1" by simp
  moreover have "slice_range members start e = Some (take (e - start) (drop start members))"
    using 0 by (simp add: slice_range_Some)
  ultimately show ?case using 0
    by (subst encode_candidate.simps) (auto split: sum.splits candidate_encoding.splits)
next
  case (Suc j)
  let ?c = "take (e - start) (drop start members)"
  have slice: "slice_range members start e = Some ?c" using Suc.prems by (simp add: slice_range_Some)
  show ?case
  proof (cases "\<exists>x. encode ?c = Inr (Exceeds x) \<and> e - start \<noteq> 1")
    case False
    with slice Suc.prems show ?thesis
      by (subst encode_candidate.simps) (auto split: sum.splits candidate_encoding.splits)
  next
    case True
    let ?e = "start + div_ceil (e - start) 2"
    have "checked_add u64_max count 1 = Some (count + 1)" using Suc.prems(4) by (simp add: checked_add_def)
    with slice True have step: "encode_candidate encode members start e count =
        encode_candidate encode members start ?e (count + 1)"
      by (subst encode_candidate.simps) auto
    have small: "div_ceil (e - start) 2 \<le> 2 ^ j" using Suc.prems(3) by (intro div_ceil_least) simp_all
    have pos: "0 < div_ceil (e - start) 2" using Suc.prems(1) True by (intro div_ceil_pos) auto
    have le: "div_ceil (e - start) 2 \<le> e - start" by (intro div_ceil_least) simp_all
    have "\<exists>e' result count'. encode_candidate encode members start ?e (count + 1) = Some (e', result, count') \<and>
        start < e' \<and> e' \<le> ?e \<and> count' \<le> count + 1 + j \<and>
        result_ok encode (take (e' - start) (drop start members)) result"
      using small pos le Suc.prems by (intro Suc.IH) auto
    then obtain e' result count' where "encode_candidate encode members start ?e (count + 1) = Some (e', result, count')"
      and "start < e'" "e' \<le> ?e" "count' \<le> count + 1 + j"
      and "result_ok encode (take (e' - start) (drop start members)) result" by blast
    moreover from this(3) le Suc.prems(1) have "e' \<le> e" by simp
    ultimately show ?thesis using step by auto
  qed
qed

text \<open>Candidates tile the members from \<open>s\<close> on.\<close>

fun tiles :: "nat \<Rightarrow> ('o, 'f) candidate list \<Rightarrow> nat \<Rightarrow> bool" where
  "tiles s [] e \<longleftrightarrow> s = e"
| "tiles s (c # cs) e \<longleftrightarrow> cd_start c = s \<and> s < cd_end c \<and> cd_end c \<le> e \<and> tiles (cd_end c) cs e"

definition candidate_ok ::
  "('m list \<Rightarrow> 'f + 'o candidate_encoding) \<Rightarrow> ('m \<Rightarrow> 'm \<Rightarrow> bool) \<Rightarrow> nat \<Rightarrow> 'm list \<Rightarrow> ('o, 'f) candidate \<Rightarrow> bool" where
  "candidate_ok encode compatible limit members c \<longleftrightarrow>
     cd_end c - cd_start c \<le> limit \<and>
     (\<forall>i. cd_start c < i \<longrightarrow> i < cd_end c \<longrightarrow> compatible (members ! cd_start c) (members ! i)) \<and>
     result_ok encode (take (cd_end c - cd_start c) (drop (cd_start c) members)) (cd_result c)"

lemma subdivide_from_tiles:
  assumes "0 < limit" and "limit \<le> 2 ^ j"
    and "start \<le> length members" and "sd_subdivisions sd + j * (length members - start) \<le> u64_max"
  shows "\<exists>cs count. subdivide_from members limit compatible encode start sd =
      Some \<lparr>sd_candidates = sd_candidates sd @ cs, sd_subdivisions = count\<rparr> \<and>
    tiles start cs (length members) \<and> list_all (candidate_ok encode compatible limit members) cs \<and>
    count \<le> sd_subdivisions sd + j * (length members - start)"
  using assms(3,4)
proof (induction "length members - start" arbitrary: start sd rule: less_induct)
  case less
  show ?case
  proof (cases "start < length members")
    case False
    with less.prems have "start = length members" by simp
    then show ?thesis 
      by (subst subdivide_from.simps) (auto intro!: exI [of _ "[]"] exI [of _ "sd_subdivisions sd"])
  next
    case True
    let ?e0 = "candidate_end members limit compatible (members ! start) start (start + 1)"
    have e0: "start + 1 \<le> ?e0" "?e0 \<le> length members" "?e0 - start \<le> limit"
      using candidate_end_bounds [of start "start + 1" members limit compatible "members ! start"] True assms(1) by auto
    have room: "j \<le> j * (length members - start)" using True by (simp add: Suc_le_eq)
    obtain e result count where run: "encode_candidate encode members start ?e0 (sd_subdivisions sd) = Some (e, result, count)"
      and e: "start < e" "e \<le> ?e0" and count: "count \<le> sd_subdivisions sd + j"
      and res: "result_ok encode (take (e - start) (drop start members)) result"
      using encode_candidate_ends [of start ?e0 members j "sd_subdivisions sd" encode] e0 assms(2) less.prems(2) room
      by force
    let ?c = "\<lparr>cd_start = start, cd_end = e, cd_result = result\<rparr>"
    let ?sd = "\<lparr>sd_candidates = sd_candidates sd @ [?c], sd_subdivisions = count\<rparr>"
    have "length members - start = Suc (length members - start - 1)" using True by simp
    then have "j * (length members - start) = j + j * (length members - start - 1)" by (metis mult_Suc_right)
    moreover have "j * (length members - e) \<le> j * (length members - start - 1)" using e by (intro mult_le_mono2) simp
    ultimately have fits: "count + j * (length members - e) \<le> sd_subdivisions sd + j * (length members - start)"
      using count by linarith
    have "candidate_ok encode compatible limit members ?c"
      using e e0 res candidate_end_compatible [of _ members limit compatible "members ! start" start "start + 1"]
      by (auto simp: candidate_ok_def)
    moreover have "\<exists>cs count'. subdivide_from members limit compatible encode e ?sd =
          Some \<lparr>sd_candidates = sd_candidates ?sd @ cs, sd_subdivisions = count'\<rparr> \<and>
        tiles e cs (length members) \<and> list_all (candidate_ok encode compatible limit members) cs \<and>
        count' \<le> sd_subdivisions ?sd + j * (length members - e)"
      using e e0 fits less.prems True by (intro less.hyps) auto
    then obtain cs count' where "subdivide_from members limit compatible encode e ?sd =
          Some \<lparr>sd_candidates = sd_candidates sd @ ?c # cs, sd_subdivisions = count'\<rparr>"
      "tiles e cs (length members)" "list_all (candidate_ok encode compatible limit members) cs"
      "count' \<le> count + j * (length members - e)" by auto
    moreover have "subdivide_from members limit compatible encode start sd = subdivide_from members limit compatible encode e ?sd"
      using True run by (subst subdivide_from.simps) simp
    ultimately show ?thesis using e e0 fits by (intro exI [of _ "?c # cs"] exI [of _ count']) simp
  qed
qed

section \<open>What packing promises\<close>

text \<open>A row as packing sees it: a prepared member, a row rejected alone, or a seal.\<close>

datatype ('k, 'x, 'e) row_event =
  Joins "('k, 'x) prepared_member" | Rejects "('x, 'e) packed_outcome" | Seals

fun event_of_row ::
  "emitter_batch_policy \<Rightarrow> ('b, 'k, 'x) packing_carrier \<Rightarrow>
     (nat \<Rightarrow> nat \<Rightarrow> 'e + 'x batch_member_encoding) \<Rightarrow> 'x packing_row \<Rightarrow> ('k, 'x, 'e) row_event" where
  "event_of_row policy carrier encoder Seal = Seals"
| "event_of_row policy carrier encoder (Ready position envelope) =
     (case encoder (row_index position) (max_size policy) of
        Inr (Member member) \<Rightarrow> Joins
          \<lparr>pm_position = position, pm_source_relay = pc_source_relay carrier,
           pm_branch_key = pc_branch_key carrier, pm_envelope = envelope, pm_member = member\<rparr>
      | Inr (Member_oversize exceeded) \<Rightarrow> Rejects (Row_oversize position exceeded)
      | Inl error \<Rightarrow> Rejects (Member_failed position error))"

fun carrier_events ::
  "('b, 'x, 'e) compiled_codec \<Rightarrow> emitter_batch_policy \<Rightarrow> ('b, 'k, 'x) packing_carrier list \<Rightarrow>
     ('k, 'x, 'e) row_event list" where
  "carrier_events codec policy [] = []"
| "carrier_events codec policy (carrier # carriers) =
     (case cc_batch_encoder codec (pc_batch carrier) of
        Inl _ \<Rightarrow> []
      | Inr encoder \<Rightarrow> map (event_of_row policy carrier encoder) (pc_rows carrier)) @
     carrier_events codec policy carriers"

fun first_encoder_error ::
  "('b, 'x, 'e) compiled_codec \<Rightarrow> ('b, 'k, 'x) packing_carrier list \<Rightarrow> 'e option" where
  "first_encoder_error codec [] = None"
| "first_encoder_error codec (carrier # carriers) =
     (if pc_rows carrier = [] then first_encoder_error codec carriers
      else case cc_batch_encoder codec (pc_batch carrier) of
          Inl error \<Rightarrow> Some error
        | Inr _ \<Rightarrow> first_encoder_error codec carriers)"

fun row_positions :: "'x packing_row \<Rightarrow> emitter_record_position list" where
  "row_positions Seal = []"
| "row_positions (Ready position _) = [position]"

definition ready_positions :: "('b, 'k, 'x) packing_carrier list \<Rightarrow> emitter_record_position list" where
  "ready_positions carriers = concat (map row_positions (concat (map pc_rows carriers)))"

fun outcome_rows :: "('x, 'e) packed_outcome \<Rightarrow> emitter_record_position list" where
  "outcome_rows (Payload p) = bp_rows p"
| "outcome_rows (Member_failed position _) = [position]"
| "outcome_rows (Row_oversize position _) = [position]"
| "outcome_rows (Container_failed rows _) = rows"

fun event_rows :: "('k, 'x, 'e) row_event \<Rightarrow> emitter_record_position list" where
  "event_rows (Joins m) = [pm_position m]"
| "event_rows (Rejects out) = outcome_rows out"
| "event_rows Seals = []"

text \<open>
  Members that may end together: at most \<open>MAX MESSAGES\<close> of them, consecutive rows with neither a
  rejected row nor a seal between them, each sharing its batch with the first.
\<close>

definition batch_of ::
  "emitter_batch_policy \<Rightarrow> ('k, 'x, 'e) row_event list \<Rightarrow> ('k, 'x) prepared_member list \<Rightarrow> bool" where
  "batch_of policy evs ms \<longleftrightarrow>
     ms \<noteq> [] \<and> length ms \<le> max_messages policy \<and> sublist (map Joins ms) evs \<and>
     list_all (shares_batch_with (hd ms)) ms"

fun outcome_ok ::
  "('b, 'x, 'e) compiled_codec \<Rightarrow> emitter_batch_policy \<Rightarrow> ('k, 'x, 'e) row_event list \<Rightarrow>
     ('x, 'e) packed_outcome \<Rightarrow> bool" where
  "outcome_ok codec policy evs (Payload p) \<longleftrightarrow>
     (\<exists>ms. batch_of policy evs ms \<and> bp_rows p = map pm_position ms \<and> bp_envelope p = pm_envelope (hd ms) \<and>
        cc_encode_batch_within codec (map pm_member ms) (max_size policy) = Inr (Encoded (bp_payload p)))"
| "outcome_ok codec policy evs (Member_failed position error) \<longleftrightarrow>
     Rejects (Member_failed position error) \<in> set evs"
| "outcome_ok codec policy evs (Row_oversize position exceeded) \<longleftrightarrow>
     Rejects (Row_oversize position exceeded) \<in> set evs \<or>
     (\<exists>m. batch_of policy evs [m] \<and> position = pm_position m \<and>
        cc_encode_batch_within codec [pm_member m] (max_size policy) = Inr (Batch_oversize exceeded))"
| "outcome_ok codec policy evs (Container_failed rows error) \<longleftrightarrow>
     (\<exists>ms. batch_of policy evs ms \<and> rows = map pm_position ms \<and>
        cc_encode_batch_within codec (map pm_member ms) (max_size policy) = Inl error)"

lemma batch_of_append: "batch_of policy evs ms \<Longrightarrow> batch_of policy (evs @ later) ms"
  by (auto simp: batch_of_def sublist_append)

lemma outcome_ok_append: "outcome_ok codec policy evs out \<Longrightarrow> outcome_ok codec policy (evs @ later) out"
  by (cases out) (auto dest: batch_of_append)

lemma shares_batch_with_refl [simp]: "shares_batch_with m m"
  by (cases "pm_member m") (simp_all add: shares_batch_with_def)

lemma encode_prepared_simps:
  "encode_prepared codec limit ms = Inr (Fits payload) \<longleftrightarrow>
     cc_encode_batch_within codec (map pm_member ms) limit = Inr (Encoded payload)"
  "encode_prepared codec limit ms = Inr (Exceeds exceeded) \<longleftrightarrow>
     cc_encode_batch_within codec (map pm_member ms) limit = Inr (Batch_oversize exceeded)"
  "encode_prepared codec limit ms = Inl error \<longleftrightarrow>
     cc_encode_batch_within codec (map pm_member ms) limit = Inl error"
  by (auto simp: encode_prepared_def split: sum.split bounded_batch_encoding.split)

lemma candidate_batch:
  assumes "candidate_ok encode shares_batch_with (max_messages policy) members c"
    and "cd_start c < cd_end c" and "cd_end c \<le> length members" and "sublist (map Joins members) evs"
  shows "batch_of policy evs (take (cd_end c - cd_start c) (drop (cd_start c) members))"
proof -
  let ?ms = "take (cd_end c - cd_start c) (drop (cd_start c) members)"
  have hd: "hd ?ms = members ! cd_start c" using assms(2,3) by (simp add: hd_drop_conv_nth hd_take)
  have "shares_batch_with (hd ?ms) (?ms ! i)" if "i < length ?ms" for i
    using that assms(1-3) hd by (cases i) (auto simp: candidate_ok_def)
  then have "list_all (shares_batch_with (hd ?ms)) ?ms" by (simp add: list_all_length)
  moreover have "sublist ?ms members" using sublist_take sublist_drop sublist_order.order_trans by blast
  then have "sublist (map Joins ?ms) evs" using assms(4) map_mono_sublist sublist_order.order_trans by blast
  moreover have "?ms \<noteq> []" "length ?ms \<le> max_messages policy"
    using assms(1-3) by (auto simp: candidate_ok_def)
  ultimately show ?thesis by (simp add: batch_of_def)
qed

lemma candidate_outcome_ok:
  assumes "candidate_ok (encode_prepared codec (max_size policy)) shares_batch_with (max_messages policy) members c"
    and "cd_start c < cd_end c" and "cd_end c \<le> length members" and "sublist (map Joins members) evs"
  shows "\<exists>out. candidate_outcome members c = Some out \<and> outcome_ok codec policy evs out \<and>
    outcome_rows out = map pm_position (take (cd_end c - cd_start c) (drop (cd_start c) members))"
proof -
  let ?ms = "take (cd_end c - cd_start c) (drop (cd_start c) members)"
  have batch: "batch_of policy evs ?ms" using candidate_batch [OF assms] .
  have slice: "slice_range members (cd_start c) (cd_end c) = Some ?ms" using assms(2,3) by (simp add: slice_range_Some)
  obtain m ms where ms: "?ms = m # ms" using batch by (cases ?ms) (auto simp: batch_of_def)
  have res: "result_ok (encode_prepared codec (max_size policy)) ?ms (cd_result c)"
    using assms(1) by (simp add: candidate_ok_def)
  show ?thesis
    using batch slice res unfolding candidate_outcome_def ms
    by (cases "cd_result c") (auto simp: elem_at_def encode_prepared_simps intro: exI [of _ "m # ms"])
qed

lemma candidate_outcomes_ok:
  assumes "tiles s cs (length members)" and "sublist (map Joins members) evs"
    and "list_all (candidate_ok (encode_prepared codec (max_size policy)) shares_batch_with (max_messages policy) members) cs"
  shows "\<exists>outs. candidate_outcomes members cs = Some outs \<and> list_all (outcome_ok codec policy evs) outs \<and>
    concat (map outcome_rows outs) = map pm_position (drop s members)"
  using assms
proof (induction cs arbitrary: s)
  case (Cons c cs)
  then obtain out where out: "candidate_outcome members c = Some out" "outcome_ok codec policy evs out"
    "outcome_rows out = map pm_position (take (cd_end c - cd_start c) (drop (cd_start c) members))"
    using candidate_outcome_ok [of codec policy members c evs] by auto
  obtain outs where "candidate_outcomes members cs = Some outs" "list_all (outcome_ok codec policy evs) outs"
    "concat (map outcome_rows outs) = map pm_position (drop (cd_end c) members)"
    using Cons by auto
  moreover have "drop s members = take (cd_end c - s) (drop s members) @ drop (cd_end c) members"
    using Cons.prems(1) append_take_drop_id [of "cd_end c - s" "drop s members"] by simp
  then have "map pm_position (drop s members) =
      map pm_position (take (cd_end c - s) (drop s members)) @ map pm_position (drop (cd_end c) members)"
    by (metis map_append)
  ultimately show ?case using out Cons.prems(1) by simp
qed simp

section \<open>The packing invariant\<close>

definition rows_of :: "('k, 'x, 'e) row_event list \<Rightarrow> emitter_record_position list" where
  "rows_of evs = concat (map event_rows evs)"

lemma rows_of_simps [simp]:
  "rows_of [] = []"
  "rows_of (ev # evs) = event_rows ev @ rows_of evs"
  "rows_of (evs @ later) = rows_of evs @ rows_of later"
  by (simp_all add: rows_of_def)

text \<open>
  After the events \<open>evs\<close>: the outcomes followed by the open run are the rows in order, the open
  run is the unbroken end of the events, and no row paid for more than 32 subdivisions.
\<close>

fun packing_inv ::
  "('b, 'x, 'e) compiled_codec \<Rightarrow> emitter_batch_policy \<Rightarrow> ('k, 'x, 'e) row_event list \<Rightarrow>
     ('k, 'x, 'e) packing_state \<Rightarrow> bool" where
  "packing_inv codec policy evs (packing, run) \<longleftrightarrow>
     concat (map outcome_rows (bb_outcomes packing)) @ map pm_position run = rows_of evs \<and>
     list_all (outcome_ok codec policy evs) (bb_outcomes packing) \<and>
     suffix (map Joins run) evs \<and>
     bb_subdivisions packing + 32 * length run \<le> 32 * length (rows_of evs)"

definition policy_ok :: "emitter_batch_policy \<Rightarrow> bool" where
  "policy_ok policy \<longleftrightarrow> 0 < max_messages policy \<and> max_messages policy \<le> u32_max"

lemma pack_run_inv:
  assumes "policy_ok policy" and inv: "packing_inv codec policy evs (packing, run)"
    and room: "32 * length (rows_of evs) \<le> u64_max"
  shows "\<exists>packing'. pack_run codec policy (packing, run) = Some (packing', []) \<and>
    packing_inv codec policy evs (packing', [])"
proof (cases "run = []")
  case True
  with inv show ?thesis by simp
next
  case False
  let ?encode = "encode_prepared codec (max_size policy)"
  have limit: "0 < max_messages policy" "max_messages policy \<le> 2 ^ 32"
    using assms(1) by (auto simp: policy_ok_def u32_max_def)
  have count: "bb_subdivisions packing + 32 * length run \<le> 32 * length (rows_of evs)" using inv by simp
  then have "32 * length run \<le> u64_max" using room by linarith
  then obtain cs k where sd: "subdivide run (max_messages policy) shares_batch_with ?encode =
      Some \<lparr>sd_candidates = cs, sd_subdivisions = k\<rparr>"
    and tiles: "tiles 0 cs (length run)" and k: "k \<le> 32 * length run"
    and ok: "list_all (candidate_ok ?encode shares_batch_with (max_messages policy) run) cs"
    using subdivide_from_tiles [OF limit, of 0 run "\<lparr>sd_candidates = [], sd_subdivisions = 0\<rparr>" shares_batch_with ?encode]
    by (auto simp: subdivide_def)
  have "sublist (map Joins run) evs" using inv by (simp add: suffix_imp_sublist)
  then obtain outs where outs: "candidate_outcomes run cs = Some outs"
    "list_all (outcome_ok codec policy evs) outs" "concat (map outcome_rows outs) = map pm_position run"
    using candidate_outcomes_ok [OF tiles _ ok] by auto
  have "checked_add u64_max (bb_subdivisions packing) k = Some (bb_subdivisions packing + k)"
    using count k room by (simp add: checked_add_def)
  then show ?thesis using False sd outs inv k by auto
qed

lemma packing_inv_join:
  "packing_inv codec policy evs (packing, run) \<Longrightarrow>
   packing_inv codec policy (evs @ [Joins m]) (packing, run @ [m])"
  by (auto simp: rows_of_def list_all_iff intro: outcome_ok_append)

lemma packing_inv_seal:
  "packing_inv codec policy evs (packing, []) \<Longrightarrow> packing_inv codec policy (evs @ [Seals]) (packing, [])"
  by (auto simp: rows_of_def list_all_iff intro: outcome_ok_append)

lemma packing_inv_reject:
  "packing_inv codec policy evs (packing, []) \<Longrightarrow> outcome_ok codec policy (evs @ [Rejects out]) out \<Longrightarrow>
   packing_inv codec policy (evs @ [Rejects out]) (push_outcome out (packing, []))"
  by (auto simp: rows_of_def list_all_iff push_outcome_def intro: outcome_ok_append)

declare pack_run.simps [simp del] packing_inv.simps [simp del]

lemma join_run_inv:
  assumes "policy_ok policy" and "packing_inv codec policy evs st"
    and "32 * length (rows_of (evs @ [Joins m])) \<le> u64_max"
  shows "\<exists>st'. join_run codec policy m st = Some st' \<and> packing_inv codec policy (evs @ [Joins m]) st'"
proof -
  have room: "32 * length (rows_of evs) \<le> u64_max" using assms(3) by simp
  obtain packing run where st: "(if snd st \<noteq> [] \<and> \<not> shares_batch_with (hd (snd st)) m
      then pack_run codec policy st else Some st) = Some (packing, run)"
    and "packing_inv codec policy evs (packing, run)"
    using pack_run_inv [OF assms(1) _ room, of codec "fst st" "snd st"] assms(2)
    by (cases st; cases "snd st \<noteq> [] \<and> \<not> shares_batch_with (hd (snd st)) m") auto
  then have inv: "packing_inv codec policy (evs @ [Joins m]) (packing, run @ [m])" by (intro packing_inv_join)
  have "join_run codec policy m st = (if length (run @ [m]) = max_messages policy
      then pack_run codec policy (packing, run @ [m]) else Some (packing, run @ [m]))"
    unfolding join_run_def st by (simp add: Let_def)
  with inv pack_run_inv [OF assms(1) inv assms(3)] show ?thesis by auto
qed

lemma pack_row_inv:
  assumes ev_def: "ev = event_of_row policy carrier encoder row" and "policy_ok policy" and inv: "packing_inv codec policy evs st"
    and room: "32 * length (rows_of (evs @ [ev])) \<le> u64_max"
  shows "\<exists>st'. pack_row codec policy carrier encoder row st = Some st' \<and> packing_inv codec policy (evs @ [ev]) st'"
proof -
  have "32 * length (rows_of evs) \<le> u64_max" using room by simp
  then obtain packing where closed: "pack_run codec policy st = Some (packing, [])"
    and inv': "packing_inv codec policy evs (packing, [])"
    using pack_run_inv [OF assms(2), of codec evs "fst st" "snd st"] inv by (cases st) auto
  show ?thesis
  proof (cases row)
    case Seal
    then show ?thesis using closed packing_inv_seal [OF inv'] by (auto simp: ev_def)
  next
    case (Ready position envelope)
    consider (member) m where "encoder (row_index position) (max_size policy) = Inr (Member m)"
      | (large) x where "encoder (row_index position) (max_size policy) = Inr (Member_oversize x)"
      | (failed) e where "encoder (row_index position) (max_size policy) = Inl e"
      by (metis batch_member_encoding.exhaust sum.exhaust)
    then show ?thesis
    proof cases
      case member
      with Ready show ?thesis using join_run_inv [OF assms(2) inv] room by (simp add: ev_def)
    next
      case large
      with Ready closed show ?thesis using packing_inv_reject [OF inv'] by (simp add: ev_def)
    next
      case failed
      with Ready closed show ?thesis using packing_inv_reject [OF inv'] by (simp add: ev_def)
    qed
  qed
qed

lemma pack_rows_inv:
  assumes "policy_ok policy" and "packing_inv codec policy evs st"
    and "32 * length (rows_of (evs @ map (event_of_row policy carrier encoder) rows)) \<le> u64_max"
  shows "\<exists>st'. pack_rows codec policy carrier encoder rows st = Some st' \<and>
    packing_inv codec policy (evs @ map (event_of_row policy carrier encoder) rows) st'"
  using assms(2,3)
proof (induction rows arbitrary: evs st)
  case (Cons row rows)
  let ?ev = "event_of_row policy carrier encoder row"
  have "32 * length (rows_of (evs @ [?ev])) \<le> u64_max" using Cons.prems(2) by simp
  then obtain st' where st': "pack_row codec policy carrier encoder row st = Some st'"
    "packing_inv codec policy (evs @ [?ev]) st'"
    using pack_row_inv [OF refl assms(1) Cons.prems(1)] by blast
  then show ?case using Cons.IH [OF st'(2)] Cons.prems(2) by simp
qed simp

lemma pack_carriers_inv:
  assumes "policy_ok policy" and "packing_inv codec policy evs st"
    and "32 * length (rows_of (evs @ carrier_events codec policy carriers)) \<le> u64_max"
  shows "case first_encoder_error codec carriers of
      Some error \<Rightarrow> pack_carriers codec policy carriers st = Some (Inl error)
    | None \<Rightarrow> \<exists>st'. pack_carriers codec policy carriers st = Some (Inr st') \<and>
        packing_inv codec policy (evs @ carrier_events codec policy carriers) st'"
  using assms(2,3)
proof (induction carriers arbitrary: evs st)
  case (Cons carrier carriers)
  show ?case
  proof (cases "cc_batch_encoder codec (pc_batch carrier)")
    case (Inl error)
    show ?thesis
    proof (cases "pc_rows carrier = []")
      case True
      with Inl have "pack_carriers codec policy (carrier # carriers) st = pack_carriers codec policy carriers st"
        "first_encoder_error codec (carrier # carriers) = first_encoder_error codec carriers"
        "carrier_events codec policy (carrier # carriers) = carrier_events codec policy carriers" by simp_all
      then show ?thesis using Cons.IH [OF Cons.prems(1)] Cons.prems(2) by (simp only:)
    next
      case False
      with Inl show ?thesis by simp
    qed
  next
    case (Inr encoder)
    let ?evs = "evs @ map (event_of_row policy carrier encoder) (pc_rows carrier)"
    have room: "32 * length (rows_of (?evs @ carrier_events codec policy carriers)) \<le> u64_max"
      using Cons.prems(2) Inr by simp
    then obtain st' where st': "pack_rows codec policy carrier encoder (pc_rows carrier) st = Some st'"
      "packing_inv codec policy ?evs st'"
      using pack_rows_inv [OF assms(1) Cons.prems(1), of carrier encoder "pc_rows carrier"] by auto
    have "pack_carriers codec policy (carrier # carriers) st = pack_carriers codec policy carriers st'"
      using Inr st' by (cases "pc_rows carrier = []") auto
    moreover have "first_encoder_error codec (carrier # carriers) = first_encoder_error codec carriers"
      using Inr by simp
    moreover have "evs @ carrier_events codec policy (carrier # carriers) = ?evs @ carrier_events codec policy carriers"
      using Inr by simp
    ultimately show ?thesis using Cons.IH [OF st'(2) room] by (simp only:)
  qed
qed simp

lemma event_rows_of_row: "event_rows (event_of_row policy carrier encoder row) = row_positions row"
  by (cases row) (auto split: sum.split batch_member_encoding.split)

lemma carrier_events_rows:
  "first_encoder_error codec carriers = None \<Longrightarrow>
   rows_of (carrier_events codec policy carriers) = ready_positions carriers"
  by (induction carriers)
    (auto simp: rows_of_def ready_positions_def event_rows_of_row comp_def split: if_splits sum.splits)

lemma carrier_events_length:
  "length (rows_of (carrier_events codec policy carriers)) \<le> length (ready_positions carriers)"
  by (induction carriers)
    (auto simp: rows_of_def ready_positions_def event_rows_of_row comp_def split: sum.split)

section \<open>Properties\<close>

text \<open>
  C10: packing an emitter's buffered rows accounts for every row once and in order. Unless opening
  a carrier fails, which packing reports as is, packing ends without a panic, and the rows of its
  outcomes, one after the other, are the selected rows in their arrival order. A payload carries at
  most \<open>MAX MESSAGES\<close> rows, all consecutive, with no seal and no rejected row between them, all of
  one relay, branch and envelope, and is what the codec encodes of them within \<open>MAX SIZE\<close>; a row
  ends as oversize only alone. No row costs more than 32 subdivisions.
\<close>

theorem packing_accounts_for_every_row:
  assumes "0 < max_messages policy" and "max_messages policy \<le> u32_max"
    and "32 * length (ready_positions carriers) \<le> u64_max"
  shows "case first_encoder_error codec carriers of
      Some error \<Rightarrow> pack_buffered_batches codec carriers policy = Some (Inl error)
    | None \<Rightarrow> \<exists>packing. pack_buffered_batches codec carriers policy = Some (Inr packing) \<and>
        concat (map outcome_rows (bb_outcomes packing)) = ready_positions carriers \<and>
        list_all (outcome_ok codec policy (carrier_events codec policy carriers)) (bb_outcomes packing) \<and>
        bb_subdivisions packing \<le> 32 * length (ready_positions carriers)"
proof -
  let ?evs = "carrier_events codec policy carriers"
  have ok: "policy_ok policy" using assms(1,2) by (simp add: policy_ok_def)
  have start: "packing_inv codec policy [] (\<lparr>bb_outcomes = [], bb_subdivisions = 0\<rparr>, [])"
    by (simp add: packing_inv.simps rows_of_def)
  have room: "32 * length (rows_of ?evs) \<le> u64_max" using carrier_events_length [of codec policy carriers] assms(3) by linarith
  note run = pack_carriers_inv [OF ok start, of carriers]
  show ?thesis
  proof (cases "first_encoder_error codec carriers")
    case (Some error)
    then show ?thesis using run room by (simp add: pack_buffered_batches_def)
  next
    case None
    then obtain packing members where st: "pack_carriers codec policy carriers (\<lparr>bb_outcomes = [], bb_subdivisions = 0\<rparr>, []) =
        Some (Inr (packing, members))" and inv: "packing_inv codec policy ?evs (packing, members)"
      using run room by auto
    obtain packing' where "pack_run codec policy (packing, members) = Some (packing', [])"
      "packing_inv codec policy ?evs (packing', [])" using pack_run_inv [OF ok inv room] by blast
    then show ?thesis using None st carrier_events_rows [OF None, of policy]
      by (simp add: pack_buffered_batches_def packing_inv.simps)
  qed
qed

text \<open>A codec that frames members by concatenation, over carriers that hold encoded rows.\<close>

definition demo_codec :: "(payload_bytes list, nat, string) compiled_codec" where
  "demo_codec = \<lparr>
     cc_batch_encoder = (\<lambda>rows. Inr (\<lambda>i limit.
       if i < length rows then Inr (Member (Encoded_member (rows ! i))) else Inl ''no such row'')),
     cc_encode_batch_within = (\<lambda>ms limit.
       let bytes = concat (map (\<lambda>m. case m of Encoded_member b \<Rightarrow> b | _ \<Rightarrow> []) ms) in
       if limit < length bytes then Inr (Batch_oversize \<lparr>pl_codec = ''demo'', pl_encoding = ''raw'', pl_limit = limit\<rparr>)
       else Inr (Encoded bytes))\<rparr>"

definition demo_envelope :: "string \<Rightarrow> nat batch_envelope" where
  "demo_envelope grp =
     \<lparr>be_destination = None, be_headers = Text_headers [], be_message_group = Some grp, be_clauses = None\<rparr>"

definition demo_carriers :: "(payload_bytes list, nat, nat) packing_carrier list" where
  "demo_carriers = [
     \<lparr>pc_source_relay = ''orders'', pc_branch_key = None, pc_batch = [[1, 2], [3], [4, 5, 6]],
      pc_rows = [Ready \<lparr>batch_index = 0, row_index = 0\<rparr> (demo_envelope ''a''),
                 Ready \<lparr>batch_index = 0, row_index = 1\<rparr> (demo_envelope ''a''), Seal,
                 Ready \<lparr>batch_index = 0, row_index = 7\<rparr> (demo_envelope ''a'')]\<rparr>,
     \<lparr>pc_source_relay = ''orders'', pc_branch_key = None, pc_batch = [[9]],
      pc_rows = [Ready \<lparr>batch_index = 1, row_index = 0\<rparr> (demo_envelope ''b'')]\<rparr>]"

theorem packing_accounts_for_every_row_witness:
  "\<exists>packing. pack_buffered_batches demo_codec demo_carriers \<lparr>max_messages = 2, max_size = 2\<rparr> = Some (Inr packing) \<and>
     concat (map outcome_rows (bb_outcomes packing)) =
       [\<lparr>batch_index = 0, row_index = 0\<rparr>, \<lparr>batch_index = 0, row_index = 1\<rparr>,
        \<lparr>batch_index = 0, row_index = 7\<rparr>, \<lparr>batch_index = 1, row_index = 0\<rparr>]"
  using packing_accounts_for_every_row [of "\<lparr>max_messages = 2, max_size = 2\<rparr>" demo_carriers demo_codec]
  by (auto simp: demo_carriers_def demo_codec_def ready_positions_def u32_max_def u64_max_def)

end
