(* ===== verification/State_Assignment.thy ===== *)
theory State_Assignment
  imports Prelude
begin

text \<open>
  The authority that fences operations over one runtime state to the assignment they were granted
  under (\<open>src/runtime/state_store.rs\<close>).

  A binding packs an assignment's generation and the capability it grants into one word. An
  operation of \<open>authorize\<close> counts itself in under its token's generation, compares the binding, runs
  and counts itself out. A \<open>rebind\<close> holds the barrier, publishes the successor binding and waits
  until the count of the generation it superseded is zero. Operations of \<open>authorize_exclusive\<close> and
  \<open>serialize_with\<close> hold the barrier.

  The threads are a list of program counters, and a step of the relation \<open>astep\<close> is one atomic access
  of one thread: a load, a store, a read-modify-write, a lock or an unlock. The steps interleave in
  any order and see one memory; the acquire and release orderings that make the code's accesses
  agree with such an order are not modelled. A thread whose access panics has no step.
\<close>

unbundle bit_operations_syntax

section \<open>Bindings\<close>

datatype state_capability = Read_state | Originate | Install_snapshot

fun tag :: "state_capability \<Rightarrow> nat" where
  "tag Read_state = 0"
| "tag Originate = 1"
| "tag Install_snapshot = 2"

definition capability_tag_slots :: nat where
  "capability_tag_slots = push_bit 2 1"

definition capability_tag_mask :: nat where
  "capability_tag_mask = push_bit 2 1 - 1"

definition unassigned :: nat where
  "unassigned = 0"

definition binding_generation :: "nat \<Rightarrow> nat" where
  "binding_generation packed = drop_bit 2 packed"

definition binding_grants :: "nat \<Rightarrow> state_capability \<Rightarrow> bool" where
  "binding_grants packed capability \<longleftrightarrow> packed AND capability_tag_mask = tag capability"

definition token_for :: "nat \<Rightarrow> state_capability \<Rightarrow> nat option" where
  "token_for packed capability = (if binding_grants packed capability then Some packed else None)"

definition successor :: "nat \<Rightarrow> state_capability \<Rightarrow> nat panics" where
  "successor packed capability = do {
     generation \<leftarrow> checked_add u64_max (binding_generation packed) 1;
     scaled \<leftarrow> checked_mul u64_max generation capability_tag_slots;
     Some (scaled OR tag capability)
   }"

record state_replication_roles =
  primary_node :: "string option"
  replica_nodes :: "string list"
  required_replica_acks :: nat

definition local_capability :: "state_replication_roles \<Rightarrow> string option \<Rightarrow> state_capability" where
  "local_capability roles local_node =
     (if primary_node roles = None \<and> replica_nodes roles = [] then Originate
      else if primary_node roles = local_node then Originate
      else case local_node of
          Some node \<Rightarrow> if node \<in> set (replica_nodes roles) then Install_snapshot else Read_state
        | None \<Rightarrow> Read_state)"

lemma tag_less [simp]: "tag capability < 4"
  by (cases capability) simp_all

lemma tag_inject: "tag c = tag d \<longleftrightarrow> c = d"
  by (cases c; cases d) simp_all

lemma binding_generation_div: "binding_generation packed = packed div 4"
  by (simp add: binding_generation_def drop_bit_eq_div)

lemma binding_grants_mod: "binding_grants packed capability \<longleftrightarrow> packed mod 4 = tag capability"
proof -
  have "capability_tag_mask = mask 2" by (simp add: capability_tag_mask_def mask_eq_exp_minus_1)
  then have "packed AND capability_tag_mask = take_bit 2 packed" by (simp only: take_bit_eq_mask)
  then show ?thesis by (simp add: binding_grants_def take_bit_eq_mod)
qed

lemma scaled_or_tag: "(g * 4) OR tag capability = g * 4 + tag capability"
proof -
  have "(g * 4) AND tag capability = 0"
  proof (rule bit_eqI)
    fix n
    have "tag capability = take_bit 2 (tag capability)" by (simp add: take_bit_nat_eq_self)
    then have "n < 2" if "bit (tag capability) n" using that by (metis bit_take_bit_iff)
    moreover have "g * 4 = push_bit 2 g" by (simp add: push_bit_eq_mult)
    then have "\<not> bit (g * 4) n" if "n < 2" using that by (simp add: bit_push_bit_iff)
    ultimately show "bit (g * 4 AND tag capability) n \<longleftrightarrow> bit 0 n" by (auto simp: bit_and_iff)
  qed
  then show ?thesis by (simp add: disjunctive_add_eq_or)
qed

text \<open>The binding that follows has the next generation and grants exactly the capability packed.\<close>

lemma successor_Some:
  "successor packed capability = Some new \<longleftrightarrow>
     new = (binding_generation packed + 1) * 4 + tag capability \<and> (binding_generation packed + 1) * 4 \<le> u64_max"
proof -
  have slots: "capability_tag_slots = 4" by (simp add: capability_tag_slots_def)
  let ?g = "binding_generation packed + 1"
  have "successor packed capability = (if ?g \<le> u64_max \<and> ?g * 4 \<le> u64_max then Some (?g * 4 OR tag capability) else None)"
    unfolding successor_def slots checked_add_def checked_mul_def by simp
  then show ?thesis unfolding scaled_or_tag by auto
qed

lemma unpack: "(g * 4 + tag capability) div 4 = g" "(g * 4 + tag capability) mod 4 = tag capability"
  using tag_less [of capability] by simp_all

lemma successor_generation:
  "successor packed capability = Some new \<Longrightarrow> binding_generation new = binding_generation packed + 1"
  unfolding successor_Some by (elim conjE) (simp only: binding_generation_div unpack)

lemma successor_grants: "successor packed capability = Some new \<Longrightarrow> binding_grants new c \<longleftrightarrow> c = capability"
  unfolding successor_Some by (elim conjE) (simp only: binding_grants_mod unpack, auto simp: tag_inject)

section \<open>Threads and steps\<close>

record state_admissions =
  even_generation :: nat
  odd_generation :: nat

definition of_generation :: "state_admissions \<Rightarrow> nat \<Rightarrow> nat" where
  "of_generation adm generation = (if even generation then even_generation adm else odd_generation adm)"

definition set_of_generation :: "nat \<Rightarrow> nat \<Rightarrow> state_admissions \<Rightarrow> state_admissions" where
  "set_of_generation generation n adm =
     (if even generation then adm\<lparr>even_generation := n\<rparr> else adm\<lparr>odd_generation := n\<rparr>)"

definition admissions_admit :: "nat \<Rightarrow> state_admissions \<Rightarrow> state_admissions panics" where
  "admissions_admit generation adm = do {
     n \<leftarrow> checked_add u64_max (of_generation adm generation) 1;
     Some (set_of_generation generation n adm)
   }"

definition drop_admission :: "nat \<Rightarrow> state_admissions \<Rightarrow> state_admissions panics" where
  "drop_admission generation adm = do {
     n \<leftarrow> checked_sub (of_generation adm generation) 1;
     Some (set_of_generation generation n adm)
   }"

datatype pc =
  Idle
| Counted nat
| Acting nat
| Refused nat
| Exclusive_locked nat state_capability
| Exclusive nat
| Serialize_locked
| Serializing nat
| Rebind_locked state_replication_roles "string option"
| Rebind_roles nat nat
| Waiting nat nat

record state_assignment_authority =
  au_binding :: nat
  au_roles :: state_replication_roles
  au_admissions :: state_admissions
  au_barrier :: "nat option"
  au_threads :: "pc list"

definition authority_default :: "nat \<Rightarrow> state_assignment_authority" where
  "authority_default n =
     \<lparr>au_binding = unassigned,
      au_roles = \<lparr>primary_node = None, replica_nodes = [], required_replica_acks = 0\<rparr>,
      au_admissions = \<lparr>even_generation = 0, odd_generation = 0\<rparr>,
      au_barrier = None, au_threads = replicate n Idle\<rparr>"

definition at_pc :: "state_assignment_authority \<Rightarrow> nat \<Rightarrow> pc \<Rightarrow> bool" where
  "at_pc s t p \<longleftrightarrow> t < length (au_threads s) \<and> au_threads s ! t = p"

definition goes :: "nat \<Rightarrow> pc \<Rightarrow> state_assignment_authority \<Rightarrow> state_assignment_authority" where
  "goes t p s = s\<lparr>au_threads := (au_threads s)[t := p]\<rparr>"

text \<open>
  \<open>authorize\<close>, \<open>authorize_exclusive\<close>, \<open>serialize_with\<close> and \<open>rebind\<close>, one rule per atomic access.
  A call of \<open>authorize\<close> whose token does not grant the capability touches nothing.
\<close>

inductive astep :: "state_assignment_authority \<Rightarrow> nat \<Rightarrow> state_assignment_authority \<Rightarrow> bool" where
  authorize_admit:
    "at_pc s t Idle \<Longrightarrow> binding_grants token required \<Longrightarrow>
     admissions_admit (binding_generation token) (au_admissions s) = Some adm \<Longrightarrow>
     astep s t (goes t (Counted token) (s\<lparr>au_admissions := adm\<rparr>))"
| authorize_current:
    "at_pc s t (Counted token) \<Longrightarrow> au_binding s = token \<Longrightarrow> astep s t (goes t (Acting token) s)"
| authorize_refuse:
    "at_pc s t (Counted token) \<Longrightarrow> au_binding s \<noteq> token \<Longrightarrow> astep s t (goes t (Refused token) s)"
| authorize_finish:
    "at_pc s t (Acting token) \<or> at_pc s t (Refused token) \<Longrightarrow>
     drop_admission (binding_generation token) (au_admissions s) = Some adm \<Longrightarrow>
     astep s t (goes t Idle (s\<lparr>au_admissions := adm\<rparr>))"
| exclusive_lock:
    "at_pc s t Idle \<Longrightarrow> au_barrier s = None \<Longrightarrow>
     astep s t (goes t (Exclusive_locked token required) (s\<lparr>au_barrier := Some t\<rparr>))"
| exclusive_current:
    "at_pc s t (Exclusive_locked token required) \<Longrightarrow> binding_grants token required \<Longrightarrow> au_binding s = token \<Longrightarrow>
     astep s t (goes t (Exclusive token) s)"
| exclusive_refuse:
    "at_pc s t (Exclusive_locked token required) \<Longrightarrow> \<not> binding_grants token required \<or> au_binding s \<noteq> token \<Longrightarrow>
     astep s t (goes t Idle (s\<lparr>au_barrier := None\<rparr>))"
| exclusive_finish:
    "at_pc s t (Exclusive token) \<Longrightarrow> astep s t (goes t Idle (s\<lparr>au_barrier := None\<rparr>))"
| serialize_lock:
    "at_pc s t Idle \<Longrightarrow> au_barrier s = None \<Longrightarrow> astep s t (goes t Serialize_locked (s\<lparr>au_barrier := Some t\<rparr>))"
| serialize_read:
    "at_pc s t Serialize_locked \<Longrightarrow> astep s t (goes t (Serializing (au_binding s)) s)"
| serialize_finish:
    "at_pc s t (Serializing b) \<Longrightarrow> astep s t (goes t Idle (s\<lparr>au_barrier := None\<rparr>))"
| rebind_lock:
    "at_pc s t Idle \<Longrightarrow> au_barrier s = None \<Longrightarrow>
     astep s t (goes t (Rebind_locked roles local_node) (s\<lparr>au_barrier := Some t\<rparr>))"
| rebind_roles:
    "at_pc s t (Rebind_locked roles local_node) \<Longrightarrow>
     successor (au_binding s) (local_capability roles local_node) = Some new \<Longrightarrow>
     astep s t (goes t (Rebind_roles (au_binding s) new) (s\<lparr>au_roles := roles\<rparr>))"
| rebind_store:
    "at_pc s t (Rebind_roles superseded new) \<Longrightarrow> astep s t (goes t (Waiting superseded new) (s\<lparr>au_binding := new\<rparr>))"
| rebind_spin:
    "at_pc s t (Waiting superseded new) \<Longrightarrow>
     of_generation (au_admissions s) (binding_generation superseded) \<noteq> 0 \<Longrightarrow> astep s t s"
| rebind_return:
    "at_pc s t (Waiting superseded new) \<Longrightarrow>
     of_generation (au_admissions s) (binding_generation superseded) = 0 \<Longrightarrow>
     astep s t (goes t Idle (s\<lparr>au_barrier := None\<rparr>))"

inductive areachable :: "nat \<Rightarrow> state_assignment_authority \<Rightarrow> bool" for n where
  areachable_start: "areachable n (authority_default n)"
| areachable_step: "areachable n s \<Longrightarrow> astep s t s' \<Longrightarrow> areachable n s'"

inductive_cases astepE: "astep s t s'"

section \<open>The protocol's invariant\<close>

fun counted_under :: "pc \<Rightarrow> nat option" where
  "counted_under (Counted token) = Some (binding_generation token)"
| "counted_under (Acting token) = Some (binding_generation token)"
| "counted_under (Refused token) = Some (binding_generation token)"
| "counted_under _ = None"

fun holds_barrier :: "pc \<Rightarrow> bool" where
  "holds_barrier (Exclusive_locked _ _) = True"
| "holds_barrier (Exclusive _) = True"
| "holds_barrier Serialize_locked = True"
| "holds_barrier (Serializing _) = True"
| "holds_barrier (Rebind_locked _ _) = True"
| "holds_barrier (Rebind_roles _ _) = True"
| "holds_barrier (Waiting _ _) = True"
| "holds_barrier _ = False"

definition counts :: "bool \<Rightarrow> pc \<Rightarrow> bool" where
  "counts parity p \<longleftrightarrow> (case counted_under p of Some g \<Rightarrow> even g = parity | None \<Rightarrow> False)"

definition counted :: "bool \<Rightarrow> pc list \<Rightarrow> nat" where
  "counted parity ps = length (filter (counts parity) ps)"

lemma counted_update:
  "t < length ps \<Longrightarrow> counted parity (ps[t := p]) + (if counts parity (ps ! t) then 1 else 0) =
     counted parity ps + (if counts parity p then 1 else 0)"
proof (induction ps arbitrary: t)
  case (Cons q ps)
  then show ?case by (cases t) (auto simp: counted_def)
qed simp

lemma counted_le: "counted parity ps \<le> length ps"
  by (simp add: counted_def)

lemma counted_pos: "t < length ps \<Longrightarrow> counts parity (ps ! t) \<Longrightarrow> 0 < counted parity ps"
  by (auto simp: counted_def filter_empty_conv)

definition counts_exact :: "state_assignment_authority \<Rightarrow> bool" where
  "counts_exact s \<longleftrightarrow>
     even_generation (au_admissions s) = counted True (au_threads s) \<and>
     odd_generation (au_admissions s) = counted False (au_threads s)"

definition barrier_exact :: "state_assignment_authority \<Rightarrow> bool" where
  "barrier_exact s \<longleftrightarrow>
     (\<forall>t < length (au_threads s). holds_barrier (au_threads s ! t) \<longleftrightarrow> au_barrier s = Some t)"

text \<open>What the program counter of a thread says of the shared words.\<close>

definition pc_ok :: "state_assignment_authority \<Rightarrow> pc \<Rightarrow> bool" where
  "pc_ok s p \<longleftrightarrow> (case p of
     Acting token \<Rightarrow> token = au_binding s \<or> Waiting token (au_binding s) \<in> set (au_threads s)
   | Exclusive token \<Rightarrow> token = au_binding s
   | Serializing b \<Rightarrow> b = au_binding s
   | Rebind_roles superseded new \<Rightarrow>
       superseded = au_binding s \<and> binding_generation new = binding_generation superseded + 1
   | Waiting superseded new \<Rightarrow>
       new = au_binding s \<and> binding_generation new = binding_generation superseded + 1
   | _ \<Rightarrow> True)"

definition fenced :: "state_assignment_authority \<Rightarrow> bool" where
  "fenced s \<longleftrightarrow> counts_exact s \<and> barrier_exact s \<and> list_all (pc_ok s) (au_threads s)"

lemma goes_simps [simp]:
  "au_threads (goes t p s) = (au_threads s)[t := p]"
  "au_binding (goes t p s) = au_binding s"
  "au_barrier (goes t p s) = au_barrier s"
  "au_admissions (goes t p s) = au_admissions s"
  "au_roles (goes t p s) = au_roles s"
  by (simp_all add: goes_def)

lemma counts_exact_update [simp]:
  "counts_exact (s\<lparr>au_binding := b\<rparr>) = counts_exact s"
  "counts_exact (s\<lparr>au_roles := r\<rparr>) = counts_exact s"
  "counts_exact (s\<lparr>au_barrier := h\<rparr>) = counts_exact s"
  by (simp_all add: counts_exact_def)

lemma counts_exact_goes:
  "t < length (au_threads s) \<Longrightarrow> counted_under (au_threads s ! t) = counted_under p \<Longrightarrow>
   counts_exact (goes t p s) = counts_exact s"
  using counted_update [of t "au_threads s" True p] counted_update [of t "au_threads s" False p]
  by (simp add: counts_exact_def counts_def)

lemma counts_exact_admit:
  assumes "counts_exact s" and "at_pc s t Idle" and "admissions_admit (binding_generation token) (au_admissions s) = Some adm"
  shows "counts_exact (goes t (Counted token) (s\<lparr>au_admissions := adm\<rparr>))"
  using assms counted_update [of t "au_threads s" True "Counted token"]
    counted_update [of t "au_threads s" False "Counted token"]
  by (auto simp: counts_exact_def counts_def at_pc_def admissions_admit_def of_generation_def set_of_generation_def
      checked_add_def split: if_splits)

lemma counts_exact_finish:
  assumes "counts_exact s" and "at_pc s t (Acting token) \<or> at_pc s t (Refused token)"
    and "drop_admission (binding_generation token) (au_admissions s) = Some adm"
  shows "counts_exact (goes t Idle (s\<lparr>au_admissions := adm\<rparr>))"
  using assms counted_update [of t "au_threads s" True Idle] counted_update [of t "au_threads s" False Idle]
  by (auto simp: counts_exact_def counts_def at_pc_def drop_admission_def of_generation_def set_of_generation_def
      checked_sub_def split: if_splits)

lemma astep_counts_exact: "astep s t s' \<Longrightarrow> counts_exact s \<Longrightarrow> counts_exact s'"
proof (induction rule: astep.induct)
  case (authorize_admit s t token required adm)
  then show ?case by (intro counts_exact_admit)
next
  case (authorize_finish s t token adm)
  then show ?case by (intro counts_exact_finish)
qed (auto simp: at_pc_def counts_exact_goes)

lemma barrier_exact_update [simp]:
  "barrier_exact (s\<lparr>au_binding := b\<rparr>) = barrier_exact s"
  "barrier_exact (s\<lparr>au_roles := r\<rparr>) = barrier_exact s"
  "barrier_exact (s\<lparr>au_admissions := a\<rparr>) = barrier_exact s"
  by (simp_all add: barrier_exact_def)

lemma barrier_exact_goes:
  "t < length (au_threads s) \<Longrightarrow> holds_barrier p = holds_barrier (au_threads s ! t) \<Longrightarrow>
   barrier_exact (goes t p s) = barrier_exact s"
  by (auto simp: barrier_exact_def nth_list_update)

lemma barrier_exact_lock:
  "t < length (au_threads s) \<Longrightarrow> barrier_exact s \<Longrightarrow> au_barrier s = None \<Longrightarrow> holds_barrier p \<Longrightarrow>
   barrier_exact (goes t p (s\<lparr>au_barrier := Some t\<rparr>))"
  by (auto simp: barrier_exact_def nth_list_update)

lemma barrier_exact_unlock:
  "t < length (au_threads s) \<Longrightarrow> barrier_exact s \<Longrightarrow> holds_barrier (au_threads s ! t) \<Longrightarrow>
   barrier_exact (goes t Idle (s\<lparr>au_barrier := None\<rparr>))"
  by (auto simp: barrier_exact_def nth_list_update)

lemma astep_barrier_exact: "astep s t s' \<Longrightarrow> barrier_exact s \<Longrightarrow> barrier_exact s'"
  by (induction rule: astep.induct)
    (auto simp: at_pc_def barrier_exact_goes intro: barrier_exact_lock barrier_exact_unlock)

text \<open>The barrier has one holder, so a thread at its barrier is the only one there.\<close>

lemma one_holder:
  "barrier_exact s \<Longrightarrow> at_pc s t p \<Longrightarrow> holds_barrier p \<Longrightarrow> q \<in> set (au_threads s) \<Longrightarrow> holds_barrier q \<Longrightarrow> q = p"
  by (auto simp: barrier_exact_def at_pc_def in_set_conv_nth)

lemma other_threads_barrier:
  assumes "barrier_exact s" and "at_pc s t p" and "holds_barrier p" and "i < length (au_threads s)" and "i \<noteq> t"
  shows "\<not> holds_barrier (au_threads s ! i)"
proof -
  have "au_barrier s = Some t" using assms(1-3) by (auto simp: barrier_exact_def at_pc_def)
  with assms(1,4,5) show ?thesis by (simp add: barrier_exact_def)
qed

lemma waiting_unique:
  "barrier_exact s \<Longrightarrow> at_pc s t p \<Longrightarrow> holds_barrier p \<Longrightarrow> Waiting superseded new \<in> set (au_threads s) \<Longrightarrow>
   p = Waiting superseded new"
  using one_holder [of s t p "Waiting superseded new"] by simp

text \<open>A step of one thread keeps what the others say, as long as the binding stays and no rebind returns.\<close>

lemma pc_ok_keep:
  assumes "list_all (pc_ok s) (au_threads s)" and "at_pc s t q" and "au_binding s' = au_binding s"
    and "au_threads s' = (au_threads s)[t := p]" and "\<And>a b. q \<noteq> Waiting a b" and "pc_ok s p"
  shows "list_all (pc_ok s') (au_threads s')"
proof -
  have "Waiting a b \<in> set (au_threads s')" if "Waiting a b \<in> set (au_threads s)" for a b
  proof -
    obtain i where "i < length (au_threads s)" "au_threads s ! i = Waiting a b" using \<open>Waiting a b \<in> set (au_threads s)\<close>
      by (auto simp: in_set_conv_nth)
    moreover from this assms(2,5) have "i \<noteq> t" by (auto simp: at_pc_def)
    ultimately show ?thesis unfolding assms(4) by (auto simp: in_set_conv_nth nth_list_update intro!: exI [of _ i])
  qed
  then have "pc_ok s' r" if "pc_ok s r" for r
    using that assms(3) by (cases r) (auto simp: pc_ok_def)
  then show ?thesis using assms(1,6) unfolding assms(4) list_all_iff by (auto dest: set_update_subset_insert [THEN subsetD])
qed

text \<open>The rebind that returns found no operation left under the binding it superseded.\<close>

lemma none_acting_superseded:
  assumes "counts_exact s" and "of_generation (au_admissions s) (binding_generation superseded) = 0"
  shows "Acting superseded \<notin> set (au_threads s)"
proof
  assume "Acting superseded \<in> set (au_threads s)"
  then obtain i where "i < length (au_threads s)" "au_threads s ! i = Acting superseded" by (auto simp: in_set_conv_nth)
  then have "0 < counted (even (binding_generation superseded)) (au_threads s)"
    by (intro counted_pos [of i]) (simp_all add: counts_def)
  with assms show False by (auto simp: counts_exact_def of_generation_def split: if_splits)
qed

lemma acting_current:
  assumes "list_all (pc_ok s) (au_threads s)" and "Acting token \<in> set (au_threads s)"
    and "\<And>superseded new. Waiting superseded new \<in> set (au_threads s) \<Longrightarrow> superseded \<noteq> token"
  shows "token = au_binding s"
proof -
  have "pc_ok s (Acting token)" using assms(1,2) by (simp add: list_all_iff)
  with assms(3) show ?thesis by (auto simp: pc_ok_def)
qed

lemma pc_ok_return:
  assumes "fenced s" and "at_pc s t (Waiting superseded new)"
    and "of_generation (au_admissions s) (binding_generation superseded) = 0"
  shows "list_all (pc_ok (goes t Idle (s\<lparr>au_barrier := None\<rparr>))) ((au_threads s)[t := Idle])"
proof -
  have only: "Waiting a b = Waiting superseded new" if "Waiting a b \<in> set (au_threads s)" for a b
    using that waiting_unique [of s t "Waiting superseded new" a b] assms(1,2) by (auto simp: fenced_def)
  have acting: "token = au_binding s" if "Acting token \<in> set (au_threads s)" for token
    using that only acting_current [of s token] none_acting_superseded [of s superseded] assms by (auto simp: fenced_def)
  have "pc_ok (goes t Idle (s\<lparr>au_barrier := None\<rparr>)) p" if "p \<in> set (au_threads s)" for p
  proof -
    have "pc_ok s p" using assms(1) \<open>p \<in> set (au_threads s)\<close> by (simp add: fenced_def list_all_iff)
    with that acting show ?thesis by - (cases p, auto simp: pc_ok_def)
  qed
  moreover have "pc_ok (goes t Idle (s\<lparr>au_barrier := None\<rparr>)) Idle" by (simp add: pc_ok_def)
  ultimately show ?thesis by (auto simp: list_all_iff dest: set_update_subset_insert [THEN subsetD])
qed

lemma pc_ok_store:
  assumes "fenced s" and at: "at_pc s t (Rebind_roles superseded new)"
  shows "list_all (pc_ok (goes t (Waiting superseded new) (s\<lparr>au_binding := new\<rparr>))) ((au_threads s)[t := Waiting superseded new])"
proof -
  let ?s = "goes t (Waiting superseded new) (s\<lparr>au_binding := new\<rparr>)"
  have inv: "barrier_exact s" "list_all (pc_ok s) (au_threads s)" using assms(1) by (simp_all add: fenced_def)
  have t: "t < length (au_threads s)" "Rebind_roles superseded new \<in> set (au_threads s)"
    using at by (auto simp: at_pc_def in_set_conv_nth)
  then have "pc_ok s (Rebind_roles superseded new)" using inv(2) by (simp add: list_all_iff)
  then have old: "superseded = au_binding s" "binding_generation new = binding_generation superseded + 1"
    by (simp_all add: pc_ok_def)
  have here: "Waiting superseded new \<in> set (au_threads ?s)" using t by (simp add: set_update_memI)
  have "pc_ok ?s p" if p: "p \<in> set (au_threads s)" "p \<noteq> Rebind_roles superseded new" for p
  proof (cases "holds_barrier p")
    case True
    then show ?thesis using one_holder [OF inv(1) at _ p(1)] p(2) by simp
  next
    case False
    have "token = superseded" if "p = Acting token" for token
      using that p(1) acting_current [OF inv(2), of token] waiting_unique [OF inv(1) at] old by auto
    with False here show ?thesis by (cases p) (auto simp: pc_ok_def)
  qed
  moreover have "pc_ok ?s (Waiting superseded new)" using old by (simp add: pc_ok_def)
  moreover have "au_threads s ! i \<noteq> Rebind_roles superseded new" if "i < length (au_threads s)" "i \<noteq> t" for i
    using other_threads_barrier [OF inv(1) at _ that] by auto
  ultimately show ?thesis using t(1) by (auto simp: list_all_length nth_list_update)
qed

lemma pc_ok_goes:
  "at_pc s t q \<Longrightarrow> list_all (pc_ok s) (au_threads s) \<Longrightarrow> au_binding s' = au_binding s \<Longrightarrow>
   au_threads s' = au_threads s \<Longrightarrow> \<forall>a b. q \<noteq> Waiting a b \<Longrightarrow> pc_ok s p \<Longrightarrow>
   list_all (pc_ok (goes t p s')) (au_threads (goes t p s'))"
  using pc_ok_keep [of s t q "goes t p s'" p] by simp

lemma astep_pc_ok:
  assumes "astep s t s'" and "fenced s"
  shows "list_all (pc_ok s') (au_threads s')"
proof -
  have inv: "list_all (pc_ok s) (au_threads s)" using assms(2) by (simp add: fenced_def)
  from assms(1) show ?thesis
  proof cases
    case (rebind_store superseded new)
    then show ?thesis using pc_ok_store [OF assms(2)] by simp
  next
    case (rebind_return superseded new)
    then show ?thesis using pc_ok_return [OF assms(2)] by simp
  next
    case (rebind_roles roles local_node new)
    then show ?thesis using successor_generation by (intro pc_ok_keep [OF inv]) (auto simp: pc_ok_def)
  next
    case (authorize_finish token adm)
    then obtain q where "at_pc s t q" "\<And>a b. q \<noteq> Waiting a b" by blast
    with authorize_finish show ?thesis by (intro pc_ok_keep [OF inv, of t q s' Idle]) (auto simp: pc_ok_def)
  next
    case rebind_spin
    then show ?thesis using inv by simp
  next
    case (authorize_admit token required adm)
    show ?thesis unfolding authorize_admit(1)
      by (rule pc_ok_goes [OF authorize_admit(2) inv]) (simp_all add: pc_ok_def)
  next
    case (exclusive_lock token required)
    show ?thesis unfolding exclusive_lock(1)
      by (rule pc_ok_goes [OF exclusive_lock(2) inv]) (simp_all add: pc_ok_def)
  next
    case serialize_lock
    show ?thesis unfolding serialize_lock(1)
      by (rule pc_ok_goes [OF serialize_lock(2) inv]) (simp_all add: pc_ok_def)
  next
    case (rebind_lock roles local_node)
    show ?thesis unfolding rebind_lock(1)
      by (rule pc_ok_goes [OF rebind_lock(2) inv]) (simp_all add: pc_ok_def)
  qed (simp only: , erule pc_ok_goes [OF _ inv], (simp add: pc_ok_def; fail)+)+
qed

lemma astep_fenced: "astep s t s' \<Longrightarrow> fenced s \<Longrightarrow> fenced s'"
  using astep_counts_exact astep_barrier_exact astep_pc_ok by (auto simp: fenced_def)

lemma areachable_fenced: "areachable n s \<Longrightarrow> fenced s"
proof (induction rule: areachable.induct)
  case areachable_start
  have "filter (counts parity) (replicate n Idle) = []" for parity by (simp add: filter_empty_conv counts_def)
  then have "counts_exact (authority_default n)" by (simp add: counts_exact_def counted_def authority_default_def)
  moreover have "barrier_exact (authority_default n)" by (simp add: barrier_exact_def authority_default_def)
  moreover have "pc_ok s Idle" for s by (simp add: pc_ok_def)
  then have "list_all (pc_ok (authority_default n)) (au_threads (authority_default n))"
    by (simp add: list_all_length authority_default_def)
  ultimately show ?case by (simp add: fenced_def)
next
  case (areachable_step s t s')
  then show ?case using astep_fenced by blast
qed

lemma astep_threads: "astep s t s' \<Longrightarrow> length (au_threads s') = length (au_threads s)"
  by (induction rule: astep.induct) simp_all

lemma areachable_threads: "areachable n s \<Longrightarrow> length (au_threads s) = n"
  by (induction rule: areachable.induct) (simp_all add: authority_default_def astep_threads)

section \<open>A rebind returns\<close>

fun remaining :: "pc \<Rightarrow> nat" where
  "remaining (Counted _) = 2"
| "remaining (Acting _) = 1"
| "remaining (Refused _) = 1"
| "remaining _ = 0"

text \<open>A counted operation always has a step, which brings it nearer to its end and nobody else further.\<close>

lemma counted_steps:
  assumes "fenced s" and "t < length (au_threads s)" and "counted_under (au_threads s ! t) = Some g"
  shows "\<exists>p s'. astep s t s' \<and> au_threads s' = (au_threads s)[t := p] \<and> au_binding s' = au_binding s \<and>
    remaining p < remaining (au_threads s ! t)"
proof -
  have "0 < counted (even g) (au_threads s)"
    using counted_pos [OF assms(2), of "even g"] assms(3) by (simp add: counts_def)
  then have pos: "0 < of_generation (au_admissions s) g"
    using assms(1) by (auto simp: fenced_def counts_exact_def of_generation_def)
  then obtain adm where adm: "drop_admission g (au_admissions s) = Some adm"
    by (auto simp: drop_admission_def checked_sub_def)
  have at: "at_pc s t (au_threads s ! t)" using assms(2) by (simp add: at_pc_def)
  show ?thesis
  proof (cases "au_threads s ! t")
    case (Counted token)
    then show ?thesis using at authorize_current [of s t token] authorize_refuse [of s t token]
      by (cases "au_binding s = token") force+
  next
    case (Acting token)
    then show ?thesis using at assms(3) adm authorize_finish [of s t token adm] by force
  next
    case (Refused token)
    then show ?thesis using at assms(3) adm authorize_finish [of s t token adm] by force
  qed (use assms(3) in simp_all)
qed

inductive asteps :: "state_assignment_authority \<Rightarrow> state_assignment_authority \<Rightarrow> bool" where
  asteps_refl: "asteps s s"
| asteps_step: "astep s t s' \<Longrightarrow> asteps s' s'' \<Longrightarrow> asteps s s''"

lemma sum_list_update_less:
  "t < length ps \<Longrightarrow> f p < f (ps ! t) \<Longrightarrow> sum_list (map f (ps[t := p])) < sum_list (map f (ps :: pc list) :: nat list)"
proof (induction ps arbitrary: t)
  case (Cons q ps)
  then show ?case by (cases t) auto
qed simp

lemma waiting_returns:
  assumes "fenced s" and "at_pc s t (Waiting superseded new)"
  shows "\<exists>s'. asteps s s' \<and> at_pc s' t Idle \<and> au_binding s' = au_binding s"
  using assms
proof (induction "sum_list (map remaining (au_threads s))" arbitrary: s rule: less_induct)
  case less
  show ?case
  proof (cases "of_generation (au_admissions s) (binding_generation superseded) = 0")
    case True
    let ?s = "goes t Idle (s\<lparr>au_barrier := None\<rparr>)"
    have "astep s t ?s" using less.prems(2) True by (rule rebind_return)
    moreover have "at_pc ?s t Idle \<and> au_binding ?s = au_binding s" using less.prems(2) by (simp add: at_pc_def)
    ultimately show ?thesis by (blast intro: asteps.intros)
  next
    case False
    then have "counted (even (binding_generation superseded)) (au_threads s) \<noteq> 0"
      using less.prems(1) by (auto simp: fenced_def counts_exact_def of_generation_def split: if_splits)
    then obtain p where "p \<in> set (au_threads s)" "counts (even (binding_generation superseded)) p"
      by (auto simp: counted_def filter_empty_conv)
    then obtain i g where i: "i < length (au_threads s)" "counted_under (au_threads s ! i) = Some g"
      by (auto simp: counts_def in_set_conv_nth split: option.splits)
    then obtain p s' where s': "astep s i s'" "au_threads s' = (au_threads s)[i := p]"
      "au_binding s' = au_binding s" "remaining p < remaining (au_threads s ! i)" using counted_steps [OF less.prems(1)] by blast
    have "i \<noteq> t" using i less.prems(2) by (auto simp: at_pc_def)
    then have "at_pc s' t (Waiting superseded new)" using s'(2) less.prems(2) by (simp add: at_pc_def)
    moreover have "sum_list (map remaining (au_threads s')) < sum_list (map remaining (au_threads s))"
      unfolding s'(2) using i(1) s'(4) by (rule sum_list_update_less)
    ultimately obtain s'' where "asteps s' s''" "at_pc s'' t Idle" "au_binding s'' = au_binding s'"
      using less.hyps astep_fenced [OF s'(1) less.prems(1)] by blast
    then show ?thesis using s'(1,3) asteps_step by metis
  qed
qed

text \<open>With fewer threads than the counters can count, counting an operation in never panics.\<close>

lemma admit_never_panics:
  assumes "areachable n s" and "n \<le> u64_max" and "at_pc s t Idle"
  shows "\<exists>adm. admissions_admit generation (au_admissions s) = Some adm"
proof -
  have exact: "counts_exact s" using areachable_fenced [OF assms(1)] by (simp add: fenced_def)
  have "counted parity (au_threads s) < n" for parity
    using counted_update [of t "au_threads s" parity "Acting (if parity then 0 else 4)"]
      counted_le [of parity "(au_threads s)[t := Acting (if parity then 0 else 4)]"] assms(3) areachable_threads [OF assms(1)]
    by (cases parity) (simp_all add: at_pc_def counts_def binding_generation_div)
  then have "of_generation (au_admissions s) generation < n" using exact by (simp add: counts_exact_def of_generation_def)
  then show ?thesis using assms(2) by (simp add: admissions_admit_def checked_add_def)
qed

section \<open>Properties\<close>

text \<open>
  C6: an assignment that was superseded runs nothing once its successor is in force. In every
  interleaving, an operation admitted under a token runs only while that token is the binding in
  force or while the rebind that supersedes exactly that binding still waits for it. An exclusive
  operation or a capture runs alone at the barrier, under the binding in force, with no operation of
  another assignment beside it. When a rebind returns, its binding is in force and every operation
  still running was admitted under it.
\<close>

theorem superseded_operations_finished:
  assumes "areachable n s"
  shows "(\<forall>t token. at_pc s t (Acting token) \<longrightarrow>
      token = au_binding s \<or> (\<exists>j. at_pc s j (Waiting token (au_binding s)))) \<and>
    (\<forall>t p. at_pc s t (Exclusive p) \<or> at_pc s t (Serializing p) \<longrightarrow>
      p = au_binding s \<and> (\<forall>i token. at_pc s i (Acting token) \<longrightarrow> token = p) \<and>
      (\<forall>i q. at_pc s i q \<longrightarrow> holds_barrier q \<longrightarrow> i = t)) \<and>
    (\<forall>t superseded new s'. at_pc s t (Waiting superseded new) \<longrightarrow> astep s t s' \<longrightarrow> at_pc s' t Idle \<longrightarrow>
      au_binding s' = new \<and> (\<forall>i token. at_pc s' i (Acting token) \<longrightarrow> token = new))"
proof (intro conjI)
  have inv: "fenced s" "barrier_exact s" "list_all (pc_ok s) (au_threads s)"
    using areachable_fenced [OF assms] by (simp_all add: fenced_def)
  have ok: "pc_ok s p" if "at_pc s t p" for t p using inv(3) that by (auto simp: at_pc_def list_all_length)
  show "\<forall>t token. at_pc s t (Acting token) \<longrightarrow>
      token = au_binding s \<or> (\<exists>j. at_pc s j (Waiting token (au_binding s)))"
    using ok by (fastforce simp: pc_ok_def at_pc_def in_set_conv_nth)
  show "\<forall>t p. at_pc s t (Exclusive p) \<or> at_pc s t (Serializing p) \<longrightarrow>
      p = au_binding s \<and> (\<forall>i token. at_pc s i (Acting token) \<longrightarrow> token = p) \<and>
      (\<forall>i q. at_pc s i q \<longrightarrow> holds_barrier q \<longrightarrow> i = t)"
  proof (intro allI impI)
    fix t p assume "at_pc s t (Exclusive p) \<or> at_pc s t (Serializing p)"
    then obtain q where q: "at_pc s t q" "holds_barrier q" "\<And>a b. q \<noteq> Waiting a b" and p: "p = au_binding s"
      using ok by (fastforce simp: pc_ok_def)
    have "token = p" if "at_pc s i (Acting token)" for i token
      using ok [OF that] waiting_unique [OF inv(2) q(1,2)] q(3) p by (auto simp: pc_ok_def)
    moreover have "i = t" if "at_pc s i r" "holds_barrier r" for i r
      using other_threads_barrier [OF inv(2) q(1,2), of i] that by (auto simp: at_pc_def)
    ultimately show "p = au_binding s \<and> (\<forall>i token. at_pc s i (Acting token) \<longrightarrow> token = p) \<and>
      (\<forall>i q. at_pc s i q \<longrightarrow> holds_barrier q \<longrightarrow> i = t)" using p by blast
  qed
  show "\<forall>t superseded new s'. at_pc s t (Waiting superseded new) \<longrightarrow> astep s t s' \<longrightarrow> at_pc s' t Idle \<longrightarrow>
      au_binding s' = new \<and> (\<forall>i token. at_pc s' i (Acting token) \<longrightarrow> token = new)"
  proof (intro allI impI)
    fix t superseded new s'
    assume at: "at_pc s t (Waiting superseded new)" and step: "astep s t s'" and idle: "at_pc s' t Idle"
    have "s' = goes t Idle (s\<lparr>au_barrier := None\<rparr>)"
      using step at idle by cases (auto simp: at_pc_def)
    moreover have "new = au_binding s" using ok [OF at] by (simp add: pc_ok_def)
    ultimately have bind: "au_binding s' = new" by simp
    have after: "barrier_exact s'" "au_barrier s' = None" "list_all (pc_ok s') (au_threads s')"
      using astep_fenced [OF step inv(1)] \<open>s' = _\<close> by (simp_all add: fenced_def)
    have "\<not> holds_barrier q" if "q \<in> set (au_threads s')" for q
      using after(1,2) that by (auto simp: barrier_exact_def in_set_conv_nth)
    then have none: "Waiting a b \<notin> set (au_threads s')" for a b by force
    have "token = new" if "at_pc s' i (Acting token)" for i token
      using acting_current [OF after(3), of token] none that bind by (auto simp: at_pc_def in_set_conv_nth)
    with bind show "au_binding s' = new \<and> (\<forall>i token. at_pc s' i (Acting token) \<longrightarrow> token = new)" by blast
  qed
qed

text \<open>
  C27: a rebind always can return. From every reachable state in which a rebind waits, the
  operations counted in can finish, each in at most two steps of its own, and then the rebind
  returns with its binding in force: no operation waits for a rebind, so none keeps it from returning.
\<close>

theorem waiting_rebind_returns:
  assumes "areachable n s" and "at_pc s t (Waiting superseded new)"
  shows "\<exists>s'. asteps s s' \<and> at_pc s' t Idle \<and> au_binding s' = new"
proof -
  have "fenced s" using areachable_fenced [OF assms(1)] .
  moreover from this have "new = au_binding s"
    using assms(2) by (auto simp: fenced_def at_pc_def list_all_length pc_ok_def)
  ultimately show ?thesis using waiting_returns assms(2) by blast
qed

text \<open>Two threads: the second operates under the first assignment while the first thread replaces it.\<close>

definition demo_authority :: "nat \<Rightarrow> nat \<Rightarrow> nat option \<Rightarrow> pc list \<Rightarrow> state_assignment_authority" where
  "demo_authority b odd_count holder threads =
     \<lparr>au_binding = b, au_roles = \<lparr>primary_node = None, replica_nodes = [], required_replica_acks = 0\<rparr>,
      au_admissions = \<lparr>even_generation = 0, odd_generation = odd_count\<rparr>, au_barrier = holder, au_threads = threads\<rparr>"

lemma demo_waiting_reachable:
  "areachable 2 (demo_authority 9 1 (Some 0) [Waiting 5 9, Acting 5])"
proof -
  let ?r = "\<lparr>primary_node = None, replica_nodes = [], required_replica_acks = 0\<rparr> :: state_replication_roles"
  note demo = demo_authority_def goes_def at_pc_def local_capability_def successor_Some binding_generation_div
    of_generation_def u64_max_def
  have s0: "areachable 2 (demo_authority 0 0 None [Idle, Idle])"
    using areachable_start [of 2] by (simp add: authority_default_def demo_authority_def unassigned_def numeral_2_eq_2)
  have s1: "areachable 2 (demo_authority 0 0 (Some 0) [Rebind_locked ?r None, Idle])"
    using areachable_step [OF s0 rebind_lock [of _ 0 ?r None]] by (simp add: demo)
  have s2: "areachable 2 (demo_authority 0 0 (Some 0) [Rebind_roles 0 5, Idle])"
    using areachable_step [OF s1 rebind_roles [of _ 0 ?r None 5]] by (simp add: demo)
  have s3: "areachable 2 (demo_authority 5 0 (Some 0) [Waiting 0 5, Idle])"
    using areachable_step [OF s2 rebind_store [of _ 0 0 5]] by (simp add: demo)
  have s4: "areachable 2 (demo_authority 5 0 None [Idle, Idle])"
    using areachable_step [OF s3 rebind_return [of _ 0 0 5]] by (simp add: demo)
  have s5: "areachable 2 (demo_authority 5 1 None [Idle, Counted 5])"
    using areachable_step [OF s4 authorize_admit [of _ 1 5 Originate "\<lparr>even_generation = 0, odd_generation = 1\<rparr>"]]
    by (simp add: demo binding_grants_mod admissions_admit_def set_of_generation_def checked_add_def)
  have s6: "areachable 2 (demo_authority 5 1 None [Idle, Acting 5])"
    using areachable_step [OF s5 authorize_current [of _ 1 5]] by (simp add: demo)
  have s7: "areachable 2 (demo_authority 5 1 (Some 0) [Rebind_locked ?r None, Acting 5])"
    using areachable_step [OF s6 rebind_lock [of _ 0 ?r None]] by (simp add: demo)
  have s8: "areachable 2 (demo_authority 5 1 (Some 0) [Rebind_roles 5 9, Acting 5])"
    using areachable_step [OF s7 rebind_roles [of _ 0 ?r None 9]] by (simp add: demo)
  show ?thesis
    using areachable_step [OF s8 rebind_store [of _ 0 5 9]] by (simp add: demo)
qed

theorem superseded_operations_finished_witness:
  "at_pc (demo_authority 9 1 (Some 0) [Waiting 5 9, Acting 5]) 1 (Acting 5) \<and>
   (\<exists>j. at_pc (demo_authority 9 1 (Some 0) [Waiting 5 9, Acting 5]) j (Waiting 5 9))"
proof -
  let ?s = "demo_authority 9 1 (Some 0) [Waiting 5 9, Acting 5]"
  have acting: "at_pc ?s 1 (Acting 5)" and bind: "au_binding ?s = 9"
    by (simp_all add: at_pc_def demo_authority_def)
  have "5 = au_binding ?s \<or> (\<exists>j. at_pc ?s j (Waiting 5 (au_binding ?s)))"
    using superseded_operations_finished [OF demo_waiting_reachable, THEN conjunct1] acting by blast
  with acting show ?thesis unfolding bind by simp
qed

theorem waiting_rebind_returns_witness:
  "\<exists>s'. asteps (demo_authority 9 1 (Some 0) [Waiting 5 9, Acting 5]) s' \<and> at_pc s' 0 Idle \<and> au_binding s' = 9"
  by (rule waiting_rebind_returns [OF demo_waiting_reachable, of 0 5 9]) (simp add: at_pc_def demo_authority_def)

end
