(* ===== verification/Kafka_Offsets.thy ===== *)
theory Kafka_Offsets
  imports Prelude State_Assignment "HOL-Library.AList" "HOL-Library.Char_ord" "HOL-Library.List_Lexorder"
    "HOL-Library.Product_Lexorder"
begin

text \<open>
  The offsets a Kafka ingestor resumes from (\<open>src/runtime/kafka_offset_state.rs\<close>): the table of
  partitions, its checkpoints, how an explicit start and the commits change it, and how the
  checkpoints of the units of one layout become those of another.

  A slot is the offset it holds: the tables that share a slot share its current value. The hash map of
  topics and the ordered map of partitions are association lists. The archive library is a
  parameter of which only the round trip is assumed; the payload type \<open>'p\<close> and its errors \<open>'e\<close> are its
  own. A cancellation is a function that says whether the operation is still wanted at its \<open>k\<close>-th
  check.
\<close>

section \<open>Tables\<close>


record kafka_offset_table =
  applied_start_generation :: "nat option"
  topics :: "(string \<times> (int \<times> int) list) list"

definition table_default :: kafka_offset_table where
  "table_default = \<lparr>applied_start_generation = None, topics = []\<rparr>"

definition slot :: "kafka_offset_table \<Rightarrow> string \<Rightarrow> int \<Rightarrow> int option" where
  "slot table topic part = do { partitions \<leftarrow> map_of (topics table) topic; map_of partitions part }"

definition next_offset :: "kafka_offset_table \<Rightarrow> string \<Rightarrow> int \<Rightarrow> int option" where
  "next_offset table topic part = do { offset \<leftarrow> slot table topic part; Some offset }"

definition record_partition :: "string \<Rightarrow> int \<Rightarrow> int \<Rightarrow> kafka_offset_table \<Rightarrow> kafka_offset_table" where
  "record_partition topic part offset table =
     table\<lparr>topics :=
       (case map_of (topics table) topic of
          Some partitions \<Rightarrow> AList.update topic (AList.update part offset partitions) (topics table)
        | None \<Rightarrow> AList.update topic [(part, offset)] (topics table))\<rparr>"



section \<open>Checkpoints\<close>

record kafka_offset_entry =
  ke_topic :: string
  ke_partition :: int
  ke_next_offset :: int

record kafka_offset_snapshot =
  ks_generation :: "nat option"
  ks_offsets :: "kafka_offset_entry list"
  ks_format :: string

definition kafka_offset_format :: string where
  "kafka_offset_format = ''NervixKafkaState''"

record ('p, 'e) archive =
  ar_to_bytes :: "kafka_offset_snapshot \<Rightarrow> 'e + 'p"
  ar_access :: "'p \<Rightarrow> 'e + kafka_offset_snapshot"

datatype 'e checkpoint_error =
  Format_signature
| Instance_selection
| Start_generation nat "nat option"
| Foreign_partition nat nat string int
| Decode_state 'e
| Encode_state 'e
| Cancelled

definition access_offset_snapshot :: "('p, 'e) archive \<Rightarrow> 'p \<Rightarrow> 'e checkpoint_error + kafka_offset_snapshot" where
  "access_offset_snapshot ar payload =
     (case ar_access ar payload of
        Inl e \<Rightarrow> Inl (Decode_state e)
      | Inr snapshot \<Rightarrow> if ks_format snapshot \<noteq> kafka_offset_format then Inl Format_signature else Inr snapshot)"

definition write_snapshot ::
  "('p, 'e) archive \<Rightarrow> nat option \<Rightarrow> kafka_offset_entry list \<Rightarrow> 'e checkpoint_error + 'p" where
  "write_snapshot ar generation offsets =
     (case ar_to_bytes ar \<lparr>ks_generation = generation, ks_offsets = offsets, ks_format = kafka_offset_format\<rparr> of
        Inl e \<Rightarrow> Inl (Encode_state e)
      | Inr payload \<Rightarrow> Inr payload)"

definition table_entries :: "kafka_offset_table \<Rightarrow> kafka_offset_entry list" where
  "table_entries table =
     concat (map (\<lambda>(topic, partitions).
       map (\<lambda>(part, offset). \<lparr>ke_topic = topic, ke_partition = part, ke_next_offset = offset\<rparr>) partitions)
     (topics table))"

definition entry_key :: "kafka_offset_entry \<Rightarrow> string \<times> int" where
  "entry_key e = (ke_topic e, ke_partition e)"

definition table_encode :: "('p, 'e) archive \<Rightarrow> kafka_offset_table \<Rightarrow> 'e checkpoint_error + 'p" where
  "table_encode ar table =
     write_snapshot ar (applied_start_generation table) (sort_key entry_key (table_entries table))"

definition table_decode :: "('p, 'e) archive \<Rightarrow> 'p \<Rightarrow> 'e checkpoint_error + kafka_offset_table" where
  "table_decode ar payload =
     (case access_offset_snapshot ar payload of
        Inl e \<Rightarrow> Inl e
      | Inr snapshot \<Rightarrow>
          Inr (fold (\<lambda>e. record_partition (ke_topic e) (ke_partition e) (ke_next_offset e)) (ks_offsets snapshot)
            (table_default\<lparr>applied_start_generation := ks_generation snapshot\<rparr>)))"

section \<open>Units\<close>

datatype unit_kind = Single | Partition_unit nat | Instance nat

record unit_selection =
  us_unit :: unit_kind
  us_count :: nat

text \<open>\<open>u64::from(partition.cast_unsigned()) % count\<close>, the unit that consumes a partition.\<close>

definition partition_owner :: "nat \<Rightarrow> int \<Rightarrow> nat" where
  "partition_owner count part = nat (part mod 2 ^ 32) mod count"

fun project_entries ::
  "(nat \<Rightarrow> bool) \<Rightarrow> nat \<Rightarrow> nat \<Rightarrow> nat \<Rightarrow> kafka_offset_entry list \<Rightarrow> 'e checkpoint_error + kafka_offset_entry list" where
  "project_entries wanted count index k [] = Inr []"
| "project_entries wanted count index k (e # es) =
     (if \<not> wanted k then Inl Cancelled
      else case project_entries wanted count index (k + 1) es of
          Inl error \<Rightarrow> Inl error
        | Inr kept \<Rightarrow> Inr (if partition_owner count (ke_partition e) = index then e # kept else kept))"

definition project_offset_snapshot ::
  "('p, 'e) archive \<Rightarrow> (nat \<Rightarrow> bool) \<Rightarrow> 'p \<Rightarrow> unit_selection \<Rightarrow> 'e checkpoint_error + 'p" where
  "project_offset_snapshot ar wanted payload selection =
     (case us_unit selection of
        Instance index \<Rightarrow>
          (if us_count selection \<le> index then Inl Instance_selection
           else case access_offset_snapshot ar payload of
               Inl error \<Rightarrow> Inl error
             | Inr archived \<Rightarrow>
                 (case project_entries wanted (us_count selection) index 0 (ks_offsets archived) of
                    Inl error \<Rightarrow> Inl error
                  | Inr offsets \<Rightarrow> write_snapshot ar (ks_generation archived) offsets))
      | _ \<Rightarrow> Inl Instance_selection)"

record 'p ingestor_offset_checkpoint =
  ic_unit :: unit_kind
  ic_payload :: 'p

text \<open>Every checkpoint of a layout projected onto one unit of another, as each source node does it.\<close>

fun project_checkpoints ::
  "('p, 'e) archive \<Rightarrow> (nat \<Rightarrow> bool) \<Rightarrow> unit_selection \<Rightarrow> 'p ingestor_offset_checkpoint list \<Rightarrow>
     'e checkpoint_error + 'p ingestor_offset_checkpoint list" where
  "project_checkpoints ar wanted selection [] = Inr []"
| "project_checkpoints ar wanted selection (c # cs) =
     (case project_offset_snapshot ar wanted (ic_payload c) selection of
        Inl error \<Rightarrow> Inl error
      | Inr payload \<Rightarrow>
          (case project_checkpoints ar wanted selection cs of
             Inl error \<Rightarrow> Inl error
           | Inr rest \<Rightarrow> Inr (c\<lparr>ic_payload := payload\<rparr> # rest)))"

text \<open>\<open>Option\<close> orders \<open>None\<close> below every \<open>Some\<close>.\<close>

fun later_generation :: "nat option \<Rightarrow> nat option \<Rightarrow> nat option" where
  "later_generation None b = b"
| "later_generation (Some a) None = Some a"
| "later_generation (Some a) (Some b) = Some (max a b)"

fun newest_generation ::
  "('p, 'e) archive \<Rightarrow> 'p ingestor_offset_checkpoint list \<Rightarrow> 'e checkpoint_error + nat option" where
  "newest_generation ar [] = Inr None"
| "newest_generation ar (c # cs) =
     (case access_offset_snapshot ar (ic_payload c) of
        Inl error \<Rightarrow> Inl error
      | Inr snapshot \<Rightarrow>
          (case newest_generation ar cs of
             Inl error \<Rightarrow> Inl error
           | Inr generation \<Rightarrow> Inr (later_generation (ks_generation snapshot) generation)))"

datatype selected_position = Pending int | Owned int

type_synonym selection_map = "((string \<times> int) \<times> selected_position) list"

definition select_entry ::
  "nat \<Rightarrow> nat \<Rightarrow> kafka_offset_entry \<Rightarrow> selection_map \<Rightarrow> 'e checkpoint_error + selection_map" where
  "select_entry count source_index e selected =
     (let owner = partition_owner count (ke_partition e); key = entry_key e; offset = ke_next_offset e in
      if source_index = owner then Inr (AList.update key (Owned offset) selected)
      else if source_index = 0 then
        Inr (case map_of selected key of
               Some (Owned _) \<Rightarrow> selected
             | _ \<Rightarrow> AList.update key (Pending offset) selected)
      else Inl (Foreign_partition source_index count (ke_topic e) (ke_partition e)))"

fun select_entries ::
  "(nat \<Rightarrow> bool) \<Rightarrow> nat \<Rightarrow> nat \<Rightarrow> nat \<Rightarrow> kafka_offset_entry list \<Rightarrow> selection_map \<Rightarrow>
     'e checkpoint_error + nat \<times> selection_map" where
  "select_entries wanted count source_index k [] selected = Inr (k, selected)"
| "select_entries wanted count source_index k (e # es) selected =
     (if \<not> wanted k then Inl Cancelled
      else case select_entry count source_index e selected of
          Inl error \<Rightarrow> Inl error
        | Inr selected \<Rightarrow> select_entries wanted count source_index (k + 1) es selected)"

fun select_checkpoints ::
  "('p, 'e) archive \<Rightarrow> (nat \<Rightarrow> bool) \<Rightarrow> nat \<Rightarrow> nat option \<Rightarrow> nat \<Rightarrow> 'p ingestor_offset_checkpoint list \<Rightarrow>
     selection_map \<Rightarrow> 'e checkpoint_error + selection_map" where
  "select_checkpoints ar wanted count generation k [] selected = Inr selected"
| "select_checkpoints ar wanted count generation k (c # cs) selected =
     (case ic_unit c of
        Instance source_index \<Rightarrow>
          (if count \<le> source_index then Inl Instance_selection
           else case access_offset_snapshot ar (ic_payload c) of
               Inl error \<Rightarrow> Inl error
             | Inr incoming \<Rightarrow>
                 (if ks_generation incoming \<noteq> generation
                  then select_checkpoints ar wanted count generation k cs selected
                  else case select_entries wanted count source_index k (ks_offsets incoming) selected of
                      Inl error \<Rightarrow> Inl error
                    | Inr (k, selected) \<Rightarrow> select_checkpoints ar wanted count generation k cs selected))
      | _ \<Rightarrow> Inl Instance_selection)"

fun position_offset :: "selected_position \<Rightarrow> int" where
  "position_offset (Pending offset) = offset"
| "position_offset (Owned offset) = offset"

definition merge_offset_snapshots ::
  "('p, 'e) archive \<Rightarrow> (nat \<Rightarrow> bool) \<Rightarrow> 'p ingestor_offset_checkpoint list \<Rightarrow> nat \<Rightarrow> 'e checkpoint_error + 'p" where
  "merge_offset_snapshots ar wanted payloads source_count =
     (case newest_generation ar payloads of
        Inl error \<Rightarrow> Inl error
      | Inr generation \<Rightarrow>
          (case select_checkpoints ar wanted source_count generation 0 payloads [] of
             Inl error \<Rightarrow> Inl error
           | Inr selected \<Rightarrow>
               table_encode ar
                 (fold (\<lambda>((topic, part), position). record_partition topic part (position_offset position))
                   (sort_key fst selected) (table_default\<lparr>applied_start_generation := generation\<rparr>))))"

section \<open>The replicated state\<close>

















section \<open>Lookups\<close>

definition table_ok :: "kafka_offset_table \<Rightarrow> bool" where
  "table_ok table \<longleftrightarrow>
     distinct (map fst (topics table)) \<and> (\<forall>(topic, partitions) \<in> set (topics table). distinct (map fst partitions))"

lemma table_default_ok [simp]: "table_ok (table_default\<lparr>applied_start_generation := g\<rparr>)"
  by (simp add: table_ok_def table_default_def)

lemma next_offset_default [simp]: "next_offset (table_default\<lparr>applied_start_generation := g\<rparr>) topic part = None"
  by (simp add: next_offset_def slot_def table_default_def)


lemma next_offset_record:
  "next_offset (record_partition topic part offset table) topic' part' =
     (if topic' = topic \<and> part' = part then Some offset else next_offset table topic' part')"
  by (auto simp: next_offset_def slot_def record_partition_def update_conv' split: option.split)


lemma record_generation [simp]:
  "applied_start_generation (record_partition topic part offset table) = applied_start_generation table"
  by (simp add: record_partition_def)

lemma alist_update_set: "set (AList.update k v al) \<subseteq> insert (k, v) (set al)"
  by (induction al) auto

lemma record_table_ok:
  assumes "table_ok table"
  shows "table_ok (record_partition topic part offset table)"
proof -
  have upd: "table_ok (table\<lparr>topics := AList.update topic ps (topics table)\<rparr>)" if "distinct (map fst ps)" for ps
    using assms that by (auto simp: table_ok_def distinct_update dest!: subsetD [OF alist_update_set])
  show ?thesis
  proof (cases "map_of (topics table) topic")
    case None
    then show ?thesis using upd [of "[(part, offset)]"] by (simp add: record_partition_def)
  next
    case (Some ps)
    then have "distinct (map fst ps)" using assms by (auto simp: table_ok_def dest!: map_of_SomeD)
    then show ?thesis using upd [of "AList.update part offset ps"] Some by (simp add: record_partition_def distinct_update)
  qed
qed

text \<open>A list of keyed values recorded one after the other: the last one of a key counts.\<close>

definition record_pairs :: "((string \<times> int) \<times> int) list \<Rightarrow> kafka_offset_table \<Rightarrow> kafka_offset_table" where
  "record_pairs kvs table = fold (\<lambda>((topic, part), offset). record_partition topic part offset) kvs table"

lemma record_pairs_next_offset:
  "next_offset (record_pairs kvs table) topic part =
     (case map_of (rev kvs) (topic, part) of Some offset \<Rightarrow> Some offset | None \<Rightarrow> next_offset table topic part)"
proof (induction kvs arbitrary: table)
  case (Cons kv kvs)
  obtain t p v where "kv = ((t, p), v)" by (metis prod.collapse)
  then show ?case using Cons [of "record_partition t p v table"]
    by (auto simp: record_pairs_def next_offset_record map_add_def split: option.split)
qed (simp add: record_pairs_def)

lemma record_pairs_keeps:
  "applied_start_generation (record_pairs kvs table) = applied_start_generation table"
  "table_ok table \<Longrightarrow> table_ok (record_pairs kvs table)"
  unfolding record_pairs_def by (induction kvs arbitrary: table) (auto simp: record_table_ok)

definition entry_pair :: "kafka_offset_entry \<Rightarrow> (string \<times> int) \<times> int" where
  "entry_pair e = (entry_key e, ke_next_offset e)"

definition recorded :: "kafka_offset_entry list \<Rightarrow> string \<times> int \<Rightarrow> int option" where
  "recorded es key = map_of (rev (map entry_pair es)) key"

lemma fold_entries:
  "fold (\<lambda>e. record_partition (ke_topic e) (ke_partition e) (ke_next_offset e)) es table =
     record_pairs (map entry_pair es) table"
  by (induction es arbitrary: table) (simp_all add: record_pairs_def entry_pair_def entry_key_def)

lemma fold_selected:
  "fold (\<lambda>((topic, part), position). record_partition topic part (position_offset position)) sel table =
     record_pairs (map (map_prod id position_offset) sel) table"
  by (induction sel arbitrary: table) (auto simp: record_pairs_def)

lemma map_of_same_set:
  assumes "distinct (map fst xs)" and "distinct (map fst ys)" and "set xs = set ys"
  shows "map_of xs = map_of ys"
proof
  fix k
  have "map_of xs k = Some v \<longleftrightarrow> map_of ys k = Some v" for v using assms by (simp add: map_of_eq_Some_iff)
  then show "map_of xs k = map_of ys k" by (metis not_None_eq)
qed

lemma map_of_rev_sort:
  assumes "distinct (map fst (map g xs))"
  shows "map_of (rev (map g (sort_key f xs))) = map_of (map g xs)"
proof (rule map_of_same_set [OF _ assms])
  show "distinct (map fst (rev (map g (sort_key f xs))))"
    using assms by (simp add: rev_map [symmetric] distinct_map)
qed simp

section \<open>Checkpoints keep the table\<close>

text \<open>The archive library writes every snapshot and reads back what it wrote.\<close>

definition archive_ok :: "('p, 'e) archive \<Rightarrow> bool" where
  "archive_ok ar \<longleftrightarrow> (\<forall>s. \<exists>payload. ar_to_bytes ar s = Inr payload \<and> ar_access ar payload = Inr s)"

lemma write_snapshot_ok:
  assumes "archive_ok ar"
  shows "\<exists>payload. write_snapshot ar generation offsets = Inr payload \<and>
    access_offset_snapshot ar payload =
      Inr \<lparr>ks_generation = generation, ks_offsets = offsets, ks_format = kafka_offset_format\<rparr>"
proof -
  obtain payload where "ar_to_bytes ar \<lparr>ks_generation = generation, ks_offsets = offsets, ks_format = kafka_offset_format\<rparr> = Inr payload"
    "ar_access ar payload = Inr \<lparr>ks_generation = generation, ks_offsets = offsets, ks_format = kafka_offset_format\<rparr>"
    using assms unfolding archive_ok_def by blast
  then show ?thesis by (simp add: write_snapshot_def access_offset_snapshot_def)
qed

lemma table_entries_keys:
  "map fst (map entry_pair (table_entries table)) =
     concat (map (\<lambda>(topic, partitions). map (Pair topic) (map fst partitions)) (topics table))"
  by (auto simp: table_entries_def map_concat entry_pair_def entry_key_def comp_def
      intro!: arg_cong [of _ _ concat] map_cong)

lemma table_entries_distinct:
  assumes "table_ok table"
  shows "distinct (map fst (map entry_pair (table_entries table)))"
proof -
  have "distinct (concat (map (\<lambda>(topic, partitions). map (Pair topic) (map fst partitions)) ts))"
    if "distinct (map fst ts)" "\<forall>(topic, partitions) \<in> set ts. distinct (map fst partitions)"
    for ts :: "(string \<times> (int \<times> int) list) list"
    using that by (induction ts) (auto simp: distinct_map inj_on_def image_iff)
  then show ?thesis using assms unfolding table_entries_keys table_ok_def by blast
qed

lemma table_entries_lookup:
  assumes "table_ok table"
  shows "map_of (map entry_pair (table_entries table)) (topic, part) = next_offset table topic part"
proof -
  have pairs: "((topic, part), offset) \<in> set (map entry_pair (table_entries table)) \<longleftrightarrow>
      (\<exists>ps. (topic, ps) \<in> set (topics table) \<and> (part, offset) \<in> set ps)" for offset
    by (force simp: table_entries_def entry_pair_def entry_key_def)
  have "next_offset table topic part = Some offset \<longleftrightarrow>
      (\<exists>ps. (topic, ps) \<in> set (topics table) \<and> (part, offset) \<in> set ps)" for offset
    using assms by (fastforce simp: next_offset_def slot_def table_ok_def bind_eq_Some_conv)
  then have "map_of (map entry_pair (table_entries table)) (topic, part) = Some offset \<longleftrightarrow>
      next_offset table topic part = Some offset" for offset
    using pairs table_entries_distinct [OF assms] by (simp only: map_of_eq_Some_iff)
  then show ?thesis by (metis not_None_eq)
qed

lemma checkpoint_keeps_table:
  assumes "archive_ok ar" and "table_ok table"
  shows "\<exists>payload table'. table_encode ar table = Inr payload \<and> table_decode ar payload = Inr table' \<and>
    applied_start_generation table' = applied_start_generation table \<and>
    (\<forall>topic part. next_offset table' topic part = next_offset table topic part)"
proof -
  let ?es = "sort_key entry_key (table_entries table)"
  obtain payload where payload: "table_encode ar table = Inr payload"
    "access_offset_snapshot ar payload = Inr \<lparr>ks_generation = applied_start_generation table, ks_offsets = ?es,
       ks_format = kafka_offset_format\<rparr>"
    using write_snapshot_ok [OF assms(1)] unfolding table_encode_def by blast
  let ?table = "record_pairs (map entry_pair ?es) (table_default\<lparr>applied_start_generation := applied_start_generation table\<rparr>)"
  have "map_of (rev (map entry_pair ?es)) = map_of (map entry_pair (table_entries table))"
    using map_of_rev_sort [OF table_entries_distinct [OF assms(2)]] .
  then have "next_offset ?table topic part = next_offset table topic part" for topic part
    by (simp add: record_pairs_next_offset table_entries_lookup [OF assms(2)] split: option.split)
  moreover have "table_decode ar payload = Inr ?table"
    using payload(2) by (simp add: table_decode_def fold_entries)
  moreover have "applied_start_generation ?table = applied_start_generation table"
    by (simp add: record_pairs_keeps table_default_def)
  ultimately show ?thesis using payload(1) by blast
qed

section \<open>Merging keeps the owner's progress\<close>

lemma recorded_simps:
  "recorded [] key = None"
  "recorded (e # es) key =
     (case recorded es key of
        Some offset \<Rightarrow> Some offset
      | None \<Rightarrow> if entry_key e = key then Some (ke_next_offset e) else None)"
  by (auto simp: recorded_def entry_pair_def map_add_def split: option.split)

lemma recorded_filter:
  "recorded (filter (\<lambda>e. P (ke_partition e)) es) key = (if P (snd key) then recorded es key else None)"
  by (induction es) (auto simp: recorded_simps entry_key_def split: option.split)

lemma recorded_foreign: "\<forall>e \<in> set es. entry_key e \<noteq> key \<Longrightarrow> recorded es key = None"
  by (induction es) (auto simp: recorded_simps)

text \<open>What the record \<open>r\<close> of a source makes of the position selected so far.\<close>

definition taken :: "bool \<Rightarrow> int option \<Rightarrow> selected_position option \<Rightarrow> selected_position option" where
  "taken owns r old =
     (case r of
        None \<Rightarrow> old
      | Some offset \<Rightarrow>
          if owns then Some (Owned offset)
          else (case old of Some (Owned x) \<Rightarrow> Some (Owned x) | _ \<Rightarrow> Some (Pending offset)))"

lemma taken_taken:
  "taken owns r' (taken owns r old) = taken owns (case r' of Some offset \<Rightarrow> Some offset | None \<Rightarrow> r) old"
  by (auto simp: taken_def split: option.split selected_position.split)

lemma select_entry_ok:
  assumes "i = partition_owner count (ke_partition e) \<or> i = 0"
  shows "\<exists>sel'. (select_entry count i e sel :: 'e checkpoint_error + selection_map) = Inr sel' \<and> (distinct (map fst sel) \<longrightarrow> distinct (map fst sel')) \<and>
    (\<forall>key. map_of sel' key = taken (i = partition_owner count (snd key))
       (if entry_key e = key then Some (ke_next_offset e) else None) (map_of sel key))"
proof (cases "i = partition_owner count (ke_partition e)")
  case True
  then show ?thesis
    by (auto simp: select_entry_def taken_def update_conv' distinct_update entry_key_def)
next
  case False
  then have i: "i = 0" using assms by simp
  show ?thesis
  proof (cases "\<exists>x. map_of sel (entry_key e) = Some (Owned x)")
    case True
    then obtain x where "map_of sel (entry_key e) = Some (Owned x)" by blast
    with False i have "(select_entry count i e sel :: 'e checkpoint_error + selection_map) = Inr sel" by (simp add: select_entry_def)
    moreover have "map_of sel key = taken (i = partition_owner count (snd key))
        (if entry_key e = key then Some (ke_next_offset e) else None) (map_of sel key)" for key
      using \<open>map_of sel (entry_key e) = Some (Owned x)\<close> False by (auto simp: taken_def entry_key_def)
    ultimately show ?thesis by blast
  next
    case none: False
    let ?sel = "AList.update (entry_key e) (Pending (ke_next_offset e)) sel"
    have "(select_entry count i e sel :: 'e checkpoint_error + selection_map) = Inr ?sel"
      using False i none by (auto simp: select_entry_def Let_def split: option.split selected_position.split)
    moreover have "map_of ?sel key = taken (i = partition_owner count (snd key))
        (if entry_key e = key then Some (ke_next_offset e) else None) (map_of sel key)" for key
      using none False by (auto simp: taken_def entry_key_def update_conv' split: option.split selected_position.split)
    moreover have "distinct (map fst sel) \<longrightarrow> distinct (map fst ?sel)" by (simp add: distinct_update)
    ultimately show ?thesis by (intro exI [of _ ?sel]) simp
  qed
qed

lemma select_entries_ok:
  assumes "\<forall>k. wanted k" and "\<forall>e \<in> set es. i = partition_owner count (ke_partition e) \<or> i = 0"
  shows "\<exists>k' sel'. (select_entries wanted count i k es sel :: 'e checkpoint_error + nat \<times> selection_map) = Inr (k', sel') \<and>
    (distinct (map fst sel) \<longrightarrow> distinct (map fst sel')) \<and>
    (\<forall>key. map_of sel' key = taken (i = partition_owner count (snd key)) (recorded es key) (map_of sel key))"
  using assms(2)
proof (induction es arbitrary: k sel)
  case Nil
  then show ?case by (simp add: recorded_simps taken_def)
next
  case (Cons e es)
  obtain sel1 where first: "(select_entry count i e sel :: 'e checkpoint_error + selection_map) = Inr sel1" "distinct (map fst sel) \<longrightarrow> distinct (map fst sel1)"
    "\<forall>key. map_of sel1 key = taken (i = partition_owner count (snd key))
       (if entry_key e = key then Some (ke_next_offset e) else None) (map_of sel key)"
    using select_entry_ok [of i count e sel] Cons.prems by (meson list.set_intros(1))
  have tail: "\<forall>e \<in> set es. i = partition_owner count (ke_partition e) \<or> i = 0" using Cons.prems by auto
  obtain k' sel' where rest: "(select_entries wanted count i (k + 1) es sel1 :: 'e checkpoint_error + nat \<times> selection_map) = Inr (k', sel')"
    "distinct (map fst sel1) \<longrightarrow> distinct (map fst sel')"
    "\<forall>key. map_of sel' key = taken (i = partition_owner count (snd key)) (recorded es key) (map_of sel1 key)"
    using Cons.IH [OF tail, of "k + 1" sel1] by blast
  have "map_of sel' key = taken (i = partition_owner count (snd key)) (recorded (e # es) key) (map_of sel key)" for key
    unfolding rest(3) [rule_format, of key] first(3) [rule_format, of key] taken_taken recorded_simps ..
  moreover have "(select_entries wanted count i k (e # es) sel :: 'e checkpoint_error + nat \<times> selection_map) = Inr (k', sel')"
    using first(1) rest(1) assms(1) [rule_format, of k] by simp
  ultimately show ?case using first(2) rest(2) by blast
qed

text \<open>A source unit of the layout, holding its own partitions; unit zero may hold pending seeds of others.\<close>

definition source_ok :: "('p, 'e) archive \<Rightarrow> nat \<Rightarrow> 'p ingestor_offset_checkpoint \<Rightarrow> bool" where
  "source_ok ar count c \<longleftrightarrow>
     (\<exists>i s. ic_unit c = Instance i \<and> i < count \<and> access_offset_snapshot ar (ic_payload c) = Inr s \<and>
        (\<forall>e \<in> set (ks_offsets s). i = partition_owner count (ke_partition e) \<or> i = 0))"

text \<open>What unit \<open>i\<close> records for a key, when it has adopted the generation.\<close>

definition held ::
  "('p, 'e) archive \<Rightarrow> nat option \<Rightarrow> 'p ingestor_offset_checkpoint list \<Rightarrow> nat \<Rightarrow> string \<times> int \<Rightarrow> int option" where
  "held ar generation cs i key =
     (case find (\<lambda>c. ic_unit c = Instance i) cs of
        None \<Rightarrow> None
      | Some c \<Rightarrow>
          (case access_offset_snapshot ar (ic_payload c) of
             Inl _ \<Rightarrow> None
           | Inr s \<Rightarrow> if ks_generation s = generation then recorded (ks_offsets s) key else None))"

lemma held_Nil [simp]: "held ar generation [] i key = None"
  by (simp add: held_def)

lemma held_Cons:
  "ic_unit c = Instance j \<Longrightarrow> access_offset_snapshot ar (ic_payload c) = Inr s \<Longrightarrow>
   held ar generation (c # cs) i key =
     (if i = j then (if ks_generation s = generation then recorded (ks_offsets s) key else None)
      else held ar generation cs i key)"
  by (simp add: held_def)

lemma held_absent: "Instance i \<notin> ic_unit ` set cs \<Longrightarrow> held ar generation cs i key = None"
proof -
  assume "Instance i \<notin> ic_unit ` set cs"
  then have "find (\<lambda>c. ic_unit c = Instance i) cs = None" by (force simp: find_None_iff)
  then show ?thesis by (simp add: held_def)
qed

lemma taken_foreign: "r = None \<Longrightarrow> taken owns r old = old"
  by (simp add: taken_def)

lemma select_checkpoints_ok:
  fixes ar :: "('p, 'e) archive"
  assumes "\<forall>k. wanted k" and "list_all (source_ok ar count) cs" and "distinct (map ic_unit cs)"
  shows "\<exists>sel'. select_checkpoints ar wanted count generation k cs sel = Inr sel' \<and>
    (distinct (map fst sel) \<longrightarrow> distinct (map fst sel')) \<and>
    (\<forall>key. map_of sel' key = taken True (held ar generation cs (partition_owner count (snd key)) key)
       (taken False (held ar generation cs 0 key) (map_of sel key)))"
  using assms(2,3)
proof (induction cs arbitrary: k sel)
  case Nil
  then show ?case by (simp add: taken_def)
next
  case (Cons c cs)
  obtain i s where c: "ic_unit c = Instance i" "i < count" "access_offset_snapshot ar (ic_payload c) = Inr s"
    and own: "\<forall>e \<in> set (ks_offsets s). i = partition_owner count (ke_partition e) \<or> i = 0"
    using Cons.prems(1) by (auto simp: source_ok_def)
  have gone: "held ar generation cs i key = None" for key
    using Cons.prems(2) c(1) by (intro held_absent) (auto simp: image_iff)
  let ?r = "\<lambda>key. if ks_generation s = generation then recorded (ks_offsets s) key else None"
  have foreign: "?r key = None" if "i \<noteq> partition_owner count (snd key)" "i \<noteq> 0" for key
  proof -
    have "\<forall>e \<in> set (ks_offsets s). entry_key e \<noteq> key" using that own by (auto simp: entry_key_def)
    then show ?thesis by (simp add: recorded_foreign)
  qed
  obtain k1 sel1 where first: "select_checkpoints ar wanted count generation k (c # cs) sel =
      select_checkpoints ar wanted count generation k1 cs sel1"
    "distinct (map fst sel) \<longrightarrow> distinct (map fst sel1)"
    "\<forall>key. map_of sel1 key = taken (i = partition_owner count (snd key)) (?r key) (map_of sel key)"
  proof (cases "ks_generation s = generation")
    case True
    obtain k1 sel1 where entries: "(select_entries wanted count i k (ks_offsets s) sel :: 'e checkpoint_error + nat \<times> selection_map) = Inr (k1, sel1)"
      "distinct (map fst sel) \<longrightarrow> distinct (map fst sel1)"
      "\<forall>key. map_of sel1 key = taken (i = partition_owner count (snd key)) (recorded (ks_offsets s) key) (map_of sel key)"
      using select_entries_ok [OF assms(1) own, of k sel] by blast
    have "select_checkpoints ar wanted count generation k (c # cs) sel = select_checkpoints ar wanted count generation k1 cs sel1"
      using c True entries(1) by simp
    then show thesis using that entries(2,3) True by simp
  next
    case False
    then show thesis using that [of k sel] c by (simp add: taken_def)
  qed
  have tail: "list_all (source_ok ar count) cs" "distinct (map ic_unit cs)" using Cons.prems by simp_all
  obtain sel' where rest: "select_checkpoints ar wanted count generation k1 cs sel1 = Inr sel'"
    "distinct (map fst sel1) \<longrightarrow> distinct (map fst sel')"
    "\<forall>key. map_of sel' key = taken True (held ar generation cs (partition_owner count (snd key)) key)
       (taken False (held ar generation cs 0 key) (map_of sel1 key))"
    using Cons.IH [OF tail, of k1 sel1] by blast
  have "map_of sel' key = taken True (held ar generation (c # cs) (partition_owner count (snd key)) key)
       (taken False (held ar generation (c # cs) 0 key) (map_of sel key))" for key
    unfolding rest(3) [rule_format, of key] first(3) [rule_format, of key] held_Cons [OF c(1,3)]
    using gone [of key] foreign [of key]
    by (cases "i = partition_owner count (snd key)"; cases "i = 0")
      (simp_all add: taken_def split: option.split selected_position.split)
  moreover have "select_checkpoints ar wanted count generation k (c # cs) sel = Inr sel'" unfolding first(1) by (rule rest(1))
  ultimately show ?case using first(2) rest(2) by blast
qed

text \<open>The offset a layout holds for a key: its owner's progress, or else the seed still pending on unit zero.\<close>

definition preferred ::
  "('p, 'e) archive \<Rightarrow> nat \<Rightarrow> nat option \<Rightarrow> 'p ingestor_offset_checkpoint list \<Rightarrow> string \<times> int \<Rightarrow> int option" where
  "preferred ar count generation cs key =
     (case held ar generation cs (partition_owner count (snd key)) key of
        Some offset \<Rightarrow> Some offset
      | None \<Rightarrow> held ar generation cs 0 key)"

lemma newest_generation_ok:
  "list_all (source_ok ar count) cs \<Longrightarrow> \<exists>generation. newest_generation ar cs = Inr generation"
  by (induction cs) (auto simp: source_ok_def)

lemma map_of_positions:
  "map_of (map (map_prod id position_offset) sel) key = map_option position_offset (map_of sel key)"
  by (induction sel) auto

lemma merge_ok:
  assumes "archive_ok ar" and "\<forall>k. wanted k" and "list_all (source_ok ar count) cs" and "distinct (map ic_unit cs)"
    and newest: "newest_generation ar cs = Inr generation"
  shows "\<exists>payload table. merge_offset_snapshots ar wanted cs count = Inr payload \<and>
    table_decode ar payload = Inr table \<and> applied_start_generation table = generation \<and>
    (\<forall>topic part. next_offset table topic part = preferred ar count generation cs (topic, part))"
proof -
  obtain sel where sel: "select_checkpoints ar wanted count generation 0 cs [] = Inr sel" "distinct (map fst sel)"
    "\<forall>key. map_of sel key = taken True (held ar generation cs (partition_owner count (snd key)) key)
       (taken False (held ar generation cs 0 key) None)"
    using select_checkpoints_ok [OF assms(2-4), of generation 0 "[]"] by auto
  let ?kvs = "map (map_prod id position_offset) (sort_key fst sel)"
  let ?table = "record_pairs ?kvs (table_default\<lparr>applied_start_generation := generation\<rparr>)"
  have "distinct (map fst (map (map_prod id position_offset) sel))" using sel(2) by (simp add: comp_def)
  then have "map_of (rev ?kvs) = map_of (map (map_prod id position_offset) sel)" by (rule map_of_rev_sort)
  then have "map_of (rev ?kvs) key = map_option position_offset (map_of sel key)" for key
    by (simp add: map_of_positions)
  then have look: "next_offset ?table topic part = preferred ar count generation cs (topic, part)" for topic part
    using sel(3) [rule_format, of "(topic, part)"]
    by (simp add: record_pairs_next_offset preferred_def taken_def split: option.split)
  have "table_ok ?table" by (intro record_pairs_keeps(2) table_default_ok)
  then obtain payload table where "table_encode ar ?table = Inr payload" "table_decode ar payload = Inr table"
    "applied_start_generation table = applied_start_generation ?table"
    "\<forall>topic part. next_offset table topic part = next_offset ?table topic part"
    using checkpoint_keeps_table [OF assms(1)] by blast
  moreover have "applied_start_generation ?table = generation" by (simp add: record_pairs_keeps table_default_def)
  ultimately show ?thesis using sel(1) newest look by (simp add: merge_offset_snapshots_def fold_selected)
qed

lemma project_entries_ok:
  "\<forall>k. wanted k \<Longrightarrow>
   project_entries wanted count index k es = Inr (filter (\<lambda>e. partition_owner count (ke_partition e) = index) es)"
  by (induction es arbitrary: k) simp_all

lemma project_ok:
  assumes "archive_ok ar" and "\<forall>k. wanted k" and "m < count" and "access_offset_snapshot ar payload = Inr s"
  shows "\<exists>payload'. project_offset_snapshot ar wanted payload \<lparr>us_unit = Instance m, us_count = count\<rparr> = Inr payload' \<and>
    access_offset_snapshot ar payload' =
      Inr (s\<lparr>ks_offsets := filter (\<lambda>e. partition_owner count (ke_partition e) = m) (ks_offsets s), ks_format := kafka_offset_format\<rparr>)"
  using write_snapshot_ok [OF assms(1), of "ks_generation s" "filter (\<lambda>e. partition_owner count (ke_partition e) = m) (ks_offsets s)"]
    assms(2-4)
  by (auto simp: project_offset_snapshot_def project_entries_ok)

text \<open>Projecting the checkpoints of a layout keeps its units, its generations and the records of the kept partitions.\<close>

lemma project_checkpoints_ok:
  assumes "archive_ok ar" and "\<forall>k. wanted k" and "m < target" and "list_all (source_ok ar count) cs"
  shows "\<exists>cs'. project_checkpoints ar wanted \<lparr>us_unit = Instance m, us_count = target\<rparr> cs = Inr cs' \<and>
    list_all (source_ok ar count) cs' \<and> map ic_unit cs' = map ic_unit cs \<and>
    newest_generation ar cs' = newest_generation ar cs \<and>
    (\<forall>generation i key. held ar generation cs' i key =
       (if partition_owner target (snd key) = m then held ar generation cs i key else None))"
  using assms(4)
proof (induction cs)
  case Nil
  then show ?case by simp
next
  case (Cons c cs)
  obtain i s where c: "ic_unit c = Instance i" "i < count" "access_offset_snapshot ar (ic_payload c) = Inr s"
    and own: "\<forall>e \<in> set (ks_offsets s). i = partition_owner count (ke_partition e) \<or> i = 0"
    using Cons.prems by (auto simp: source_ok_def)
  let ?s = "s\<lparr>ks_offsets := filter (\<lambda>e. partition_owner target (ke_partition e) = m) (ks_offsets s), ks_format := kafka_offset_format\<rparr>"
  obtain payload where p: "project_offset_snapshot ar wanted (ic_payload c) \<lparr>us_unit = Instance m, us_count = target\<rparr> = Inr payload"
    "access_offset_snapshot ar payload = Inr ?s" using project_ok [OF assms(1-3) c(3)] by blast
  obtain cs' where cs': "project_checkpoints ar wanted \<lparr>us_unit = Instance m, us_count = target\<rparr> cs = Inr cs'"
    "list_all (source_ok ar count) cs'" "map ic_unit cs' = map ic_unit cs"
    "newest_generation ar cs' = newest_generation ar cs"
    "\<forall>generation i key. held ar generation cs' i key =
       (if partition_owner target (snd key) = m then held ar generation cs i key else None)"
    using Cons.IH Cons.prems by auto
  let ?c = "c\<lparr>ic_payload := payload\<rparr>"
  have c': "ic_unit ?c = Instance i" "access_offset_snapshot ar (ic_payload ?c) = Inr ?s" using c p by simp_all
  have "source_ok ar count ?c" unfolding source_ok_def using c(1,2) c'(2) own by auto
  moreover have "newest_generation ar (?c # cs') = newest_generation ar (c # cs)" using cs'(4) c(3) c'(2) by (simp split: sum.split)
  moreover have "held ar generation (?c # cs') j key =
      (if partition_owner target (snd key) = m then held ar generation (c # cs) j key else None)" for generation j key
    unfolding held_Cons [OF c'] held_Cons [OF c(1,3)]
    using cs'(5) [rule_format, of generation j key] recorded_filter [of "\<lambda>x. partition_owner target x = m" "ks_offsets s" key] by simp
  ultimately show ?case using p(1) cs'(1-3) by (intro exI [of _ "?c # cs'"]) simp
qed

section \<open>A start is applied once\<close>

















section \<open>Properties\<close>

text \<open>
  C11: changing the number of units of a Kafka ingestor loses no progress. Projecting the
  checkpoints of all source units onto a unit of the new layout and merging them succeeds, and the
  merged checkpoint decodes to the newest start generation any source applied and, for exactly the
  partitions the new unit owns, to the offset its source owner recorded under that generation, or
  else to the seed still pending on unit zero. A source that has not adopted the newest start
  contributes nothing.
\<close>

theorem rescaling_keeps_progress:
  assumes "archive_ok ar" and "\<forall>k. wanted k" and "m < target"
    and "list_all (source_ok ar count) cs" and "distinct (map ic_unit cs)"
  shows "\<exists>projected generation payload table.
    project_checkpoints ar wanted \<lparr>us_unit = Instance m, us_count = target\<rparr> cs = Inr projected \<and>
    newest_generation ar cs = Inr generation \<and>
    merge_offset_snapshots ar wanted projected count = Inr payload \<and>
    table_decode ar payload = Inr table \<and> applied_start_generation table = generation \<and>
    (\<forall>topic part. next_offset table topic part =
       (if partition_owner target part = m then preferred ar count generation cs (topic, part) else None))"
proof -
  obtain projected where p: "project_checkpoints ar wanted \<lparr>us_unit = Instance m, us_count = target\<rparr> cs = Inr projected"
    "list_all (source_ok ar count) projected" "map ic_unit projected = map ic_unit cs"
    "newest_generation ar projected = newest_generation ar cs"
    "\<forall>generation i key. held ar generation projected i key =
       (if partition_owner target (snd key) = m then held ar generation cs i key else None)"
    using project_checkpoints_ok [OF assms(1-4)] by blast
  obtain generation where g: "newest_generation ar cs = Inr generation" using newest_generation_ok [OF assms(4)] by blast
  have "preferred ar count generation projected (topic, part) =
      (if partition_owner target part = m then preferred ar count generation cs (topic, part) else None)" for topic part
    using p(5) by (simp add: preferred_def split: option.split)
  then show ?thesis
    using merge_ok [OF assms(1,2) p(2), of generation] p(1,3,4) g assms(5) by metis
qed


text \<open>An archive that keeps snapshots as they are, and two units of a layout that becomes three.\<close>

definition demo_archive :: "(kafka_offset_snapshot, unit) archive" where
  "demo_archive = \<lparr>ar_to_bytes = Inr, ar_access = Inr\<rparr>"

definition demo_snapshot :: "nat option \<Rightarrow> (string \<times> int \<times> int) list \<Rightarrow> kafka_offset_snapshot" where
  "demo_snapshot generation offsets =
     \<lparr>ks_generation = generation,
      ks_offsets = map (\<lambda>(t, p, v). \<lparr>ke_topic = t, ke_partition = p, ke_next_offset = v\<rparr>) offsets,
      ks_format = kafka_offset_format\<rparr>"

definition demo_checkpoints :: "kafka_offset_snapshot ingestor_offset_checkpoint list" where
  "demo_checkpoints =
     [\<lparr>ic_unit = Instance 0, ic_payload = demo_snapshot (Some 4) [(''t'', 0, 10), (''t'', 1, 7), (''t'', 5, 3)]\<rparr>,
      \<lparr>ic_unit = Instance 1, ic_payload = demo_snapshot (Some 4) [(''t'', 1, 20)]\<rparr>]"

lemma demo_sources:
  "archive_ok demo_archive" "list_all (source_ok demo_archive 2) demo_checkpoints" "distinct (map ic_unit demo_checkpoints)"
  "newest_generation demo_archive demo_checkpoints = Inr (Some 4)"
  "preferred demo_archive 2 (Some 4) demo_checkpoints (''t'', 1) = Some 20"
  "preferred demo_archive 2 (Some 4) demo_checkpoints (''t'', 5) = Some 3"
  by (simp_all add: archive_ok_def demo_archive_def demo_checkpoints_def demo_snapshot_def source_ok_def
      access_offset_snapshot_def partition_owner_def preferred_def held_def recorded_def entry_pair_def entry_key_def)

theorem rescaling_keeps_progress_witness:
  "\<exists>projected payload table.
     project_checkpoints demo_archive (\<lambda>_. True) \<lparr>us_unit = Instance 1, us_count = 3\<rparr> demo_checkpoints = Inr projected \<and>
     merge_offset_snapshots demo_archive (\<lambda>_. True) projected 2 = Inr payload \<and>
     table_decode demo_archive payload = Inr table \<and>
     next_offset table ''t'' 1 = Some 20 \<and> next_offset table ''t'' 0 = None \<and> next_offset table ''t'' 5 = None"
  using rescaling_keeps_progress [OF demo_sources(1) _ _ demo_sources(2,3), of "\<lambda>_. True" 1 3] demo_sources(4-6)
  by (auto simp: partition_owner_def)


end
