(* ===== verification/Spec2Isabelle.thy ===== *)
theory Spec2Isabelle
  imports Branch_Membership Checkpoint_Replication Admission_Kernel Rate_Restore Finite_Mask Creation_Order Confirmation_Window Window_Results Batch_Packing Kafka_Offsets
begin

text \<open>
  A verification library for Nervix, a clustered stream processing engine written in Rust. Paths are
  relative to the repository: \<open>crates/\<close> holds the library crates, \<open>src/\<close> the node.

  \<^bold>\<open>The program.\<close> A domain is a graph of models: ingestors take records in, relays carry Arrow batches between
  processors (windows, deduplicators, filters, guests), emitters publish them. Processors and relays run
  once per \<^emph>\<open>branch\<close>, a concrete key. Each branch owner publishes which branches are live; processor state
  is checkpointed, assigned to a node and replicated; a domain clock decides which records are admitted; rate
  limiters bound intake; emitters pack batches and wait for the broker's answers. The theories follow these
  parts.

  \<^bold>\<open>Conventions\<close> (\<open>Prelude\<close>). A panic is \<open>None\<close>; a \<open>Result\<close> is a sum with the error on the left; checked
  arithmetic is written with the bound of its width, wrapping arithmetic is on words. A theorem about an operation
  that can panic or loop states that it returns. State is passed explicitly; concurrent code is a step relation
  or a sequence of operations that each hold the lock once.

  \<^bold>\<open>Branches and their state.\<close>
  \<^item> \<open>Expiry_Map\<close> (crates/expiry-map/src/lib.rs): the hash index with its intrusive expiration order, addresses
    included. Every sequence of operations refines a list of entries in expiration order. The locale
    \<open>expiry_order\<close> is its contract, interpreted on the map; the rate limiter's key store uses it.
  \<^item> \<open>Branch_Registry\<close>, \<open>Branch_Membership\<close> (crates/branch-instances/src): incarnations, versions, TTL expiry, LRU
    eviction, and the publication of the live branches by compare-and-swap between successive owners.
  \<^item> \<open>Checkpoint_Replication\<close> (crates/checkpoint-replication/src): replica progress, announcements and waiters; no
    offered revision is lost, no wake-up is missed, one announcer runs at a time.
  \<^item> \<open>State_Assignment\<close> (\<open>StateAssignmentAuthority\<close> in src/runtime/state_store.rs): packed bindings, admission
    counts and the barrier, as interleaved atomic steps of any number of threads. Operations of a superseded
    assignment are finished when its successor's rebind returns, and a rebind can always return.
  \<^item> \<open>Kafka_Offsets\<close> (src/runtime/kafka_offset_state.rs): offset tables and their checkpoints, commits, explicit
    starts, and the projection and merge that redistribute them when the number of units changes.

  \<^bold>\<open>Time and admission.\<close>
  \<^item> \<open>Timestamp\<close>, \<open>Domain_Clock\<close> (crates/models/src/timestamp.rs, domain_clock.rs): timestamps in nanoseconds, the
    clock's advancement and the admission windows.
  \<^item> \<open>Division\<close>, \<open>Admission_Kernel\<close> (crates/simd-kernels/src/division.rs, admission.rs): division by a prepared
    reciprocal and the column kernel built on it; both are exactly the scalar definitions, without overflow.

  \<^bold>\<open>Rate limiting\<close> (crates/rate-limit/src).
  \<^item> \<open>Rate_Quota\<close>, \<open>Keyed_Store\<close>, \<open>Key_Lease\<close>: quotas and cells, the bounded key store, leases and eviction.
  \<^item> \<open>Rate_Limiter\<close>: the transaction over all clauses; a refused admission charges nothing, an admitted one charges
    every clause.
  \<^item> \<open>Rate_Generation\<close>, \<open>Rate_Restore\<close>: saving a limiter and restoring it after a restart.

  \<^bold>\<open>Windows\<close> (crates/simd-kernels/src/window.rs, src/runtime/window_accumulator, src/runtime/window_processor.rs).
  \<^item> \<open>Window_Kernels\<close>, \<open>Finite_Mask\<close>: the vectorised folds, for every number of lanes.
  \<^item> \<open>Window_Arguments\<close>, \<open>Window_Rows\<close>: typed columns and the runs of retained rows.
  \<^item> \<open>Window_Counts\<close>, \<open>Window_Extremes\<close>, \<open>Two_Stacks\<close>: the accumulators. The locales \<open>admitting\<close> and \<open>retractable\<close> are
    what a window asks of them, interpreted on the row counter, the truth counter, the integer sum and the two
    stacks; \<open>contest\<close> is the order behind a candidate queue, interpreted on both directions.
  \<^item> \<open>Window_State\<close>, \<open>Window_Results\<close>: the processor's state under any history of admissions, steps, clears and
    restores. Every accumulator describes exactly the retained rows, every answer is the aggregate of these rows
    or the overflow error, and has the declared type.

  \<^bold>\<open>Emitters and the registry.\<close>
  \<^item> \<open>Batch_Packing\<close> (src/runtime/emitter_batch_packing.rs): packing of buffered rows into bounded payloads; every row
    ends in exactly one outcome, in order.
  \<^item> \<open>Confirmation_Window\<close> (crates/connector/src/confirmation_window.rs): publishing with a bounded number of records
    awaiting answers; every record is accounted for.
  \<^item> \<open>Active_Graph\<close>, \<open>Creation_Order\<close> (src/registry/graph.rs, creation_order.rs): impact of a change, refusal to drop a
    model in use, drawn targets, and a topological creation order.

  \<^bold>\<open>Parameters.\<close> Code outside the repository is an argument of the definitions that call it, and what is
  assumed of it is a named hypothesis with an instance in the property's witness: the governor crate's decision
  (\<open>Rate_Quota\<close>), the notification of sleeping waiters (\<open>Checkpoint_Replication\<close>), the graph library's cycle test
  (\<open>Creation_Order\<close>), the archive library (\<open>Kafka_Offsets\<close>, its round trip), the floating-point aggregates
  (\<open>Two_Stacks\<close>), the clock's floating-point rate (\<open>Domain_Clock\<close>). The compiled codec is a parameter of
  \<open>Batch_Packing\<close> of which nothing is assumed, and the connector is one of \<open>Confirmation_Window\<close>. Arrow columns are
  reached by address through \<open>heap\<close> in \<open>Window_Rows\<close> and after. The number of lanes of a vector register is an
  argument of the kernels.

  \<^bold>\<open>Bounds and termination.\<close> No definition has fuel. Loops are structural or have a measure; the two loops of
  \<open>subdivide\<close> are partial functions, and \<open>Batch_Packing\<close> proves that they return after at most 32 halvings of a
  candidate, as a batch limit fits 32 bits. Bounds that stand as hypotheses are those of memory and of
  process lifetime: fewer than \<open>2 ^ 63\<close> rows in a window, counters and revisions below \<open>2 ^ 64\<close>.

  \<^bold>\<open>Not modelled.\<close>
  \<^item> The asynchronous tasks: relays, acknowledgement trees, ingestor and emitter tasks, schedule application, gates
    and drains. Their states are futures of the executor and of third-party channels; the synchronous state
    they own is what the theories above model.
  \<^item> Memory orderings weaker than one interleaving, in \<open>State_Assignment\<close> and \<open>Branch_Membership\<close>.
  \<^item> The virtual machine, the codecs, the Plexus parser and the guest runtimes, which are defined by Arrow, by
    serialisation formats and by third-party interpreters.
  \<^item> Rounded floating-point folds, sketches and histograms of windows, whose results are those of IEEE rounding.
  \<^item> Consensus, interconnect, storage, connectors, clients, backup, metrics and the user interfaces: input and output
    around third-party libraries.
  \<^item> The deduplicator, reorderer and correlator beyond the expiry map: they evaluate compiled programs on Arrow
    batches between timers.
\<close>

end
